theory Spec2Isabelle
  imports Complex_Main
begin

section \<open>CPMpy objects\<close>

text \<open>
  Python is dynamically typed: every function of the adapters receives an arbitrary
  object and inspects it with \<^verbatim>\<open>is_num\<close> and \<^verbatim>\<open>isinstance\<close>. One datatype
  covers the objects the adapters distinguish. \<open>Num n\<close> is a Python integer (\<^verbatim>\<open>True\<close>
  and \<^verbatim>\<open>False\<close> are the integers 1 and 0; floats are left out); \<open>BoolVal b\<close> is the
  Boolean constant of CPMpy, an expression; \<open>NegBoolView n\<close> is the negated view
  whose field \<^verbatim>\<open>_bv\<close> is the Boolean variable \<open>BoolVarImpl n\<close>; \<open>ListE\<close> is a Python
  list (or array) of objects; \<open>OtherObj\<close> is any other object, of a class the adapters
  do not know, that can be hashed (a string, say). A variable is identified by its
  constructor arguments, as the dictionaries of the source identify it by its hash.
\<close>

datatype expr =
    Num int
  | BoolVarImpl string
  | IntVarImpl int int string
  | NegBoolView string
  | BoolVal bool
  | Operator string "expr list"
  | Comparison string expr expr
  | GlobalConstraint string "expr list"
  | DirectConstraint string "expr list"
  | ListE "expr list"
  | OtherObj string

text \<open>The field \<^verbatim>\<open>_bv\<close> of a negated view.\<close>

definition bv :: "string \<Rightarrow> expr" where
  "bv n = BoolVarImpl n"

text \<open>
  Modelled from the spec: \<^verbatim>\<open>is_num\<close>, of the absent \<^verbatim>\<open>cpmpy/expressions/utils.py\<close>,
  tells the "numeric constants" that \<^verbatim>\<open>solver_var\<close> passes through unchanged: the
  numbers (\<^verbatim>\<open>int\<close>, \<^verbatim>\<open>bool\<close>, \<^verbatim>\<open>float\<close> and their numpy variants) and the Boolean
  constants \<^verbatim>\<open>BoolVal\<close>; of the objects of the model, \<open>Num\<close> and \<open>BoolVal\<close>.
  \<open>const_int\<close> is the integer such a constant stands for (\<^verbatim>\<open>int(c)\<close>); it is asked of
  numeric constants only.
\<close>

fun is_num :: "expr \<Rightarrow> bool" where
  "is_num (Num _) = True"
| "is_num (BoolVal _) = True"
| "is_num _ = False"

fun const_int :: "expr \<Rightarrow> int" where
  "const_int (Num c) = c"
| "const_int (BoolVal b) = (if b then 1 else 0)"
| "const_int _ = 0"

text \<open>A Python list cannot be hashed: to look it up in a dictionary or a set raises
  \<^verbatim>\<open>TypeError\<close>. Expressions can be (the adapters keep them in dictionaries and
  sets).\<close>

fun hashable :: "expr \<Rightarrow> bool" where
  "hashable (ListE _) = False"
| "hashable _ = True"

text \<open>The \<^verbatim>\<open>isinstance\<close> tests against the variable classes:
  \<^verbatim>\<open>NegBoolView\<close> is a subclass of \<^verbatim>\<open>_BoolVarImpl\<close>, which is a subclass of
  \<^verbatim>\<open>_IntVarImpl\<close>, which is a subclass of \<^verbatim>\<open>_NumVarImpl\<close>.\<close>

fun is_NegBoolView :: "expr \<Rightarrow> bool" where
  "is_NegBoolView (NegBoolView _) = True"
| "is_NegBoolView _ = False"

fun is_BoolVarImpl :: "expr \<Rightarrow> bool" where
  "is_BoolVarImpl (BoolVarImpl _) = True"
| "is_BoolVarImpl (NegBoolView _) = True"
| "is_BoolVarImpl _ = False"

fun is_IntVarImpl :: "expr \<Rightarrow> bool" where
  "is_IntVarImpl (IntVarImpl _ _ _) = True"
| "is_IntVarImpl e = is_BoolVarImpl e"

definition is_NumVarImpl :: "expr \<Rightarrow> bool" where
  "is_NumVarImpl e = is_IntVarImpl e"

text \<open>\<^verbatim>\<open>str(cpm_var)\<close>: the name of a variable.\<close>

fun str :: "expr \<Rightarrow> string" where
  "str (BoolVarImpl n) = n"
| "str (IntVarImpl _ _ n) = n"
| "str (NegBoolView n) = ''~'' @ n"
| "str (OtherObj n) = n"
| "str _ = ''<expr>''"

text \<open>The value cached on a variable object (\<^verbatim>\<open>cpm_var._value\<close>): an integer or a
  Boolean; Python's \<^verbatim>\<open>None\<close> is the option \<open>None\<close>.\<close>

datatype val = IntValue int | BoolValue bool

text \<open>The exceptions the adapters raise, or that Python raises for them.\<close>

datatype error =
    ValueError
  | TypeError
  | NotImplementedError
  | NotSupportedError
  | AssertionError
  | AttributeError
  | KeyError
  | UnboundLocalError
  | IndexError
  | RecursionError
  | ModelInvalid

text \<open>
  Modelled from the spec: \<^verbatim>\<open>ExitStatus\<close>, declared in \<^verbatim>\<open>solver_interface.py\<close>, which
  is not among the sources. The spec gives the solver-independent status as one of
  FEASIBLE, OPTIMAL, UNSATISFIABLE, UNKNOWN. A freshly built \<^verbatim>\<open>SolverStatus\<close>, whose
  exit status no solve has set yet, is \<open>None\<close>. The runtime of the status is a wall-clock
  measurement and is left out.
\<close>

datatype ExitStatus = FEASIBLE | OPTIMAL | UNSATISFIABLE | UNKNOWN

text \<open>
  Modelled from the spec: \<^verbatim>\<open>SolverInterface._solve_return\<close>, of the absent
  \<^verbatim>\<open>solver_interface.py\<close>: "Returns whether a solution is available (FEASIBLE or
  OPTIMAL)".
\<close>

definition solve_return :: "ExitStatus option \<Rightarrow> bool" where
  "solve_return st = (st = Some FEASIBLE \<or> st = Some OPTIMAL)"

text \<open>What \<^verbatim>\<open>solver_var\<close> and \<^verbatim>\<open>solver_vars\<close> return, and what a native call takes:
  the number or the Boolean constant that was given, a native handle, or a list of
  these.\<close>

datatype 'h arg = ANum int | ABoolVal bool | AVar 'h | AList "'h arg list"

text \<open>
  The fields of \<^verbatim>\<open>SolverInterface\<close> the adapters use: the set of user variables (a list
  without repetition; Python iterates the set in some order), the variable cache
  \<^verbatim>\<open>_varmap\<close>, the status of the last solve, and the store of the variable objects'
  \<^verbatim>\<open>_value\<close> attributes, which the adapters write.
\<close>

datatype objval = IntObj int | FloatObj rat

text \<open>
  The transformation functions of \<^verbatim>\<open>cpmpy/transformations\<close> are not among the sources.
  A call of one of them is named by a \<open>pass\<close>, with the arguments the adapter gives it
  (the set of supported names; whether \<^verbatim>\<open>merge_and=True\<close> is written out in the call).
  What the transformations share is the
  environment \<open>tenv\<close>: the common-subexpression map (\<^verbatim>\<open>_csemap\<close>), the counters that
  name fresh integer and Boolean variables, and, for the record, the passes that have run.
\<close>

datatype pass =
    Toplevel_list bool
  | No_partial_functions "string list"
  | Decompose_in_tree "string list"
  | Flatten_constraint
  | Reify_rewrite "string list"
  | Only_numexpr_equality "string list"
  | Only_bv_reifies
  | Only_implies
  | Canonical_comparison

record tenv =
  csemap :: "(expr \<times> expr) list"
  iv_counter :: nat
  bv_counter :: nat
  passes_run :: "pass list"

record 'h solver_interface =
  user_vars :: "expr list"
  varmap :: "expr \<rightharpoonup> 'h"
  cpm_status :: "ExitStatus option"
  objective_value :: "objval option"
  var_value :: "expr \<Rightarrow> val option"
  env :: tenv

definition tenv_init :: tenv where
  "tenv_init = \<lparr> csemap = [], iv_counter = 0, bv_counter = 0, passes_run = [] \<rparr>"

text \<open>A computation of an adapter: it returns a result or raises, and leaves a state.\<close>

type_synonym ('s, 'a) comp = "'s \<Rightarrow> (error + 'a) \<times> 's"

definition ret :: "'a \<Rightarrow> ('s, 'a) comp" where
  "ret x s = (Inr x, s)"

definition raise :: "error \<Rightarrow> ('s, 'a) comp" where
  "raise e s = (Inl e, s)"

definition bnd :: "('s, 'a) comp \<Rightarrow> ('a \<Rightarrow> ('s, 'b) comp) \<Rightarrow> ('s, 'b) comp" where
  "bnd m f s = (case m s of (Inl e, s') \<Rightarrow> (Inl e, s') | (Inr x, s') \<Rightarrow> f x s')"

text \<open>A loop over a list whose body may raise: Python's \<^verbatim>\<open>[f(x) for x in xs]\<close>.\<close>

fun mapM :: "('a \<Rightarrow> ('s, 'b) comp) \<Rightarrow> 'a list \<Rightarrow> ('s, 'b list) comp" where
  "mapM f [] = ret []"
| "mapM f (x # xs) = bnd (f x) (\<lambda>y. bnd (mapM f xs) (\<lambda>ys. ret (y # ys)))"

section \<open>The OR-Tools adapter: variables\<close>

text \<open>
  The native objects of OR-Tools are outside the repository. A native variable is known by
  its index in the model; \<^verbatim>\<open>Not()\<close> of a Boolean variable is its negated literal, whose
  index is \<open>-index - 1\<close>, and \<^verbatim>\<open>Not()\<close> of that literal is the variable again.
\<close>

datatype ort_var = OrtVar nat | OrtNot nat

fun ort_Not :: "ort_var \<Rightarrow> ort_var" where
  "ort_Not (OrtVar i) = OrtNot i"
| "ort_Not (OrtNot i) = OrtVar i"

fun ort_Index :: "ort_var \<Rightarrow> int" where
  "ort_Index (OrtVar i) = int i"
| "ort_Index (OrtNot i) = - int i - 1"

text \<open>A value of a solver parameter passed as keyword argument.\<close>

datatype kwval = KwBool bool | KwInt int | KwStr string | KwNone

text \<open>A native numeric expression, as \<^verbatim>\<open>_make_numexpr\<close> builds it: a number or a
  variable, \<^verbatim>\<open>LinearExpr.sum\<close> of a list, the difference of two, or
  \<^verbatim>\<open>LinearExpr.weighted_sum\<close> of a list and the weights.\<close>

datatype ort_numexpr =
    OrtArg "ort_var arg"
  | LinearSum "ort_var arg"
  | Difference "ort_var arg" "ort_var arg"
  | WeightedSum "ort_var arg" expr

text \<open>The calls the adapter makes on \<^verbatim>\<open>ort_model\<close> and \<^verbatim>\<open>ort_solver\<close>, in the order it
  makes them. \<open>Add\<close> is \<^verbatim>\<open>ort_model.Add\<close> of a comparison, named as in CPMpy;
  \<open>AddConstraint\<close> is any other method of the model that posts a constraint or creates an
  interval, with its name and the native arguments; \<open>AddTable\<close> and \<open>AddAutomaton\<close> also
  take CPMpy-side data; \<open>OnlyEnforceIf\<close> is called on the constraint posted last.\<close>

datatype ort_call =
    NewBoolVar string
  | NewIntVar int int string
  | SetMaxTime rat
  | ClearAssumptions
  | AddAssumptions "ort_var list"
  | SetParameter string kwval
  | SetLogCallback
  | Solve bool
  | Minimize ort_numexpr
  | Maximize ort_numexpr
  | ClearHints
  | AddHint "ort_var arg" expr
  | Add string ort_numexpr "ort_var arg"
  | AddConstraint string "ort_var arg list"
  | AddTable string "ort_var arg" expr
  | AddAutomaton "ort_var arg" "expr list"
  | OnlyEnforceIf "ort_var arg"
  | CallSolver string "expr list"

text \<open>What the engine answers to \<^verbatim>\<open>Solve\<close>, kept by \<^verbatim>\<open>ort_solver\<close> until the next
  solve: the native status, the values of the last solution (\<open>None\<close> where
  \<^verbatim>\<open>Value\<close> raises \<^verbatim>\<open>IndexError\<close>), the objective value, the indices of the assumptions
  of the core, and the solutions it hands to the solution callback, one call each.\<close>

datatype ort_status = ORT_UNKNOWN | ORT_MODEL_INVALID | ORT_FEASIBLE | ORT_INFEASIBLE
  | ORT_OPTIMAL | ORT_OTHER nat

record ort_response =
  Solve_status :: ort_status
  Value :: "ort_var \<Rightarrow> int option"
  ObjectiveValue :: rat
  SufficientAssumptionsForInfeasibility :: "int list"
  callback_solutions :: "(ort_var \<Rightarrow> int) list"

text \<open>The state of a \<^verbatim>\<open>CPM_ortools\<close> object. \<open>ort_status\<close> is \<open>None\<close> while the
  attribute does not exist (no solve has run); \<open>num_vars\<close> is the number of variables of
  the native model, the index of the next one.\<close>

record ort_state = "ort_var solver_interface" +
  ort_calls :: "ort_call list"
  num_vars :: nat
  ort_solver :: "ort_response option"
  ort_status :: "ort_status option"
  assumption_dict :: "(int \<rightharpoonup> expr) option"

definition ort_init :: ort_state where
  "ort_init = \<lparr> user_vars = [], varmap = Map.empty, cpm_status = None,
      objective_value = None, var_value = (\<lambda>_. None), env = tenv_init,
      ort_calls = [], num_vars = 0,
      ort_solver = None, ort_status = None, assumption_dict = None \<rparr>"

definition NewBoolVar_call :: "string \<Rightarrow> (ort_state, ort_var) comp" where
  "NewBoolVar_call name s =
     (Inr (OrtVar (num_vars s)),
      s\<lparr> ort_calls := ort_calls s @ [NewBoolVar name], num_vars := Suc (num_vars s) \<rparr>)"

definition NewIntVar_call :: "int \<Rightarrow> int \<Rightarrow> string \<Rightarrow> (ort_state, ort_var) comp" where
  "NewIntVar_call lb ub name s =
     (Inr (OrtVar (num_vars s)),
      s\<lparr> ort_calls := ort_calls s @ [NewIntVar lb ub name], num_vars := Suc (num_vars s) \<rparr>)"

text \<open>\<^verbatim>\<open>CPM_ortools.solver_var\<close>. \<^verbatim>\<open>.Not()\<close> of a number, which has no such method,
  raises \<^verbatim>\<open>AttributeError\<close>. The test \<^verbatim>\<open>cpm_var not in self._varmap\<close> hashes
  \<^verbatim>\<open>cpm_var\<close> before any of the \<^verbatim>\<open>isinstance\<close> tests below it is made: for a list it
  raises \<^verbatim>\<open>TypeError\<close>.\<close>

function ort_solver_var :: "expr \<Rightarrow> (ort_state, ort_var arg) comp" where
  "ort_solver_var cpm_var s =
     (if is_num cpm_var then
        (Inr (case cpm_var of Num n \<Rightarrow> ANum n | BoolVal b \<Rightarrow> ABoolVal b), s)
      else if is_NegBoolView cpm_var then
        (case cpm_var of NegBoolView n \<Rightarrow>
          (case ort_solver_var (bv n) s of
             (Inl e, s') \<Rightarrow> (Inl e, s')
           | (Inr (AVar h), s') \<Rightarrow> (Inr (AVar (ort_Not h)), s')
           | (Inr _, s') \<Rightarrow> (Inl AttributeError, s')))
      else if \<not> hashable cpm_var then (Inl TypeError, s)
      else
        (case (if cpm_var \<notin> dom (varmap s) then
                 (case (if is_BoolVarImpl cpm_var then NewBoolVar_call (str cpm_var) s
                        else if is_IntVarImpl cpm_var then
                          (case cpm_var of IntVarImpl lb ub n \<Rightarrow>
                             NewIntVar_call lb ub (str cpm_var) s)
                        else raise NotImplementedError s) of
                    (Inl e, s') \<Rightarrow> (Inl e, s')
                  | (Inr revar, s') \<Rightarrow> (Inr (), s'\<lparr> varmap := (varmap s')(cpm_var \<mapsto> revar) \<rparr>))
               else (Inr (), s)) of
           (Inl e, s') \<Rightarrow> (Inl e, s')
         | (Inr _, s') \<Rightarrow>
             (case varmap s' cpm_var of
                Some h \<Rightarrow> (Inr (AVar h), s')
              | None \<Rightarrow> (Inl KeyError, s'))))"
  by pat_completeness auto
termination
  by (relation "measure (\<lambda>(e, s). if is_NegBoolView e then 1 else 0)") (auto simp: bv_def)

text \<open>
  Modelled from the spec: \<^verbatim>\<open>SolverInterface.solver_vars\<close>, of the absent
  \<^verbatim>\<open>solver_interface.py\<close>: \<^verbatim>\<open>solver_var\<close> applied to every element of a (nested) list,
  so that "all user variables have native handles".
\<close>

fun solver_vars :: "(expr \<Rightarrow> ('s, 'h arg) comp) \<Rightarrow> expr \<Rightarrow> ('s, 'h arg) comp"
  and solver_vars_list :: "(expr \<Rightarrow> ('s, 'h arg) comp) \<Rightarrow> expr list \<Rightarrow> ('s, 'h arg list) comp"
where
  "solver_vars solver_var (ListE xs) s =
     (case solver_vars_list solver_var xs s of
        (Inl e, s') \<Rightarrow> (Inl e, s')
      | (Inr ys, s') \<Rightarrow> (Inr (AList ys), s'))"
| "solver_vars solver_var e s = solver_var e s"
| "solver_vars_list solver_var [] s = (Inr [], s)"
| "solver_vars_list solver_var (x # xs) s =
     (case solver_vars solver_var x s of
        (Inl e, s') \<Rightarrow> (Inl e, s')
      | (Inr y, s') \<Rightarrow>
          (case solver_vars_list solver_var xs s' of
             (Inl e, s'') \<Rightarrow> (Inl e, s'')
           | (Inr ys, s'') \<Rightarrow> (Inr (y # ys), s'')))"

text \<open>
  Modelled from the spec: \<^verbatim>\<open>get_variables\<close>, of the absent
  \<^verbatim>\<open>transformations/get_variables.py\<close>: the variables that appear in an expression,
  a negated view counting as its underlying variable ("it shares identity with its
  underlying variable"). With \<^verbatim>\<open>collect=\<close> the variables are added to the given set.
\<close>

fun vars_of :: "expr \<Rightarrow> expr list" where
  "vars_of (Num _) = []"
| "vars_of (BoolVarImpl n) = [BoolVarImpl n]"
| "vars_of (IntVarImpl lb ub n) = [IntVarImpl lb ub n]"
| "vars_of (NegBoolView n) = [bv n]"
| "vars_of (BoolVal _) = []"
| "vars_of (Operator _ args) = concat (map vars_of args)"
| "vars_of (Comparison _ l r) = vars_of l @ vars_of r"
| "vars_of (GlobalConstraint _ args) = concat (map vars_of args)"
| "vars_of (DirectConstraint _ args) = concat (map vars_of args)"
| "vars_of (ListE xs) = concat (map vars_of xs)"
| "vars_of (OtherObj _) = []"

definition get_variables :: "expr \<Rightarrow> expr list" where
  "get_variables e = remdups (vars_of e)"

definition collect :: "expr list \<Rightarrow> expr list \<Rightarrow> expr list" where
  "collect vs user = fold List.insert vs user"

section \<open>The OR-Tools adapter: solving\<close>

text \<open>\<^verbatim>\<open>CPM_ortools.has_objective\<close>: \<^verbatim>\<open>ort_model.HasObjective()\<close>, true once an objective
  has been posted to the native model.\<close>

fun is_objective_call :: "ort_call \<Rightarrow> bool" where
  "is_objective_call (Minimize _) = True"
| "is_objective_call (Maximize _) = True"
| "is_objective_call _ = False"

definition ort_has_objective :: "ort_state \<Rightarrow> bool" where
  "ort_has_objective s = list_ex is_objective_call (ort_calls s)"

definition ort_native :: "ort_call \<Rightarrow> (ort_state, unit) comp" where
  "ort_native c s = (Inr (), s\<lparr> ort_calls := ort_calls s @ [c] \<rparr>)"

text \<open>The solution callback object (\<^verbatim>\<open>OrtSolutionPrinter\<close>; an \<^verbatim>\<open>OrtSolutionCounter\<close> is
  one with no variable to populate and no limit). Its \<^verbatim>\<open>_varmap\<close> is the adapter's own
  dictionary, so it is read from the state. What it prints is not modelled.\<close>

record OrtSolutionPrinter =
  solution_count :: nat
  cb_solution_limit :: "int option"
  cb_cpm_vars :: "expr list"

datatype display = DisplayNone | DisplayExprs expr | DisplayCallable

definition new_OrtSolutionPrinter :: "ort_state \<Rightarrow> display \<Rightarrow> int option \<Rightarrow> OrtSolutionPrinter" where
  "new_OrtSolutionPrinter solver disp limit =
     \<lparr> solution_count = 0, cb_solution_limit = limit,
       cb_cpm_vars = (case disp of
                     DisplayExprs e \<Rightarrow> get_variables e
                   | DisplayCallable \<Rightarrow> user_vars solver
                   | DisplayNone \<Rightarrow> []) \<rparr>"

text \<open>The loop of \<^verbatim>\<open>on_solution_callback\<close> that populates the values of the variables to
  display; \<^verbatim>\<open>self._varmap[cpm_var]\<close> raises \<^verbatim>\<open>KeyError\<close> for a variable without
  handle.\<close>

fun populate :: "(ort_var \<Rightarrow> int) \<Rightarrow> expr list \<Rightarrow> (ort_state, unit) comp" where
  "populate sol [] s = (Inr (), s)"
| "populate sol (cpm_var # rest) s =
     (case varmap s cpm_var of
        None \<Rightarrow> (Inl KeyError, s)
      | Some h \<Rightarrow>
          populate sol rest
            (s\<lparr> var_value := (var_value s)(cpm_var :=
                  Some (if is_BoolVarImpl cpm_var then BoolValue (sol h \<noteq> 0)
                        else IntValue (sol h))) \<rparr>))"

text \<open>\<^verbatim>\<open>on_solution_callback\<close>: the result says whether \<^verbatim>\<open>StopSearch\<close> was called.\<close>

definition on_solution_callback ::
  "OrtSolutionPrinter \<Rightarrow> (ort_var \<Rightarrow> int) \<Rightarrow> (ort_state, OrtSolutionPrinter \<times> bool) comp" where
  "on_solution_callback cb sol s =
     (let cb' = cb\<lparr> solution_count := solution_count cb + 1 \<rparr> in
      case (if length (cb_cpm_vars cb') \<noteq> 0 then populate sol (cb_cpm_vars cb') s else (Inr (), s)) of
        (Inl e, s') \<Rightarrow> (Inl e, s')
      | (Inr _, s') \<Rightarrow>
          (Inr (cb', Some (int (solution_count cb')) = cb_solution_limit cb'), s'))"

text \<open>The engine calls the callback once per solution it finds, until the search is
  stopped.\<close>

fun run_callbacks ::
  "(ort_var \<Rightarrow> int) list \<Rightarrow> OrtSolutionPrinter \<Rightarrow> (ort_state, OrtSolutionPrinter) comp" where
  "run_callbacks [] cb s = (Inr cb, s)"
| "run_callbacks (sol # sols) cb s =
     (case on_solution_callback cb sol s of
        (Inl e, s') \<Rightarrow> (Inl e, s')
      | (Inr (cb', stop), s') \<Rightarrow> if stop then (Inr cb', s') else run_callbacks sols cb' s')"

text \<open>\<^verbatim>\<open>self.ort_solver.Solve(self.ort_model, solution_callback=solution_callback)\<close>. The
  engine is a function of the calls made so far.\<close>

definition ort_Solve ::
  "(ort_call list \<Rightarrow> ort_response) \<Rightarrow> OrtSolutionPrinter option
     \<Rightarrow> (ort_state, OrtSolutionPrinter option) comp" where
  "ort_Solve engine solution_callback s =
     (let s1 = s\<lparr> ort_calls := ort_calls s @ [Solve (solution_callback \<noteq> None)] \<rparr>;
          resp = engine (ort_calls s1);
          s2 = s1\<lparr> ort_solver := Some resp \<rparr>
      in case (case solution_callback of
                 None \<Rightarrow> (Inr None, s2)
               | Some cb \<Rightarrow>
                   (case run_callbacks (callback_solutions resp) cb s2 of
                      (Inl e, s') \<Rightarrow> (Inl e, s')
                    | (Inr cb', s') \<Rightarrow> (Inr (Some cb'), s'))) of
           (Inl e, s') \<Rightarrow> (Inl e, s')
         | (Inr cb', s') \<Rightarrow> (Inr cb', s'\<lparr> ort_status := Some (Solve_status resp) \<rparr>))"

text \<open>The parts of \<^verbatim>\<open>CPM_ortools.solve\<close>, in the order of the source.\<close>

definition ort_set_time_limit :: "rat option \<Rightarrow> (ort_state, unit) comp" where
  "ort_set_time_limit time_limit =
     (case time_limit of
        None \<Rightarrow> ret ()
      | Some t \<Rightarrow> if t \<le> 0 then raise ValueError else ort_native (SetMaxTime t))"

text \<open>\<^verbatim>\<open>ort_var.Index()\<close> of what \<^verbatim>\<open>solver_vars\<close> returned: a number or a list has no
  such method.\<close>

fun Index_of :: "ort_var arg \<Rightarrow> error + int" where
  "Index_of (AVar h) = Inr (ort_Index h)"
| "Index_of _ = Inl AttributeError"

fun handle_of :: "ort_var arg \<Rightarrow> ort_var list" where
  "handle_of (AVar h) = [h]"
| "handle_of _ = []"

fun build_assumption_dict ::
  "(int \<rightharpoonup> expr) \<Rightarrow> expr list \<Rightarrow> ort_var arg list \<Rightarrow> error + (int \<rightharpoonup> expr)" where
  "build_assumption_dict d (cpm_var # cs) (ort_var # os) =
     (case Index_of ort_var of
        Inl e \<Rightarrow> Inl e
      | Inr i \<Rightarrow> build_assumption_dict (d(i \<mapsto> cpm_var)) cs os)"
| "build_assumption_dict d _ _ = Inr d"

definition ort_set_assumptions :: "expr list option \<Rightarrow> (ort_state, unit) comp" where
  "ort_set_assumptions assumptions =
     (case assumptions of
        None \<Rightarrow> ret ()
      | Some as \<Rightarrow>
          bnd (solver_vars_list ort_solver_var as) (\<lambda>ort_assum_vars.
            case build_assumption_dict Map.empty as ort_assum_vars of
              Inl e \<Rightarrow> raise e
            | Inr d \<Rightarrow>
                bnd (\<lambda>s. (Inr (), s\<lparr> assumption_dict := Some d \<rparr>)) (\<lambda>_.
                bnd (ort_native ClearAssumptions) (\<lambda>_.
                bnd (ort_native (AddAssumptions (concat (map handle_of ort_assum_vars)))) (\<lambda>_.
                ort_native (SetParameter ''keep_all_feasible_solutions_in_presolve''
                  (KwBool True)))))))"

fun ort_set_kwargs :: "(string \<times> kwval) list \<Rightarrow> (ort_state, unit) comp" where
  "ort_set_kwargs [] = ret ()"
| "ort_set_kwargs ((kw, v) # rest) = bnd (ort_native (SetParameter kw v)) (\<lambda>_. ort_set_kwargs rest)"

text \<open>The truth value Python gives an argument.\<close>

fun truthy :: "kwval \<Rightarrow> bool" where
  "truthy (KwBool b) = b"
| "truthy (KwInt n) = (n \<noteq> 0)"
| "truthy (KwStr x) = (x \<noteq> [])"
| "truthy KwNone = False"

definition kwargs_get :: "(string \<times> kwval) list \<Rightarrow> string \<Rightarrow> kwval \<Rightarrow> kwval" where
  "kwargs_get kwargs k dflt = (case map_of kwargs k of None \<Rightarrow> dflt | Some v \<Rightarrow> v)"

text \<open>The translation of the native status ("translate exit status").\<close>

definition ort_translate_status :: "(string \<times> kwval) list \<Rightarrow> (ort_state, unit) comp" where
  "ort_translate_status kwargs s =
     (let s0 = s\<lparr> cpm_status := None \<rparr> in
      if ort_status s0 = Some ORT_FEASIBLE then (Inr (), s0\<lparr> cpm_status := Some FEASIBLE \<rparr>)
      else if ort_status s0 = Some ORT_OPTIMAL then
        (if ort_has_objective s0 then (Inr (), s0\<lparr> cpm_status := Some OPTIMAL \<rparr>)
         else if truthy (kwargs_get kwargs ''enumerate_all_solutions'' (KwBool False))
           then (Inr (), s0\<lparr> cpm_status := Some OPTIMAL \<rparr>)
         else (Inr (), s0\<lparr> cpm_status := Some FEASIBLE \<rparr>))
      else if ort_status s0 = Some ORT_INFEASIBLE then
        (Inr (), s0\<lparr> cpm_status := Some UNSATISFIABLE \<rparr>)
      else if ort_status s0 = Some ORT_MODEL_INVALID then (Inl ModelInvalid, s0)
      else if ort_status s0 = Some ORT_UNKNOWN then (Inr (), s0\<lparr> cpm_status := Some UNKNOWN \<rparr>)
      else (Inl NotImplementedError, s0))"

text \<open>\<^verbatim>\<open>self.ort_solver.Value(...)\<close>: the value of a number is the number; \<open>None\<close> of the
  response is \<^verbatim>\<open>IndexError\<close>, which the source turns into \<^verbatim>\<open>ValueError\<close>.\<close>

fun ort_Value :: "ort_response option \<Rightarrow> ort_var arg \<Rightarrow> error + int" where
  "ort_Value _ (ANum n) = Inr n"
| "ort_Value (Some resp) (AVar h) = (case Value resp h of None \<Rightarrow> Inl ValueError | Some v \<Rightarrow> Inr v)"
| "ort_Value _ _ = Inl TypeError"

fun ort_fill_values :: "expr list \<Rightarrow> (ort_state, unit) comp" where
  "ort_fill_values [] s = (Inr (), s)"
| "ort_fill_values (cpm_var # rest) s =
     (case ort_solver_var cpm_var s of
        (Inl e, s') \<Rightarrow> (Inl e, s')
      | (Inr h, s') \<Rightarrow>
          (case ort_Value (ort_solver s') h of
             Inl e \<Rightarrow> (Inl e, s')
           | Inr v \<Rightarrow>
               ort_fill_values rest
                 (s'\<lparr> var_value := (var_value s')(cpm_var :=
                        Some (if is_BoolVarImpl cpm_var then BoolValue (v \<noteq> 0)
                              else IntValue v)) \<rparr>)))"

fun clear_values :: "expr list \<Rightarrow> (expr \<Rightarrow> val option) \<Rightarrow> (expr \<Rightarrow> val option)" where
  "clear_values [] f = f"
| "clear_values (cpm_var # rest) f = clear_values rest (f(cpm_var := None))"

definition ort_translate_objective :: "ort_state \<Rightarrow> ort_state" where
  "ort_translate_objective s =
     (if ort_has_objective s then
        (case ort_solver s of
           None \<Rightarrow> s
         | Some resp \<Rightarrow>
             (let ort_obj_val = ObjectiveValue resp in
              if of_int (round ort_obj_val) = ort_obj_val
              then s\<lparr> objective_value := Some (IntObj (round ort_obj_val)) \<rparr>
              else s\<lparr> objective_value := Some (FloatObj ort_obj_val) \<rparr>))
      else s)"

definition ort_translate_solution :: "bool \<Rightarrow> (ort_state, unit) comp" where
  "ort_translate_solution has_sol s =
     (let s0 = s\<lparr> objective_value := None \<rparr> in
      if has_sol then
        (case ort_fill_values (user_vars s0) s0 of
           (Inl e, s') \<Rightarrow> (Inl e, s')
         | (Inr _, s') \<Rightarrow> (Inr (), ort_translate_objective s'))
      else (Inr (), s0\<lparr> var_value := clear_values (user_vars s0) (var_value s0) \<rparr>))"

text \<open>\<^verbatim>\<open>CPM_ortools.solve\<close>. \<open>redirect_log\<close> stands for the test of the Python
  environment \<^verbatim>\<open>hasattr(self.ort_solver, "log_callback") and (sys.stdout != sys.__stdout__)\<close>.
  The result also gives the callback object as the solve left it.\<close>

definition ort_solve ::
  "(ort_call list \<Rightarrow> ort_response) \<Rightarrow> bool \<Rightarrow> rat option \<Rightarrow> expr list option
     \<Rightarrow> OrtSolutionPrinter option \<Rightarrow> (string \<times> kwval) list
     \<Rightarrow> (ort_state, bool \<times> OrtSolutionPrinter option) comp" where
  "ort_solve engine redirect_log time_limit assumptions solution_callback kwargs =
     bnd (\<lambda>s. solver_vars ort_solver_var (ListE (user_vars s)) s) (\<lambda>_.
     bnd (ort_set_time_limit time_limit) (\<lambda>_.
     bnd (ort_set_assumptions assumptions) (\<lambda>_.
     bnd (ort_set_kwargs kwargs) (\<lambda>_.
     bnd (if ''log_search_progress'' \<in> fst ` set kwargs \<and> redirect_log
          then ort_native SetLogCallback else ret ()) (\<lambda>_.
     bnd (ort_Solve engine solution_callback) (\<lambda>cb.
     bnd (ort_translate_status kwargs) (\<lambda>_.
     bnd (\<lambda>s. (Inr (solve_return (cpm_status s)), s)) (\<lambda>has_sol.
     bnd (ort_translate_solution has_sol) (\<lambda>_.
     ret (has_sol, cb))))))))))"

text \<open>\<^verbatim>\<open>CPM_ortools.solveAll\<close>. A keyword argument of \<^verbatim>\<open>kwargs\<close> that the call of
  \<^verbatim>\<open>solve\<close> also names makes Python raise \<^verbatim>\<open>TypeError\<close>.\<close>

definition ort_solveAll ::
  "(ort_call list \<Rightarrow> ort_response) \<Rightarrow> bool \<Rightarrow> display \<Rightarrow> rat option \<Rightarrow> int option
     \<Rightarrow> (string \<times> kwval) list \<Rightarrow> (ort_state, nat) comp" where
  "ort_solveAll engine redirect_log disp time_limit solution_limit kwargs s =
     (if ort_has_objective s then (Inl NotSupportedError, s)
      else
        (let cb = new_OrtSolutionPrinter s disp solution_limit in
         if fst ` set kwargs \<inter> {''enumerate_all_solutions'', ''solution_callback'', ''time_limit''} \<noteq> {}
         then (Inl TypeError, s)
         else
           (case ort_solve engine redirect_log time_limit None (Some cb)
                   ((''enumerate_all_solutions'', KwBool True) # kwargs) s of
              (Inl e, s') \<Rightarrow> (Inl e, s')
            | (Inr (_, None), s') \<Rightarrow> (Inl AttributeError, s')
            | (Inr (_, Some cb'), s') \<Rightarrow> (Inr (solution_count cb'), s'))))"

text \<open>\<^verbatim>\<open>CPM_ortools.get_core\<close>. Reading \<^verbatim>\<open>self.ort_status\<close> before any solve raises
  \<^verbatim>\<open>AttributeError\<close>; a failed \<^verbatim>\<open>assert\<close> raises \<^verbatim>\<open>AssertionError\<close>; an index that is
  not a key of the dictionary raises \<^verbatim>\<open>KeyError\<close>.\<close>

fun lookup_all :: "('k \<rightharpoonup> 'v) \<Rightarrow> 'k list \<Rightarrow> error + 'v list" where
  "lookup_all d [] = Inr []"
| "lookup_all d (i # rest) =
     (case d i of
        None \<Rightarrow> Inl KeyError
      | Some v \<Rightarrow> (case lookup_all d rest of Inl e \<Rightarrow> Inl e | Inr vs \<Rightarrow> Inr (v # vs)))"

definition ort_get_core :: "(ort_state, expr list) comp" where
  "ort_get_core s =
     (case ort_status s of
        None \<Rightarrow> (Inl AttributeError, s)
      | Some st \<Rightarrow>
          if st \<noteq> ORT_INFEASIBLE then (Inl AssertionError, s)
          else
            (case assumption_dict s of
               None \<Rightarrow> (Inl AssertionError, s)
             | Some d \<Rightarrow>
                 (let assum_idx = (case ort_solver s of
                                     None \<Rightarrow> []
                                   | Some resp \<Rightarrow> SufficientAssumptionsForInfeasibility resp)
                  in case lookup_all d assum_idx of
                       Inl e \<Rightarrow> (Inl e, s)
                     | Inr core \<Rightarrow> (Inr core, s))))"

section \<open>The Pumpkin adapter: variables\<close>

text \<open>
  The native objects of Pumpkin are outside the repository; they are modelled by the calls
  that build them. An \<^verbatim>\<open>IntExpression\<close> is an integer variable, a Boolean seen as an
  integer, or a scaled expression; a \<^verbatim>\<open>BoolExpression\<close> is a Boolean variable, a negated
  one, or a predicate seen as a Boolean. \<^verbatim>\<open>boolean_as_integer\<close> and
  \<^verbatim>\<open>predicate_as_boolean\<close> build views and post nothing.
\<close>

datatype Comparator = Equal | LessThanOrEqual | GreaterThanOrEqual | NotEqual

datatype pum_int = IntVariable nat | BooleanAsInteger pum_bool | Scaled pum_int int
  and pum_bool = BoolVariable nat | Negated pum_bool | PredicateAsBoolean pum_pred
  and pum_pred = Predicate pum_int Comparator int

datatype pum_handle = PumpkinInt pum_int | PumpkinBool pum_bool

datatype pum_constraint =
    Clause "pum_bool list"
  | Equals "pum_int list" int
  | LessThanOrEquals "pum_int list" int
  | NotEquals "pum_int list" int
  | Division pum_int pum_int pum_int
  | Times pum_int pum_int pum_int
  | Absolute pum_int pum_int
  | Minimum "pum_int list" pum_int
  | Maximum "pum_int list" pum_int
  | Element pum_int "pum_int list" pum_int
  | AllDifferent "pum_int list"
  | Cumulative "pum_int list" "int list" "int list" int

datatype Direction = Minimise | Maximise

datatype pum_kw =
    KwProof "string option"
  | KwObjective "pum_handle arg"
  | KwDirection Direction
  | KwAssumptions "pum_pred list"
  | KwOther kwval

datatype solve_func = optimise | satisfy_under_assumptions | satisfy

text \<open>The calls the adapter makes on \<^verbatim>\<open>pum_solver\<close> that create a variable, post a
  constraint or solve, in the order it makes them.\<close>

datatype pum_call =
    new_boolean_variable string
  | new_integer_variable int int string
  | add_constraint pum_constraint "nat option"
  | add_implication pum_constraint pum_bool "nat option"
  | solve_call solve_func "(string \<times> pum_kw) list"

text \<open>What the engine returns from a solve: one of the result classes of
  \<^verbatim>\<open>OptimisationResult\<close>, \<^verbatim>\<open>SatisfactionResult\<close> and
  \<^verbatim>\<open>SatisfactionUnderAssumptionsResult\<close>, with its field \<^verbatim>\<open>_0\<close>, or something else.\<close>

datatype pum_solution = Solution (int_value: "pum_int \<Rightarrow> int") (bool_value: "pum_bool \<Rightarrow> bool")

datatype pum_result =
    OptimisationResult_Optimal pum_solution
  | OptimisationResult_Satisfiable pum_solution
  | OptimisationResult_Unsatisfiable
  | OptimisationResult_Unknown
  | SatisfactionResult_Satisfiable pum_solution
  | SatisfactionResult_Unsatisfiable
  | SatisfactionResult_Unknown
  | UnderAssumptions_Satisfiable pum_solution
  | UnderAssumptions_Unsatisfiable
  | UnderAssumptions_UnsatisfiableUnderAssumptions "pum_pred list"
  | UnderAssumptions_Unknown
  | OtherResult

text \<open>The state of a \<^verbatim>\<open>CPM_pumpkin\<close> object. \<open>pum_core\<close> and \<open>assump_map\<close> are \<open>None\<close>
  while the attribute does not exist: the constructor creates neither. The dictionary
  \<^verbatim>\<open>_constantvars\<close> is never read or written (the code that uses it follows a
  \<^verbatim>\<open>return\<close>) and is left out.\<close>

record pum_state = "pum_handle solver_interface" +
  pum_calls :: "pum_call list"
  pum_num_vars :: nat
  prefix :: "string option"
  objective :: "expr option"
  objective_is_min :: bool
  user_cons :: "(nat \<times> expr) list"
  pum_core :: "pum_pred list option option"
  assump_map :: "(pum_pred \<rightharpoonup> expr) option"

definition pum_init :: pum_state where
  "pum_init = \<lparr> user_vars = [], varmap = Map.empty, cpm_status = None,
      objective_value = None, var_value = (\<lambda>_. None), env = tenv_init,
      pum_calls = [], pum_num_vars = 0, prefix = None, objective = None,
      objective_is_min = True, user_cons = [], pum_core = None, assump_map = None \<rparr>"

definition new_boolean_variable_call :: "string \<Rightarrow> (pum_state, pum_handle) comp" where
  "new_boolean_variable_call name s =
     (Inr (PumpkinBool (BoolVariable (pum_num_vars s))),
      s\<lparr> pum_calls := pum_calls s @ [new_boolean_variable name],
         pum_num_vars := Suc (pum_num_vars s) \<rparr>)"

definition new_integer_variable_call :: "int \<Rightarrow> int \<Rightarrow> string \<Rightarrow> (pum_state, pum_handle) comp" where
  "new_integer_variable_call lb ub name s =
     (Inr (PumpkinInt (IntVariable (pum_num_vars s))),
      s\<lparr> pum_calls := pum_calls s @ [new_integer_variable lb ub name],
         pum_num_vars := Suc (pum_num_vars s) \<rparr>)"

text \<open>\<^verbatim>\<open>CPM_pumpkin.solver_var\<close>. A numeric constant is returned at once (the code
  after that \<^verbatim>\<open>return\<close> is never run); \<^verbatim>\<open>.negate()\<close> exists on a
  \<^verbatim>\<open>BoolExpression\<close> only; the test \<^verbatim>\<open>cpm_var not in self._varmap\<close> raises
  \<^verbatim>\<open>TypeError\<close> for a list, which cannot be hashed.\<close>

function pum_solver_var :: "expr \<Rightarrow> (pum_state, pum_handle arg) comp" where
  "pum_solver_var cpm_var s =
     (if is_num cpm_var then
        (Inr (case cpm_var of Num n \<Rightarrow> ANum n | BoolVal b \<Rightarrow> ABoolVal b), s)
      else if is_NegBoolView cpm_var then
        (case cpm_var of NegBoolView n \<Rightarrow>
          (case pum_solver_var (bv n) s of
             (Inl e, s') \<Rightarrow> (Inl e, s')
           | (Inr (AVar (PumpkinBool b)), s') \<Rightarrow> (Inr (AVar (PumpkinBool (Negated b))), s')
           | (Inr _, s') \<Rightarrow> (Inl AttributeError, s')))
      else if \<not> hashable cpm_var then (Inl TypeError, s)
      else
        (case (if cpm_var \<notin> dom (varmap s) then
                 (case (if is_BoolVarImpl cpm_var then new_boolean_variable_call (str cpm_var) s
                        else if is_IntVarImpl cpm_var then
                          (case cpm_var of IntVarImpl lb ub n \<Rightarrow>
                             new_integer_variable_call lb ub (str cpm_var) s)
                        else raise NotImplementedError s) of
                    (Inl e, s') \<Rightarrow> (Inl e, s')
                  | (Inr revar, s') \<Rightarrow> (Inr (), s'\<lparr> varmap := (varmap s')(cpm_var \<mapsto> revar) \<rparr>))
               else (Inr (), s)) of
           (Inl e, s') \<Rightarrow> (Inl e, s')
         | (Inr _, s') \<Rightarrow>
             (case varmap s' cpm_var of
                Some h \<Rightarrow> (Inr (AVar h), s')
              | None \<Rightarrow> (Inl KeyError, s'))))"
  by pat_completeness auto
termination
  by (relation "measure (\<lambda>(e, s). if is_NegBoolView e then 1 else 0)") (auto simp: bv_def)

text \<open>
  Modelled from the spec: \<^verbatim>\<open>intvar\<close> and \<^verbatim>\<open>boolvar\<close>, of the absent
  \<^verbatim>\<open>expressions/variables.py\<close>, create a new variable, an "identity-bearing leaf node"
  with a "stable name": the name is taken from the counter of the kind of variable.
\<close>

function string_of_nat :: "nat \<Rightarrow> string" where
  "string_of_nat n =
     (if n < 10 then [char_of (48 + n)]
      else string_of_nat (n div 10) @ [char_of (48 + n mod 10)])"
  by pat_completeness auto
termination
  by (relation "measure id") auto

definition intvar :: "int \<Rightarrow> int \<Rightarrow> ('h, 'z) solver_interface_scheme \<Rightarrow>
    (error + expr) \<times> ('h, 'z) solver_interface_scheme" where
  "intvar lb ub s =
     (Inr (IntVarImpl lb ub (''IV'' @ string_of_nat (iv_counter (env s)))),
      s\<lparr> env := (env s)\<lparr> iv_counter := Suc (iv_counter (env s)) \<rparr> \<rparr>)"

definition boolvar :: "('h, 'z) solver_interface_scheme \<Rightarrow>
    (error + expr) \<times> ('h, 'z) solver_interface_scheme" where
  "boolvar s =
     (Inr (BoolVarImpl (''BV'' @ string_of_nat (bv_counter (env s)))),
      s\<lparr> env := (env s)\<lparr> bv_counter := Suc (bv_counter (env s)) \<rparr> \<rparr>)"

text \<open>\<^verbatim>\<open>CPM_pumpkin._ivars\<close>. \<^verbatim>\<open>boolean_as_integer\<close> takes a \<^verbatim>\<open>BoolExpression\<close>.\<close>

fun boolean_as_integer :: "pum_handle arg \<Rightarrow> error + pum_handle arg" where
  "boolean_as_integer (AVar (PumpkinBool b)) = Inr (AVar (PumpkinInt (BooleanAsInteger b)))"
| "boolean_as_integer _ = Inl TypeError"

fun ivars :: "expr \<Rightarrow> (pum_state, pum_handle arg) comp"
  and ivars_list :: "expr list \<Rightarrow> (pum_state, pum_handle arg list) comp"
where
  "ivars (ListE xs) s =
     (case ivars_list xs s of
        (Inl e, s') \<Rightarrow> (Inl e, s')
      | (Inr ys, s') \<Rightarrow> (Inr (AList ys), s'))"
| "ivars cpm_var s =
     (if is_BoolVarImpl cpm_var then
        (case pum_solver_var cpm_var s of
           (Inl e, s') \<Rightarrow> (Inl e, s')
         | (Inr h, s') \<Rightarrow>
             (case boolean_as_integer h of Inl e \<Rightarrow> (Inl e, s') | Inr i \<Rightarrow> (Inr i, s')))
      else if is_num cpm_var then
        (case intvar (const_int cpm_var) (const_int cpm_var) s of
           (Inl e, s') \<Rightarrow> (Inl e, s')
         | (Inr v, s') \<Rightarrow> pum_solver_var v s')
      else pum_solver_var cpm_var s)"
| "ivars_list [] s = (Inr [], s)"
| "ivars_list (x # xs) s =
     (case ivars x s of
        (Inl e, s') \<Rightarrow> (Inl e, s')
      | (Inr y, s') \<Rightarrow>
          (case ivars_list xs s' of
             (Inl e, s'') \<Rightarrow> (Inl e, s'')
           | (Inr ys, s'') \<Rightarrow> (Inr (y # ys), s'')))"

text \<open>\<^verbatim>\<open>CPM_pumpkin.to_predicate\<close>. The chain of \<^verbatim>\<open>if\<close>s on the name of the comparison
  leaves \<^verbatim>\<open>comp\<close> unbound for any other name, so that \<^verbatim>\<open>Predicate(var, comp, rhs)\<close>,
  evaluated after \<^verbatim>\<open>_ivars\<close>, raises \<^verbatim>\<open>UnboundLocalError\<close>. The native
  \<^verbatim>\<open>Predicate\<close> takes an integer expression and an integer: it refuses
  (\<^verbatim>\<open>TypeError\<close>) a right-hand side that \<^verbatim>\<open>is_num\<close> has accepted but that is no
  integer, a Boolean constant.\<close>

definition comparator_of :: "string \<Rightarrow> int \<Rightarrow> (Comparator \<times> int) option" where
  "comparator_of name rhs =
     (if name = ''=='' then Some (Equal, rhs)
      else if name = ''<='' then Some (LessThanOrEqual, rhs)
      else if name = ''>='' then Some (GreaterThanOrEqual, rhs)
      else if name = ''!='' then Some (NotEqual, rhs)
      else if name = ''<'' then Some (LessThanOrEqual, rhs - 1)
      else if name = ''>'' then Some (GreaterThanOrEqual, rhs + 1)
      else None)"

definition make_predicate :: "expr \<Rightarrow> (Comparator \<times> int) option \<Rightarrow> (pum_state, pum_pred) comp" where
  "make_predicate lhs comp_rhs s =
     (case ivars lhs s of
        (Inl e, s') \<Rightarrow> (Inl e, s')
      | (Inr var, s') \<Rightarrow>
          (case comp_rhs of
             None \<Rightarrow> (Inl UnboundLocalError, s')
           | Some (cmp, rhs) \<Rightarrow>
               (case var of
                  AVar (PumpkinInt i) \<Rightarrow> (Inr (Predicate i cmp rhs), s')
                | _ \<Rightarrow> (Inl TypeError, s'))))"

definition to_predicate :: "expr \<Rightarrow> (pum_state, pum_pred) comp" where
  "to_predicate cpm_expr =
     (if is_BoolVarImpl cpm_expr then
        (case cpm_expr of
           NegBoolView n \<Rightarrow> make_predicate (bv n) (Some (LessThanOrEqual, 0))
         | _ \<Rightarrow> make_predicate cpm_expr (Some (GreaterThanOrEqual, 1)))
      else
        (case cpm_expr of
           Comparison name lhs rhs \<Rightarrow>
             if \<not> is_num rhs then raise AssertionError
             else
               (case (case lhs of
                        Operator nm args \<Rightarrow>
                          (case args of
                             [a] \<Rightarrow> if nm = ''sum'' then Inr a else Inl ValueError
                           | _ \<Rightarrow> Inl ValueError)
                      | _ \<Rightarrow> Inr lhs) of
                  Inl e \<Rightarrow> raise e
                | Inr lhs' \<Rightarrow>
                    if \<not> is_NumVarImpl lhs' then raise AssertionError
                    else
                      (case rhs of
                         Num r \<Rightarrow> make_predicate lhs' (comparator_of name r)
                       | _ \<Rightarrow>
                           bnd (make_predicate lhs' (comparator_of name 0)) (\<lambda>_.
                           raise TypeError)))
         | _ \<Rightarrow> raise ValueError))"

section \<open>The Pumpkin adapter: solving\<close>

definition pum_has_objective :: "pum_state \<Rightarrow> bool" where
  "pum_has_objective s = (objective s \<noteq> None)"

text \<open>\<^verbatim>\<open>dict.update\<close> for one key.\<close>

definition kw_update :: "string \<Rightarrow> 'v \<Rightarrow> (string \<times> 'v) list \<Rightarrow> (string \<times> 'v) list" where
  "kw_update k v d =
     (if k \<in> fst ` set d then map (\<lambda>(k', v'). if k' = k then (k, v) else (k', v')) d
      else d @ [(k, v)])"

text \<open>The expression \<^verbatim>\<open>proof[proof]\<close> of the last branch of the choice of the solve
  function: subscripting \<^verbatim>\<open>None\<close> raises \<^verbatim>\<open>TypeError\<close>, and so does subscripting a string
  with a string.\<close>

fun proof_subscript :: "string option \<Rightarrow> string option \<Rightarrow> error + (string \<times> pum_kw) list" where
  "proof_subscript None _ = Inl TypeError"
| "proof_subscript (Some _) _ = Inl TypeError"

text \<open>The choice of the solve function and of its keyword arguments.\<close>

definition pum_choose ::
  "string option \<Rightarrow> expr list option \<Rightarrow> (string \<times> pum_kw) list
     \<Rightarrow> (pum_state, solve_func \<times> (string \<times> pum_kw) list) comp" where
  "pum_choose proof assumptions kwargs s =
     (if pum_has_objective s then
        (if assumptions \<noteq> None then (Inl AssertionError, s)
         else
           (case objective s of
              None \<Rightarrow> (Inl AttributeError, s)
            | Some obj \<Rightarrow>
                (case pum_solver_var obj s of
                   (Inl e, s') \<Rightarrow> (Inl e, s')
                 | (Inr h, s') \<Rightarrow>
                     (Inr (optimise,
                        kw_update ''direction''
                          (KwDirection (if objective_is_min s' then Minimise else Maximise))
                          (kw_update ''objective'' (KwObjective h)
                            (kw_update ''proof'' (KwProof proof) kwargs))), s'))))
      else
        (case assumptions of
           Some as \<Rightarrow>
             (if proof \<noteq> None then (Inl AssertionError, s)
              else
                (case mapM to_predicate as s of
                   (Inl e, s') \<Rightarrow> (Inl e, s')
                 | (Inr pum_assumptions, s') \<Rightarrow>
                     (Inr (satisfy_under_assumptions,
                        kw_update ''assumptions'' (KwAssumptions pum_assumptions) kwargs),
                      s'\<lparr> assump_map := Some (map_of (rev (zip pum_assumptions as))) \<rparr>)))
         | None \<Rightarrow>
             (case proof_subscript proof proof of
                Inl e \<Rightarrow> (Inl e, s)
              | Inr d \<Rightarrow> (Inr (satisfy, fold (\<lambda>(k, v). kw_update k v) d kwargs), s))))"

text \<open>\<^verbatim>\<open>self._pum_core = None\<close> and \<^verbatim>\<open>result = solve_func(**kwargs)\<close>. The engine is a
  function of the calls made so far.\<close>

definition pum_call_solver ::
  "(pum_call list \<Rightarrow> pum_result) \<Rightarrow> solve_func \<times> (string \<times> pum_kw) list
     \<Rightarrow> (pum_state, pum_result) comp" where
  "pum_call_solver engine fk s =
     (let s1 = s\<lparr> pum_core := Some None \<rparr>;
          s2 = s1\<lparr> pum_calls := pum_calls s1 @ [solve_call (fst fk) (snd fk)] \<rparr>
      in (Inr (engine (pum_calls s2)), s2))"

text \<open>"translate solver exit status to CPMpy exit status".\<close>

definition set_exitstatus :: "ExitStatus \<Rightarrow> (pum_state, unit) comp" where
  "set_exitstatus st s = (Inr (), s\<lparr> cpm_status := Some st \<rparr>)"

definition pum_translate_status :: "expr list option \<Rightarrow> pum_result \<Rightarrow> (pum_state, unit) comp" where
  "pum_translate_status assumptions result s =
     (let s0 = s\<lparr> cpm_status := None \<rparr> in
      if pum_has_objective s0 then
        (case result of
           OptimisationResult_Optimal _ \<Rightarrow> set_exitstatus OPTIMAL s0
         | OptimisationResult_Satisfiable _ \<Rightarrow> set_exitstatus FEASIBLE s0
         | OptimisationResult_Unsatisfiable \<Rightarrow> set_exitstatus UNSATISFIABLE s0
         | OptimisationResult_Unknown \<Rightarrow> set_exitstatus UNKNOWN s0
         | _ \<Rightarrow> (Inl ValueError, s0))
      else if assumptions \<noteq> None then
        (case result of
           UnderAssumptions_Satisfiable _ \<Rightarrow> set_exitstatus OPTIMAL s0
         | UnderAssumptions_Unsatisfiable \<Rightarrow> set_exitstatus UNSATISFIABLE s0
         | UnderAssumptions_UnsatisfiableUnderAssumptions core \<Rightarrow>
             set_exitstatus UNSATISFIABLE (s0\<lparr> pum_core := Some (Some core) \<rparr>)
         | UnderAssumptions_Unknown \<Rightarrow> set_exitstatus UNKNOWN s0
         | _ \<Rightarrow> (Inl ValueError, s0))
      else
        (case result of
           SatisfactionResult_Satisfiable _ \<Rightarrow> set_exitstatus OPTIMAL s0
         | SatisfactionResult_Unsatisfiable \<Rightarrow> set_exitstatus UNSATISFIABLE s0
         | SatisfactionResult_Unknown \<Rightarrow> set_exitstatus UNKNOWN s0
         | _ \<Rightarrow> (Inl ValueError, s0)))"

text \<open>\<^verbatim>\<open>result._0\<close>, where the result carries a solution.\<close>

fun solution_of :: "pum_result \<Rightarrow> pum_solution option" where
  "solution_of (OptimisationResult_Optimal x) = Some x"
| "solution_of (OptimisationResult_Satisfiable x) = Some x"
| "solution_of (SatisfactionResult_Satisfiable x) = Some x"
| "solution_of (UnderAssumptions_Satisfiable x) = Some x"
| "solution_of _ = None"

fun pum_fill_values :: "pum_solution \<Rightarrow> expr list \<Rightarrow> (pum_state, unit) comp" where
  "pum_fill_values solution [] s = (Inr (), s)"
| "pum_fill_values solution (cpm_var # rest) s =
     (case pum_solver_var cpm_var s of
        (Inl e, s') \<Rightarrow> (Inl e, s')
      | (Inr sol_var, s') \<Rightarrow>
          (case sol_var of
             AVar (PumpkinInt i) \<Rightarrow>
               pum_fill_values solution rest
                 (s'\<lparr> var_value := (var_value s')(cpm_var := Some (IntValue (int_value solution i))) \<rparr>)
           | AVar (PumpkinBool b) \<Rightarrow>
               pum_fill_values solution rest
                 (s'\<lparr> var_value := (var_value s')(cpm_var := Some (BoolValue (bool_value solution b))) \<rparr>)
           | _ \<Rightarrow> (Inl NotSupportedError, s')))"

definition pum_translate_objective :: "pum_solution \<Rightarrow> (pum_state, unit) comp" where
  "pum_translate_objective solution s =
     (case objective s of
        None \<Rightarrow> (Inr (), s)
      | Some obj \<Rightarrow>
          (case pum_solver_var obj s of
             (Inl e, s') \<Rightarrow> (Inl e, s')
           | (Inr (AVar (PumpkinInt i)), s') \<Rightarrow>
               (Inr (), s'\<lparr> objective_value := Some (IntObj (int_value solution i)) \<rparr>)
           | (Inr _, s') \<Rightarrow> (Inl TypeError, s')))"

definition pum_translate_solution :: "bool \<Rightarrow> pum_result \<Rightarrow> (pum_state, unit) comp" where
  "pum_translate_solution has_sol result s =
     (if has_sol then
        (case solution_of result of
           None \<Rightarrow> (Inl AttributeError, s)
         | Some solution \<Rightarrow>
             (let s0 = s\<lparr> cpm_status := Some OPTIMAL \<rparr> in
              case pum_fill_values solution (user_vars s0) s0 of
                (Inl e, s') \<Rightarrow> (Inl e, s')
              | (Inr _, s') \<Rightarrow> pum_translate_objective solution s'))
      else (Inr (), s\<lparr> var_value := clear_values (user_vars s) (var_value s) \<rparr>))"

text \<open>\<^verbatim>\<open>CPM_pumpkin.solve\<close>. The body never reads \<^verbatim>\<open>time_limit\<close>.\<close>

definition pum_solve ::
  "(pum_call list \<Rightarrow> pum_result) \<Rightarrow> rat option \<Rightarrow> string option \<Rightarrow> expr list option
     \<Rightarrow> (string \<times> pum_kw) list \<Rightarrow> (pum_state, bool) comp" where
  "pum_solve engine time_limit proof assumptions kwargs =
     bnd (\<lambda>s. solver_vars pum_solver_var (ListE (user_vars s)) s) (\<lambda>_.
     bnd (\<lambda>s. (Inr (), (if proof \<noteq> None then s\<lparr> prefix := proof \<rparr> else s))) (\<lambda>_.
     bnd (pum_choose proof assumptions kwargs) (\<lambda>fk.
     bnd (pum_call_solver engine fk) (\<lambda>result.
     bnd (pum_translate_status assumptions result) (\<lambda>_.
     bnd (\<lambda>s. (Inr (solve_return (cpm_status s)), s)) (\<lambda>has_sol.
     bnd (pum_translate_solution has_sol result) (\<lambda>_.
     ret has_sol)))))))"

text \<open>\<^verbatim>\<open>CPM_pumpkin.get_core\<close>. Reading an attribute that no solve has created raises
  \<^verbatim>\<open>AttributeError\<close>.\<close>

definition pum_get_core :: "(pum_state, expr list) comp" where
  "pum_get_core s =
     (case pum_core s of
        None \<Rightarrow> (Inl AttributeError, s)
      | Some None \<Rightarrow> (Inl AssertionError, s)
      | Some (Some core) \<Rightarrow>
          (case assump_map s of
             None \<Rightarrow> (Inl AttributeError, s)
           | Some m \<Rightarrow>
               (case lookup_all m core of
                  Inl e \<Rightarrow> (Inl e, s)
                | Inr vs \<Rightarrow> (Inr vs, s))))"

section \<open>Properties of states\<close>

text \<open>A variable that is not a view: the keys of the variable cache.\<close>

fun plain_var :: "expr \<Rightarrow> bool" where
  "plain_var (BoolVarImpl _) = True"
| "plain_var (IntVarImpl _ _ _) = True"
| "plain_var _ = False"

text \<open>An object that can be hashed and is neither a numeric constant nor a variable of
  a known kind.\<close>

definition unknown_kind :: "expr \<Rightarrow> bool" where
  "unknown_kind v = (\<not> is_num v \<and> \<not> is_IntVarImpl v \<and> hashable v)"

text \<open>The invariant of the variable cache: its keys are plain variables (true of a new
  adapter, kept by \<^verbatim>\<open>solver_var\<close>); for Pumpkin, a Boolean variable is moreover
  cached with a \<^verbatim>\<open>BoolExpression\<close>.\<close>

definition wf_varmap :: "('h, 'z) solver_interface_scheme \<Rightarrow> bool" where
  "wf_varmap s = (\<forall>v h. varmap s v = Some h \<longrightarrow> plain_var v)"

definition pum_wf :: "pum_state \<Rightarrow> bool" where
  "pum_wf s = (wf_varmap s \<and> (\<forall>n h. varmap s (BoolVarImpl n) = Some h \<longrightarrow> (\<exists>b. h = PumpkinBool b)))"

text \<open>The native call that creates the handle of a plain variable, and the handle.\<close>

fun ort_new_call :: "expr \<Rightarrow> ort_call" where
  "ort_new_call (IntVarImpl lb ub n) = NewIntVar lb ub n"
| "ort_new_call v = NewBoolVar (str v)"

fun pum_new_call :: "expr \<Rightarrow> pum_call" where
  "pum_new_call (IntVarImpl lb ub n) = new_integer_variable lb ub n"
| "pum_new_call v = new_boolean_variable (str v)"

fun pum_new_handle :: "expr \<Rightarrow> nat \<Rightarrow> pum_handle" where
  "pum_new_handle (IntVarImpl lb ub n) k = PumpkinInt (IntVariable k)"
| "pum_new_handle v k = PumpkinBool (BoolVariable k)"

text \<open>The native calls that create a variable, and the calls of the native solve.\<close>

fun is_new_var_call :: "ort_call \<Rightarrow> bool" where
  "is_new_var_call (NewBoolVar _) = True"
| "is_new_var_call (NewIntVar _ _ _) = True"
| "is_new_var_call _ = False"

fun is_Solve :: "ort_call \<Rightarrow> bool" where
  "is_Solve (Solve _) = True"
| "is_Solve _ = False"

fun is_solve_call :: "pum_call \<Rightarrow> bool" where
  "is_solve_call (solve_call _ _) = True"
| "is_solve_call _ = False"


text \<open>What a run of \<^verbatim>\<open>solver_var\<close> (or of several) may change in an OR-Tools adapter:
  it appends calls that create variables and extends the cache, nothing else.\<close>

definition ort_vstep :: "ort_state \<Rightarrow> ort_state \<Rightarrow> bool" where
  "ort_vstep s s' =
     (\<exists>m cs k. s' = s\<lparr> varmap := m, ort_calls := ort_calls s @ cs, num_vars := k \<rparr>
        \<and> list_all is_new_var_call cs
        \<and> (\<forall>v h. varmap s v = Some h \<longrightarrow> m v = Some h))"

text \<open>The handle \<^verbatim>\<open>solver_var\<close> gives for an object when nothing has to be created.\<close>

fun ort_handle :: "ort_state \<Rightarrow> expr \<Rightarrow> ort_var arg option" where
  "ort_handle s (Num n) = Some (ANum n)"
| "ort_handle s (BoolVal b) = Some (ABoolVal b)"
| "ort_handle s (NegBoolView n) = map_option (\<lambda>h. AVar (ort_Not h)) (varmap s (bv n))"
| "ort_handle s v = map_option AVar (varmap s v)"

text \<open>The value stored for a variable from the native value: a Boolean variable gets a
  Boolean.\<close>

definition coerce :: "expr \<Rightarrow> int \<Rightarrow> val" where
  "coerce cpm_var v = (if is_BoolVarImpl cpm_var then BoolValue (v \<noteq> 0) else IntValue v)"

text \<open>The same for a Pumpkin adapter, where \<^verbatim>\<open>_ivars\<close> also draws fresh variables for
  constants and so moves the counters of the environment.\<close>

definition pum_vstep :: "pum_state \<Rightarrow> pum_state \<Rightarrow> bool" where
  "pum_vstep s s' =
     (\<exists>m cs k e. s' = s\<lparr> varmap := m, env := e, pum_calls := pum_calls s @ cs, pum_num_vars := k \<rparr>
        \<and> list_all (\<lambda>c. \<not> is_solve_call c) cs
        \<and> (\<forall>v h. varmap s v = Some h \<longrightarrow> m v = Some h))"

fun pum_handle_of :: "pum_state \<Rightarrow> expr \<Rightarrow> pum_handle arg option" where
  "pum_handle_of s (Num n) = Some (ANum n)"
| "pum_handle_of s (BoolVal b) = Some (ABoolVal b)"
| "pum_handle_of s (NegBoolView n) =
     (case varmap s (bv n) of
        Some (PumpkinBool b) \<Rightarrow> Some (AVar (PumpkinBool (Negated b)))
      | _ \<Rightarrow> None)"
| "pum_handle_of s v = map_option AVar (varmap s v)"

text \<open>The value read from a Pumpkin solution for a handle: \<^verbatim>\<open>int_value\<close> of an integer
  expression, \<^verbatim>\<open>bool_value\<close>, a Boolean, of a Boolean expression.\<close>

fun pum_value :: "pum_solution \<Rightarrow> pum_handle arg \<Rightarrow> val option" where
  "pum_value solution (AVar (PumpkinInt i)) = Some (IntValue (int_value solution i))"
| "pum_value solution (AVar (PumpkinBool b)) = Some (BoolValue (bool_value solution b))"
| "pum_value solution _ = None"

text \<open>The number the solution callback has counted once the engine has reported the
  solutions \<open>xs\<close> to it, starting from \<open>k\<close>: every reported solution is counted, and the
  callback stops the search when the count equals the limit.\<close>

fun count_callbacks :: "int option \<Rightarrow> nat \<Rightarrow> 'a list \<Rightarrow> nat" where
  "count_callbacks limit k [] = k"
| "count_callbacks limit k (x # xs) =
     (if Some (int (k + 1)) = limit then k + 1 else count_callbacks limit (k + 1) xs)"

section \<open>The transformation pipelines\<close>

text \<open>
  Modelled from the spec: the functions of \<^verbatim>\<open>cpmpy/transformations\<close> and of
  \<^verbatim>\<open>cpmpy/expressions\<close> that the adapters call are not among the sources. The spec
  gives each pipeline stage as "a pure function \<^verbatim>\<open>list[Expression] -> list[Expression]\<close>
  taking the CSE map as shared state", which may introduce auxiliary variables. What they
  compute is left open: they are the fields of a \<open>library\<close>, a parameter of every
  function that calls one of them. A transformation is given the pass that names the call,
  whether the adapter hands it \<^verbatim>\<open>csemap=self._csemap\<close>, and its argument (an expression
  or a list of them), and it works on the environment, where it may raise.
  \<^verbatim>\<open>get_bounds\<close> computes the bounds of an expression, \<^verbatim>\<open>get_or_make_var\<close> and
  \<^verbatim>\<open>flatten_objective\<close> return an expression with the constraints that define its
  auxiliary variables.
\<close>

record library =
  transformation :: "pass \<Rightarrow> bool \<Rightarrow> expr \<Rightarrow> (tenv, expr list) comp"
  get_bounds :: "expr \<Rightarrow> error + int \<times> int"
  get_or_make_var :: "expr \<Rightarrow> (tenv, expr \<times> expr list) comp"
  flatten_objective :: "expr \<Rightarrow> (tenv, expr \<times> expr list) comp"

text \<open>A call of a library function from an adapter: it works on the environment of the
  adapter and on nothing else; the record of the passes that have run is not its to
  write.\<close>

definition in_env :: "(tenv, 'a) comp \<Rightarrow> (('h, 'z) solver_interface_scheme, 'a) comp" where
  "in_env m s =
     (case m (env s) of (r, e) \<Rightarrow> (r, s\<lparr> env := e\<lparr> passes_run := passes_run (env s) \<rparr> \<rparr>))"

text \<open>A call of a transformation function: the call is recorded, then made.\<close>

definition run_pass ::
  "library \<Rightarrow> pass \<Rightarrow> bool \<Rightarrow> expr \<Rightarrow> (('h, 'z) solver_interface_scheme, expr list) comp" where
  "run_pass L p with_csemap x s =
     in_env (transformation L p with_csemap x)
       (s\<lparr> env := (env s)\<lparr> passes_run := passes_run (env s) @ [p] \<rparr> \<rparr>)"

text \<open>\<^verbatim>\<open>CPM_ortools.transform\<close>.\<close>

definition ort_transform :: "library \<Rightarrow> expr \<Rightarrow> (ort_state, expr list) comp" where
  "ort_transform L cpm_expr =
     bnd (run_pass L (Toplevel_list False) False cpm_expr) (\<lambda>cpm_cons.
     bnd (run_pass L (No_partial_functions [''div'', ''mod'']) False (ListE cpm_cons)) (\<lambda>cpm_cons.
     bnd (run_pass L (Decompose_in_tree [''min'', ''max'', ''abs'', ''element'', ''alldifferent'',
            ''xor'', ''table'', ''negative_table'', ''cumulative'', ''circuit'', ''inverse'',
            ''no_overlap'', ''regular'']) True (ListE cpm_cons)) (\<lambda>cpm_cons.
     bnd (run_pass L Flatten_constraint True (ListE cpm_cons)) (\<lambda>cpm_cons.
     bnd (run_pass L (Reify_rewrite [''sum'', ''wsum'']) True (ListE cpm_cons)) (\<lambda>cpm_cons.
     bnd (run_pass L (Only_numexpr_equality [''sum'', ''wsum'', ''sub'']) True (ListE cpm_cons))
       (\<lambda>cpm_cons.
     bnd (run_pass L Only_bv_reifies True (ListE cpm_cons)) (\<lambda>cpm_cons.
     bnd (run_pass L Only_implies True (ListE cpm_cons)) (\<lambda>cpm_cons.
     ret cpm_cons))))))))"

text \<open>\<^verbatim>\<open>CPM_pumpkin.transform\<close>, which hands no \<^verbatim>\<open>csemap\<close> to the transformations.
  The source comments the second and third call: "safening after decompose here, need to
  safen toplevel elements too which come from decomposition of other global
  constraints".\<close>

definition pum_transform :: "library \<Rightarrow> expr \<Rightarrow> (pum_state, expr list) comp" where
  "pum_transform L cpm_expr =
     bnd (run_pass L (Toplevel_list False) False cpm_expr) (\<lambda>cpm_cons.
     bnd (run_pass L (Decompose_in_tree [''alldifferent'', ''cumulative'', ''min'', ''max'',
            ''element'']) False (ListE cpm_cons)) (\<lambda>cpm_cons.
     bnd (run_pass L (No_partial_functions [''element'']) False (ListE cpm_cons)) (\<lambda>cpm_cons.
     bnd (run_pass L Flatten_constraint False (ListE cpm_cons)) (\<lambda>cpm_cons.
     bnd (run_pass L Only_bv_reifies False (ListE cpm_cons)) (\<lambda>cpm_cons.
     bnd (run_pass L Only_implies False (ListE cpm_cons)) (\<lambda>cpm_cons.
     bnd (run_pass L (Reify_rewrite [''or'', ''sum'', ''wsum'', ''sub'', ''mul'', ''div'', ''abs'',
            ''min'', ''max'', ''alldifferent'', ''cumulative'']) False (ListE cpm_cons)) (\<lambda>cpm_cons.
     bnd (run_pass L (Only_numexpr_equality [''sum'', ''wsum'', ''sub'']) False (ListE cpm_cons))
       (\<lambda>cpm_cons.
     bnd (run_pass L Canonical_comparison False (ListE cpm_cons)) (\<lambda>cpm_cons.
     ret cpm_cons)))))))))"

text \<open>The passes of the two pipelines, in the order of the calls.\<close>

definition ort_passes :: "pass list" where
  "ort_passes =
     [Toplevel_list False, No_partial_functions [''div'', ''mod''],
      Decompose_in_tree [''min'', ''max'', ''abs'', ''element'', ''alldifferent'',
        ''xor'', ''table'', ''negative_table'', ''cumulative'', ''circuit'', ''inverse'',
        ''no_overlap'', ''regular''],
      Flatten_constraint, Reify_rewrite [''sum'', ''wsum''],
      Only_numexpr_equality [''sum'', ''wsum'', ''sub''], Only_bv_reifies, Only_implies]"

definition pum_passes :: "pass list" where
  "pum_passes =
     [Toplevel_list False,
      Decompose_in_tree [''alldifferent'', ''cumulative'', ''min'', ''max'', ''element''],
      No_partial_functions [''element''], Flatten_constraint, Only_bv_reifies, Only_implies,
      Reify_rewrite [''or'', ''sum'', ''wsum'', ''sub'', ''mul'', ''div'', ''abs'',
        ''min'', ''max'', ''alldifferent'', ''cumulative''],
      Only_numexpr_equality [''sum'', ''wsum'', ''sub''], Canonical_comparison]"

text \<open>The stage of the pipeline of the spec to which a pass belongs: 1 toplevel listing,
  2 partial-function safening, 3 global-constraint decomposition, 4 flattening,
  5 reification rewriting, 6 numeric-equality canonicalization, 7 implication/Boolean
  normalization. (\<^verbatim>\<open>canonical_comparison\<close>, which brings the constants of a comparison
  to its right-hand side, is counted with the numeric canonicalization.)\<close>

fun spec_stage :: "pass \<Rightarrow> nat" where
  "spec_stage (Toplevel_list _) = 1"
| "spec_stage (No_partial_functions _) = 2"
| "spec_stage (Decompose_in_tree _) = 3"
| "spec_stage Flatten_constraint = 4"
| "spec_stage (Reify_rewrite _) = 5"
| "spec_stage (Only_numexpr_equality _) = 6"
| "spec_stage Canonical_comparison = 6"
| "spec_stage Only_bv_reifies = 7"
| "spec_stage Only_implies = 7"

text \<open>The stages of a run are in the order of the spec.\<close>

definition in_spec_order :: "pass list \<Rightarrow> bool" where
  "in_spec_order ps = sorted (map spec_stage ps)"

text \<open>Safening runs before decomposition: among the passes of a run, no decomposition
  comes before the first safening.\<close>

fun safened_first :: "pass list \<Rightarrow> bool" where
  "safened_first [] = True"
| "safened_first (No_partial_functions _ # ps) = True"
| "safened_first (Decompose_in_tree _ # ps) = False"
| "safened_first (_ # ps) = safened_first ps"

text \<open>A library for examples: every transformation returns the list it is given (the
  list of the expression it is given), every expression has the bounds 0 and 1, and
  nothing is flattened.\<close>

definition plain_library :: library where
  "plain_library =
     \<lparr> transformation = (\<lambda>p c x. ret (case x of ListE xs \<Rightarrow> xs | _ \<Rightarrow> [x])),
       get_bounds = (\<lambda>x. Inr (0, 1)),
       get_or_make_var = (\<lambda>x. ret (x, [])),
       flatten_objective = (\<lambda>x. ret (x, [])) \<rparr>"

text \<open>A library for examples in which \<^verbatim>\<open>get_or_make_var\<close> and
  \<^verbatim>\<open>flatten_objective\<close> introduce an auxiliary variable: each returns a new integer
  variable and the constraint that links it to the expression given.\<close>

definition fresh_var :: "expr \<Rightarrow> (tenv, expr \<times> expr list) comp" where
  "fresh_var x e =
     (Inr (IntVarImpl 0 1 (''IV'' @ string_of_nat (iv_counter e)),
           [Comparison ''=='' x (IntVarImpl 0 1 (''IV'' @ string_of_nat (iv_counter e)))]),
      e\<lparr> iv_counter := Suc (iv_counter e) \<rparr>)"

definition aux_library :: library where
  "aux_library = plain_library\<lparr> get_or_make_var := fresh_var, flatten_objective := fresh_var \<rparr>"

section \<open>The Pumpkin adapter: posting\<close>

text \<open>
  Modelled from the spec: the attributes \<^verbatim>\<open>name\<close> and \<^verbatim>\<open>args\<close> and the method
  \<^verbatim>\<open>is_bool\<close> of an expression, of the absent \<^verbatim>\<open>cpmpy/expressions\<close>. An
  \<^verbatim>\<open>Expression\<close> is a variable, a Boolean constant, an operator, a comparison or a
  (global or direct) constraint; a number, a list and a foreign object are none, and
  reading an attribute of one raises \<^verbatim>\<open>AttributeError\<close>. A variable is a leaf node and
  has no \<^verbatim>\<open>args\<close>. The Boolean operators are \<^verbatim>\<open>and\<close>, \<^verbatim>\<open>or\<close>, \<^verbatim>\<open>->\<close> and
  \<^verbatim>\<open>not\<close>.
\<close>

fun is_Expression :: "expr \<Rightarrow> bool" where
  "is_Expression (Num _) = False"
| "is_Expression (ListE _) = False"
| "is_Expression (OtherObj _) = False"
| "is_Expression _ = True"

fun is_Operator :: "expr \<Rightarrow> bool" where
  "is_Operator (Operator _ _) = True"
| "is_Operator _ = False"

fun name_of :: "expr \<Rightarrow> error + string" where
  "name_of (BoolVarImpl n) = Inr n"
| "name_of (IntVarImpl _ _ n) = Inr n"
| "name_of (NegBoolView n) = Inr (''~'' @ n)"
| "name_of (BoolVal _) = Inr ''boolval''"
| "name_of (Operator n _) = Inr n"
| "name_of (Comparison n _ _) = Inr n"
| "name_of (GlobalConstraint n _) = Inr n"
| "name_of (DirectConstraint n _) = Inr n"
| "name_of _ = Inl AttributeError"

fun args_of :: "expr \<Rightarrow> error + expr list" where
  "args_of (Operator _ args) = Inr args"
| "args_of (Comparison _ l r) = Inr [l, r]"
| "args_of (GlobalConstraint _ args) = Inr args"
| "args_of (DirectConstraint _ args) = Inr args"
| "args_of (BoolVal b) = Inr [Num (if b then 1 else 0)]"
| "args_of _ = Inl AttributeError"

fun is_bool :: "expr \<Rightarrow> error + bool" where
  "is_bool (BoolVarImpl _) = Inr True"
| "is_bool (NegBoolView _) = Inr True"
| "is_bool (IntVarImpl _ _ _) = Inr False"
| "is_bool (BoolVal _) = Inr True"
| "is_bool (Operator n _) = Inr (n \<in> set [''and'', ''or'', ''->'', ''not''])"
| "is_bool (Comparison _ _ _) = Inr True"
| "is_bool (GlobalConstraint _ _) = Inr True"
| "is_bool (DirectConstraint _ _) = Inr True"
| "is_bool _ = Inl AttributeError"

text \<open>Python's \<^verbatim>\<open>p in s\<close> on strings: \<open>p\<close> occurs in \<open>s\<close>.\<close>

fun is_prefix_of :: "string \<Rightarrow> string \<Rightarrow> bool" where
  "is_prefix_of [] s = True"
| "is_prefix_of (c # p) [] = False"
| "is_prefix_of (c # p) (d # s) = (c = d \<and> is_prefix_of p s)"

fun str_in :: "string \<Rightarrow> string \<Rightarrow> bool" where
  "str_in p [] = (p = [])"
| "str_in p (c # s) = (is_prefix_of p (c # s) \<or> str_in p s)"

text \<open>A value that was computed without the adapter, or the exception it raised.\<close>

definition lift_sum :: "error + 'a \<Rightarrow> ('s, 'a) comp" where
  "lift_sum r s = (r, s)"

fun map_err :: "('a \<Rightarrow> error + 'b) \<Rightarrow> 'a list \<Rightarrow> error + 'b list" where
  "map_err f [] = Inr []"
| "map_err f (x # xs) =
     (case f x of
        Inl e \<Rightarrow> Inl e
      | Inr y \<Rightarrow> (case map_err f xs of Inl e \<Rightarrow> Inl e | Inr ys \<Rightarrow> Inr (y # ys)))"

text \<open>
  The constructors of the native constraints take integers, integer expressions, Boolean
  expressions and lists of these, and raise \<^verbatim>\<open>TypeError\<close> for anything else. An integer
  expression has the method \<^verbatim>\<open>scaled\<close>, which takes an integer; a Boolean expression has
  no such method.
\<close>

fun as_bool :: "pum_handle arg \<Rightarrow> error + pum_bool" where
  "as_bool (AVar (PumpkinBool b)) = Inr b"
| "as_bool _ = Inl TypeError"

fun as_int :: "pum_handle arg \<Rightarrow> error + pum_int" where
  "as_int (AVar (PumpkinInt i)) = Inr i"
| "as_int _ = Inl TypeError"

fun as_list :: "'h arg \<Rightarrow> error + 'h arg list" where
  "as_list (AList xs) = Inr xs"
| "as_list _ = Inl TypeError"

fun as_const :: "expr \<Rightarrow> error + int" where
  "as_const (Num c) = Inr c"
| "as_const _ = Inl TypeError"

fun scaled :: "pum_handle arg \<Rightarrow> int option \<Rightarrow> error + pum_int" where
  "scaled (AVar (PumpkinInt i)) (Some k) = Inr (Scaled i k)"
| "scaled (AVar (PumpkinInt i)) None = Inl TypeError"
| "scaled _ _ = Inl AttributeError"

definition pum_native :: "pum_call \<Rightarrow> (pum_state, unit) comp" where
  "pum_native c s = (Inr (), s\<lparr> pum_calls := pum_calls s @ [c] \<rparr>)"

text \<open>\<^verbatim>\<open>CPM_pumpkin._sum_args\<close>. The body of the loops of its first two branches: the
  handle of the variable, seen as an integer if the variable is Boolean, scaled by the
  weight (\<open>None\<close> for a weight that is not a number).\<close>

definition sum_arg :: "expr \<Rightarrow> int option \<Rightarrow> (pum_state, pum_int) comp" where
  "sum_arg cpm_var w =
     bnd (pum_solver_var cpm_var) (\<lambda>pum_var.
     bnd (lift_sum (is_bool cpm_var)) (\<lambda>b.
     bnd (if b then lift_sum (boolean_as_integer pum_var) else ret pum_var) (\<lambda>pum_var.
     lift_sum (scaled pum_var w))))"

text \<open>\<^verbatim>\<open>zip(*expr.args)\<close> with the unpacking of \<^verbatim>\<open>for w, cpm_var in\<close>: an argument
  that is not a list cannot be iterated (\<^verbatim>\<open>TypeError\<close>); with other than two lists the
  first tuple, if there is one, cannot be unpacked (\<^verbatim>\<open>ValueError\<close>).\<close>

fun is_ListE :: "expr \<Rightarrow> bool" where
  "is_ListE (ListE _) = True"
| "is_ListE _ = False"

definition wsum_pairs :: "expr list \<Rightarrow> error + (expr \<times> expr) list" where
  "wsum_pairs args =
     (if list_ex (\<lambda>a. \<not> is_ListE a) args then Inl TypeError
      else case args of
        [ListE ws, ListE xs] \<Rightarrow> Inr (zip ws xs)
      | _ \<Rightarrow> if args = [] \<or> list_ex (\<lambda>a. a = ListE []) args then Inr [] else Inl ValueError)"

text \<open>The loop of the \<^verbatim>\<open>wsum\<close> branch. A weight that is not an integer is taken to
  differ from 0; \<^verbatim>\<open>scaled\<close> refuses it.\<close>

fun wsum_args :: "bool \<Rightarrow> (expr \<times> expr) list \<Rightarrow> (pum_state, pum_int list) comp" where
  "wsum_args negate [] = ret []"
| "wsum_args negate ((w, cpm_var) # rest) =
     (if w = Num 0 then wsum_args negate rest
      else
        bnd (sum_arg cpm_var (case w of Num c \<Rightarrow> Some (if negate then - c else c) | _ \<Rightarrow> None))
          (\<lambda>a.
        bnd (wsum_args negate rest) (\<lambda>as. ret (a # as))))"

text \<open>The test \<^verbatim>\<open>isinstance(Operator, expr)\<close> of the third branch has its arguments
  the wrong way round: its second argument is the object \<^verbatim>\<open>expr\<close>, not a class, and
  Python raises \<^verbatim>\<open>TypeError\<close> ("isinstance() arg 2 must be a type, a tuple of types, or a
  union") whatever the object is.\<close>

definition Operator_isinstance_of :: "expr \<Rightarrow> error + bool" where
  "Operator_isinstance_of expr = Inl TypeError"

text \<open>The third and the last branch, which are reached when \<^verbatim>\<open>expr\<close> is neither a
  \<^verbatim>\<open>sum\<close> nor a \<^verbatim>\<open>wsum\<close>.\<close>

definition sum_args_sub :: "expr \<Rightarrow> bool \<Rightarrow> (pum_state, pum_int list) comp" where
  "sum_args_sub expr negate =
     bnd (lift_sum (Operator_isinstance_of expr)) (\<lambda>inst.
     bnd (if inst then lift_sum (name_of expr) else ret []) (\<lambda>name.
       if inst \<and> name = ''sub'' then
         bnd (lift_sum (args_of expr)) (\<lambda>args.
         bnd (solver_vars pum_solver_var (ListE args)) (\<lambda>r.
           case (args, r) of
             ([a0, a1], AList [x, y]) \<Rightarrow>
               bnd (lift_sum (is_bool a0)) (\<lambda>b0.
               bnd (if b0 then lift_sum (boolean_as_integer x) else ret x) (\<lambda>x.
               bnd (lift_sum (is_bool a1)) (\<lambda>b1.
               bnd (if b1 then lift_sum (boolean_as_integer y) else ret y) (\<lambda>y.
               bnd (lift_sum (scaled x (Some (if negate then - 1 else 1)))) (\<lambda>sx.
               bnd (lift_sum (scaled y (Some (if negate then 1 else - 1)))) (\<lambda>sy.
               ret [sx, sy]))))))
           | _ \<Rightarrow> raise ValueError))
       else raise ValueError))"

definition sum_args :: "expr \<Rightarrow> bool \<Rightarrow> (pum_state, pum_int list) comp" where
  "sum_args expr negate =
     (case expr of
        Operator name args \<Rightarrow>
          if name = ''sum'' then
            mapM (\<lambda>cpm_var. sum_arg cpm_var (Some (if negate then - 1 else 1))) args
          else if name = ''wsum'' then
            bnd (lift_sum (wsum_pairs args)) (wsum_args negate)
          else sum_args_sub expr negate
      | _ \<Rightarrow> sum_args_sub expr negate)"

text \<open>\<^verbatim>\<open>CPM_pumpkin._get_constraint\<close>, case by case. First the case of an equality
  whose left-hand side is neither a sum nor a \<^verbatim>\<open>sub\<close>; \<^verbatim>\<open>pum_rhs\<close> is
  \<^verbatim>\<open>self._ivars(rhs)\<close>. The case of \<^verbatim>\<open>abs\<close> asks \<^verbatim>\<open>solver_var\<close> for the handle of
  \<^verbatim>\<open>lhs\<close>, the whole left-hand side.\<close>

definition equality_constraint ::
  "expr \<Rightarrow> string \<Rightarrow> pum_handle arg \<Rightarrow> (pum_state, pum_constraint list) comp" where
  "equality_constraint lhs lhs_name pum_rhs =
     (if lhs_name = ''div'' then
        bnd (lift_sum (args_of lhs)) (\<lambda>args.
        bnd (ivars_list args) (\<lambda>xs.
        bnd (lift_sum (map_err as_int xs)) (\<lambda>is.
        bnd (lift_sum (as_int pum_rhs)) (\<lambda>r.
          case is of [x, y] \<Rightarrow> ret [Division x y r] | _ \<Rightarrow> raise TypeError))))
      else if lhs_name = ''mul'' then
        bnd (lift_sum (args_of lhs)) (\<lambda>args.
        bnd (ivars_list args) (\<lambda>xs.
        bnd (lift_sum (map_err as_int xs)) (\<lambda>is.
        bnd (lift_sum (as_int pum_rhs)) (\<lambda>r.
          case is of [x, y] \<Rightarrow> ret [Times x y r] | _ \<Rightarrow> raise TypeError))))
      else if lhs_name = ''abs'' then
        bnd (pum_solver_var lhs) (\<lambda>x.
        bnd (lift_sum (as_int x)) (\<lambda>x.
        bnd (lift_sum (as_int pum_rhs)) (\<lambda>r.
        ret [Absolute x r])))
      else if lhs_name = ''min'' then
        bnd (lift_sum (args_of lhs)) (\<lambda>args.
        bnd (ivars_list args) (\<lambda>xs.
        bnd (lift_sum (map_err as_int xs)) (\<lambda>is.
        bnd (lift_sum (as_int pum_rhs)) (\<lambda>r.
        ret [Minimum is r]))))
      else if lhs_name = ''max'' then
        bnd (lift_sum (args_of lhs)) (\<lambda>args.
        bnd (ivars_list args) (\<lambda>xs.
        bnd (lift_sum (map_err as_int xs)) (\<lambda>is.
        bnd (lift_sum (as_int pum_rhs)) (\<lambda>r.
        ret [Maximum is r]))))
      else if lhs_name = ''element'' then
        bnd (lift_sum (args_of lhs)) (\<lambda>args.
          case args of
            [arr, idx] \<Rightarrow>
              bnd (ivars idx) (\<lambda>pum_idx.
              bnd (ivars arr) (\<lambda>pum_arr.
              bnd (lift_sum (as_int pum_idx)) (\<lambda>i.
              bnd (lift_sum (as_list pum_arr)) (\<lambda>xs.
              bnd (lift_sum (map_err as_int xs)) (\<lambda>is.
              bnd (lift_sum (as_int pum_rhs)) (\<lambda>r.
              ret [Element i is r]))))))
          | _ \<Rightarrow> raise ValueError)
      else raise NotImplementedError)"

text \<open>The case of a comparison.\<close>

fun is_unary_sum :: "expr \<Rightarrow> bool" where
  "is_unary_sum (Operator name args) = (name = ''sum'' \<and> length args = 1)"
| "is_unary_sum _ = False"

definition linear_constraint ::
  "(pum_int list \<Rightarrow> int \<Rightarrow> pum_constraint) \<Rightarrow> expr \<Rightarrow> bool \<Rightarrow> expr \<Rightarrow> (int \<Rightarrow> int)
     \<Rightarrow> (pum_state, pum_constraint list) comp" where
  "linear_constraint constructor lhs negate rhs f =
     bnd (sum_args lhs negate) (\<lambda>args.
     bnd (lift_sum (as_const rhs)) (\<lambda>r.
     ret [constructor args (f r)]))"

definition comparison_constraint ::
  "string \<Rightarrow> expr \<Rightarrow> expr \<Rightarrow> (pum_state, pum_constraint list) comp" where
  "comparison_constraint name lhs rhs =
     (if \<not> is_Expression lhs then raise AssertionError
      else if is_unary_sum lhs then
        bnd (to_predicate (Comparison name lhs rhs)) (\<lambda>p.
        ret [Clause [PredicateAsBoolean p]])
      else
        bnd (lift_sum (name_of lhs)) (\<lambda>lhs_name.
          if name = ''=='' then
            (if str_in ''sum'' lhs_name \<or> lhs_name = ''sub'' then
               linear_constraint Equals lhs False rhs (\<lambda>r. r)
             else bnd (ivars rhs) (equality_constraint lhs lhs_name))
          else if name = ''<='' then linear_constraint LessThanOrEquals lhs False rhs (\<lambda>r. r)
          else if name = ''<'' then linear_constraint LessThanOrEquals lhs False rhs (\<lambda>r. r - 1)
          else if name = ''>='' then linear_constraint LessThanOrEquals lhs True rhs (\<lambda>r. - r)
          else if name = ''>'' then linear_constraint LessThanOrEquals lhs True rhs (\<lambda>r. - r - 1)
          else if name = ''!='' then linear_constraint NotEquals lhs False rhs (\<lambda>r. r)
          else raise ValueError))"

text \<open>The case of a global constraint. The assertions on \<^verbatim>\<open>dur\<close> and \<^verbatim>\<open>demand\<close>,
  \<^verbatim>\<open>all(is_num(d) for d in dur)\<close>: what cannot be iterated raises \<^verbatim>\<open>TypeError\<close>, an
  element that \<^verbatim>\<open>is_num\<close> does not accept fails the assertion. The native
  \<^verbatim>\<open>Cumulative\<close> takes integers and refuses anything else.\<close>

fun nums_of :: "expr \<Rightarrow> error + expr list" where
  "nums_of (ListE ds) = (if list_all is_num ds then Inr ds else Inl AssertionError)"
| "nums_of _ = Inl TypeError"

fun zip3 :: "'a list \<Rightarrow> 'b list \<Rightarrow> 'c list \<Rightarrow> ('a \<times> 'b \<times> 'c) list" where
  "zip3 (a # as) (b # bs) (c # cs) = (a, b, c) # zip3 as bs cs"
| "zip3 _ _ _ = []"

text \<open>
  Modelled from the spec: the expression \<^verbatim>\<open>s + d == e\<close>, built by the overloaded
  operators of the absent \<^verbatim>\<open>cpmpy/expressions\<close>: a comparison named \<^verbatim>\<open>==\<close> whose
  left-hand side is the operator \<^verbatim>\<open>sum\<close>. An object that is no \<^verbatim>\<open>Expression\<close> leaves
  the comparison to the other side.
\<close>

definition eq_expr :: "expr \<Rightarrow> expr \<Rightarrow> expr" where
  "eq_expr a b = (if is_Expression a then Comparison ''=='' a b else Comparison ''=='' b a)"

definition end_equations :: "expr \<Rightarrow> expr \<Rightarrow> expr \<Rightarrow> error + expr list" where
  "end_equations start dur ends =
     (case (start, dur, ends) of
        (ListE ss, ListE ds, ListE es) \<Rightarrow>
          Inr (map (\<lambda>(s, d, e). eq_expr (Operator ''sum'' [s, d]) e) (zip3 ss ds es))
      | _ \<Rightarrow> Inl TypeError)"

definition global_constraint ::
  "library \<Rightarrow> (expr \<Rightarrow> (pum_state, pum_constraint list) comp) \<Rightarrow> string \<Rightarrow> expr list
     \<Rightarrow> (pum_state, pum_constraint list) comp" where
  "global_constraint L self_get_constraint name args =
     (if name = ''alldifferent'' then
        bnd (solver_vars pum_solver_var (ListE args)) (\<lambda>vs.
        bnd (lift_sum (as_list vs)) (\<lambda>xs.
        bnd (lift_sum (map_err as_int xs)) (\<lambda>is.
        ret [AllDifferent is])))
      else if name = ''cumulative'' then
        (case args of
           [start, dur, ends, demand, cap] \<Rightarrow>
             bnd (lift_sum (nums_of dur)) (\<lambda>durs.
             bnd (lift_sum (nums_of demand)) (\<lambda>demands.
             bnd (lift_sum (if is_num cap then Inr () else Inl AssertionError)) (\<lambda>_.
             bnd (solver_vars pum_solver_var start) (\<lambda>vs.
             bnd (lift_sum (as_list vs)) (\<lambda>xs.
             bnd (lift_sum (map_err as_int xs)) (\<lambda>is.
             bnd (lift_sum (map_err as_const durs)) (\<lambda>durs.
             bnd (lift_sum (map_err as_const demands)) (\<lambda>demands.
             bnd (lift_sum (as_const cap)) (\<lambda>c.
             bnd (lift_sum (end_equations start dur ends)) (\<lambda>eqs.
             bnd (pum_transform L (ListE eqs)) (\<lambda>cons.
             bnd (mapM (\<lambda>c. bnd (self_get_constraint c) (\<lambda>cs.
                    case cs of [] \<Rightarrow> raise IndexError | c0 # _ \<Rightarrow> ret c0)) cons) (\<lambda>rest.
             ret (Cumulative is durs demands c # rest)))))))))))))
         | _ \<Rightarrow> raise ValueError)
      else raise NotImplementedError)"

text \<open>One activation of \<^verbatim>\<open>_get_constraint\<close>; \<open>self_get_constraint\<close> is the method it
  calls for the constraints that tie the ends of the tasks of a \<^verbatim>\<open>cumulative\<close>.\<close>

definition get_constraint_body ::
  "library \<Rightarrow> (expr \<Rightarrow> (pum_state, pum_constraint list) comp) \<Rightarrow> expr
     \<Rightarrow> (pum_state, pum_constraint list) comp" where
  "get_constraint_body L self_get_constraint cpm_expr =
     (if is_BoolVarImpl cpm_expr then
        bnd (pum_solver_var cpm_expr) (\<lambda>v.
        bnd (lift_sum (as_bool v)) (\<lambda>b.
        ret [Clause [b]]))
      else
        (case cpm_expr of
           Operator name args \<Rightarrow>
             if name = ''or'' then
               bnd (solver_vars pum_solver_var (ListE args)) (\<lambda>vs.
               bnd (lift_sum (as_list vs)) (\<lambda>xs.
               bnd (lift_sum (map_err as_bool xs)) (\<lambda>bs.
               ret [Clause bs])))
             else raise NotImplementedError
         | Comparison name lhs rhs \<Rightarrow> comparison_constraint name lhs rhs
         | GlobalConstraint name args \<Rightarrow> global_constraint L self_get_constraint name args
         | BoolVal b \<Rightarrow>
             if b then
               bnd boolvar (\<lambda>v.
               bnd (pum_solver_var v) (\<lambda>a.
               bnd (lift_sum (as_bool a)) (\<lambda>b.
               ret [Clause [b]])))
             else ret [Clause []]
         | _ \<Rightarrow> raise ValueError))"

text \<open>\<^verbatim>\<open>_get_constraint\<close> calls itself through \<^verbatim>\<open>transform\<close>, whose result the
  sources do not bound: \<open>depth\<close> is the number of activations the Python stack still has
  room for, and the activation that finds none raises \<^verbatim>\<open>RecursionError\<close>.\<close>

fun get_constraint :: "nat \<Rightarrow> library \<Rightarrow> expr \<Rightarrow> (pum_state, pum_constraint list) comp" where
  "get_constraint 0 L cpm_expr = raise RecursionError"
| "get_constraint (Suc depth) L cpm_expr =
     get_constraint_body L (get_constraint depth L) cpm_expr"

text \<open>\<^verbatim>\<open>CPM_pumpkin.__add__\<close>. The tag of a constraint is always \<^verbatim>\<open>None\<close>: the
  assignment \<^verbatim>\<open>tag = constraint_tag\<close> is followed by \<^verbatim>\<open>tag = None\<close>. The test
  \<^verbatim>\<open>orig_expr in set(self.user_cons.values())\<close> hashes \<^verbatim>\<open>orig_expr\<close>.\<close>

definition post_transformed :: "nat \<Rightarrow> library \<Rightarrow> expr \<Rightarrow> (pum_state, unit) comp" where
  "post_transformed depth L cpm_expr =
     (case cpm_expr of
        Operator name args \<Rightarrow>
          if name = ''->'' then
            (case args of
               [bvar, subexpr] \<Rightarrow>
                 bnd (get_constraint depth L subexpr) (\<lambda>conss.
                 bnd (mapM (\<lambda>cons.
                        bnd (pum_solver_var bvar) (\<lambda>h.
                        bnd (lift_sum (as_bool h)) (\<lambda>b.
                        pum_native (add_implication cons b None)))) conss) (\<lambda>_.
                 ret ()))
             | _ \<Rightarrow> raise ValueError)
          else
            bnd (get_constraint depth L cpm_expr) (\<lambda>solver_constraints.
            bnd (mapM (\<lambda>cons. pum_native (add_constraint cons None)) solver_constraints) (\<lambda>_.
            ret ()))
      | _ \<Rightarrow>
          bnd (get_constraint depth L cpm_expr) (\<lambda>solver_constraints.
          bnd (mapM (\<lambda>cons. pum_native (add_constraint cons None)) solver_constraints) (\<lambda>_.
          ret ())))"

fun add_loop :: "nat \<Rightarrow> library \<Rightarrow> expr list \<Rightarrow> (pum_state, unit) comp" where
  "add_loop depth L [] s = (Inr (), s)"
| "add_loop depth L (orig_expr # rest) s =
     (if \<not> hashable orig_expr then (Inl TypeError, s)
      else if orig_expr \<in> snd ` set (user_cons s) then add_loop depth L rest s
      else
        bnd (pum_transform L orig_expr) (\<lambda>cons.
        bnd (mapM (post_transformed depth L) cons) (\<lambda>_.
        add_loop depth L rest))
          (s\<lparr> user_cons := user_cons s @ [(length (user_cons s) + 1, orig_expr)] \<rparr>))"

definition pum_add :: "nat \<Rightarrow> library \<Rightarrow> expr \<Rightarrow> (pum_state, unit) comp" where
  "pum_add depth L cpm_expr_orig s =
     bnd (run_pass L (Toplevel_list True) False cpm_expr_orig) (add_loop depth L)
       (s\<lparr> user_vars := collect (get_variables cpm_expr_orig) (user_vars s) \<rparr>)"

text \<open>\<^verbatim>\<open>CPM_pumpkin.objective\<close>.\<close>

definition pum_objective :: "nat \<Rightarrow> library \<Rightarrow> expr \<Rightarrow> bool \<Rightarrow> (pum_state, unit) comp" where
  "pum_objective depth L expr minimize =
     bnd (lift_sum (get_bounds L expr)) (\<lambda>(lb, ub).
     bnd (intvar lb ub) (\<lambda>obj_var.
     bnd (pum_add depth L (eq_expr expr obj_var)) (\<lambda>_.
     (\<lambda>s. (Inr (), s\<lparr> objective := Some obj_var, objective_is_min := minimize \<rparr>)))))"

section \<open>Properties of posting\<close>

text \<open>A computation of the Pumpkin adapter that creates variables and posts constraints,
  and does nothing else: it extends the variable cache, appends native calls other than
  solves, may move the environment, and keeps the invariant of the cache.\<close>

definition pum_keeps :: "(pum_state, 'a) comp \<Rightarrow> bool" where
  "pum_keeps m = (\<forall>s. pum_vstep s (snd (m s)) \<and> (pum_wf s \<longrightarrow> pum_wf (snd (m s))))"

section \<open>The OR-Tools adapter: posting\<close>

text \<open>\<^verbatim>\<open>CPM_ortools._make_numexpr\<close>.\<close>

definition make_numexpr :: "expr \<Rightarrow> (ort_state, ort_numexpr) comp" where
  "make_numexpr cpm_expr =
     (case cpm_expr of
        Num c \<Rightarrow> ret (OrtArg (ANum c))
      | BoolVal b \<Rightarrow> ret (OrtArg (ABoolVal b))
      | _ \<Rightarrow>
          if is_NumVarImpl cpm_expr then bnd (ort_solver_var cpm_expr) (\<lambda>h. ret (OrtArg h))
          else
            (case cpm_expr of
               Operator name args \<Rightarrow>
                 if name = ''sum'' then
                   bnd (solver_vars ort_solver_var (ListE args)) (\<lambda>xs. ret (LinearSum xs))
                 else if name = ''sub'' then
                   bnd (solver_vars ort_solver_var (ListE args)) (\<lambda>r.
                     case r of AList [a, b] \<Rightarrow> ret (Difference a b) | _ \<Rightarrow> raise ValueError)
                 else if name = ''wsum'' then
                   (case args of
                      w # xs # _ \<Rightarrow>
                        bnd (solver_vars ort_solver_var xs) (\<lambda>x. ret (WeightedSum x w))
                    | _ \<Rightarrow> raise IndexError)
                 else raise NotImplementedError
             | _ \<Rightarrow> raise NotImplementedError))"

text \<open>
  Modelled from the spec: \<^verbatim>\<open>eval_comparison\<close>, of the absent
  \<^verbatim>\<open>cpmpy/expressions\<close>, builds the native comparison of two native expressions for
  one of the names of a comparison, "\<^verbatim>\<open>name\<close> in \<^verbatim>\<open>{==,!=,<,<=,>,>=}\<close>", and raises
  for any other name. \<^verbatim>\<open>ort_model.Add\<close> posts it.
\<close>

definition Add_comparison :: "string \<Rightarrow> ort_numexpr \<Rightarrow> ort_var arg \<Rightarrow> (ort_state, unit) comp" where
  "Add_comparison name lhs rhs =
     (if name \<in> set [''=='', ''!='', ''<='', ''<'', ''>='', ''>''] then ort_native (Add name lhs rhs)
      else raise ValueError)"

text \<open>
  Modelled from the spec: the negation \<^verbatim>\<open>-e\<close> and the product \<^verbatim>\<open>b * e\<close> of
  expressions are operators named \<^verbatim>\<open>-\<close> and \<^verbatim>\<open>mul\<close>; the negation of a number is
  a number.
\<close>

fun neg_expr :: "expr \<Rightarrow> expr" where
  "neg_expr (Num c) = Num (- c)"
| "neg_expr e = Operator ''-'' [e]"

text \<open>The loop of the case \<^verbatim>\<open>pow\<close>: \<open>k\<close> rounds of \<^verbatim>\<open>get_or_make_var(b * new_lhs)\<close>,
  each followed by \<^verbatim>\<open>self += new_cons\<close>.\<close>

primrec pow_loop ::
  "library \<Rightarrow> (expr \<Rightarrow> (ort_state, unit) comp) \<Rightarrow> expr \<Rightarrow> nat \<Rightarrow> expr \<Rightarrow> (ort_state, expr) comp"
where
  "pow_loop L self_add b 0 new_lhs = ret new_lhs"
| "pow_loop L self_add b (Suc k) new_lhs =
     bnd (in_env (get_or_make_var L (Operator ''mul'' [b, new_lhs]))) (\<lambda>(new_lhs, new_cons).
     bnd (self_add (ListE new_cons)) (\<lambda>_.
     pow_loop L self_add b k new_lhs))"

text \<open>The case of an equality whose left-hand side is neither a variable nor a sum;
  \<open>self_add\<close> is \<^verbatim>\<open>self += ...\<close>. \<^verbatim>\<open>is_int\<close>, asked of the index of an
  \<^verbatim>\<open>element\<close>, is \<^verbatim>\<open>is_num\<close> without the floats. An exponent that is not an
  integer is taken to differ from 2; \<^verbatim>\<open>range\<close> refuses it.\<close>

definition ort_equality ::
  "library \<Rightarrow> (expr \<Rightarrow> (ort_state, unit) comp) \<Rightarrow> expr \<Rightarrow> string \<Rightarrow> ort_var arg
     \<Rightarrow> (ort_state, unit) comp" where
  "ort_equality L self_add lhs lhs_name ortrhs =
     (if lhs_name = ''min'' then
        bnd (lift_sum (args_of lhs)) (\<lambda>args.
        bnd (solver_vars ort_solver_var (ListE args)) (\<lambda>xs.
        ort_native (AddConstraint ''AddMinEquality'' [ortrhs, xs])))
      else if lhs_name = ''max'' then
        bnd (lift_sum (args_of lhs)) (\<lambda>args.
        bnd (solver_vars ort_solver_var (ListE args)) (\<lambda>xs.
        ort_native (AddConstraint ''AddMaxEquality'' [ortrhs, xs])))
      else if lhs_name = ''abs'' then
        bnd (lift_sum (args_of lhs)) (\<lambda>args.
          case args of
            [] \<Rightarrow> raise IndexError
          | a # _ \<Rightarrow>
              bnd (ort_solver_var a) (\<lambda>x.
              ort_native (AddConstraint ''AddAbsEquality'' [ortrhs, x])))
      else if lhs_name = ''mul'' then
        bnd (lift_sum (args_of lhs)) (\<lambda>args.
        bnd (solver_vars ort_solver_var (ListE args)) (\<lambda>xs.
        ort_native (AddConstraint ''AddMultiplicationEquality'' [ortrhs, xs])))
      else if lhs_name = ''div'' then
        bnd (lift_sum (args_of lhs)) (\<lambda>args.
        bnd (solver_vars_list ort_solver_var args) (\<lambda>xs.
          case xs of
            [a, b] \<Rightarrow> ort_native (AddConstraint ''AddDivisionEquality'' [ortrhs, a, b])
          | _ \<Rightarrow> raise TypeError))
      else if lhs_name = ''element'' then
        bnd (lift_sum (args_of lhs)) (\<lambda>args.
          case args of
            [arr, idx] \<Rightarrow>
              bnd (if is_num idx then intvar (const_int idx) (const_int idx) else ret idx) (\<lambda>idx.
              bnd (ort_solver_var idx) (\<lambda>i.
              bnd (solver_vars ort_solver_var arr) (\<lambda>a.
              ort_native (AddConstraint ''AddElement'' [i, a, ortrhs]))))
          | _ \<Rightarrow> raise ValueError)
      else if lhs_name = ''mod'' then
        bnd (lift_sum (args_of lhs)) (\<lambda>args.
          case args of
            [x, y] \<Rightarrow>
              bnd (lift_sum (get_bounds L y)) (\<lambda>(lb, ub).
              bnd (if lb \<le> 0 then
                     bnd (in_env (get_or_make_var L (neg_expr y))) (\<lambda>(y, link).
                     bnd (self_add (ListE link)) (\<lambda>_.
                     ret y))
                   else ret y) (\<lambda>y.
              bnd (solver_vars_list ort_solver_var [x, y]) (\<lambda>xs.
                case xs of
                  [a, b] \<Rightarrow> ort_native (AddConstraint ''AddModuloEquality'' [ortrhs, a, b])
                | _ \<Rightarrow> raise TypeError)))
          | _ \<Rightarrow> raise ValueError)
      else if lhs_name = ''pow'' then
        bnd (lift_sum (args_of lhs)) (\<lambda>args.
          case args of
            b # e # rest \<Rightarrow>
              if \<not> is_num e then raise NotSupportedError
              else if e = Num 2 then
                bnd (ort_solver_var b) (\<lambda>b.
                ort_native (AddConstraint ''AddMultiplicationEquality'' [ortrhs, AList [b, b]]))
              else if rest \<noteq> [] then raise ValueError
              else
                (case e of
                   Num n \<Rightarrow>
                     bnd (pow_loop L self_add b (nat n) (Num 1)) (\<lambda>new_lhs.
                     bnd (ort_solver_var new_lhs) (\<lambda>l.
                     Add_comparison ''=='' (OrtArg l) ortrhs))
                 | _ \<Rightarrow> raise TypeError)
          | _ \<Rightarrow> raise IndexError)
      else raise NotImplementedError)"

text \<open>The case of a comparison. The message of the last \<^verbatim>\<open>NotImplementedError\<close> is
  formatted with \<^verbatim>\<open>lhs.name\<close>: a left-hand side without a name raises
  \<^verbatim>\<open>AttributeError\<close> there.\<close>

fun is_linear :: "expr \<Rightarrow> bool" where
  "is_linear (Operator name args) = (name = ''sum'' \<or> name = ''wsum'' \<or> name = ''sub'')"
| "is_linear _ = False"

definition ort_comparison ::
  "library \<Rightarrow> (expr \<Rightarrow> (ort_state, unit) comp) \<Rightarrow> string \<Rightarrow> expr \<Rightarrow> expr
     \<Rightarrow> (ort_state, unit) comp" where
  "ort_comparison L self_add name lhs rhs =
     bnd (ort_solver_var rhs) (\<lambda>ortrhs.
       if is_NumVarImpl lhs then
         bnd (ort_solver_var lhs) (\<lambda>l. Add_comparison name (OrtArg l) ortrhs)
       else if is_linear lhs then
         bnd (make_numexpr lhs) (\<lambda>ortlhs. Add_comparison name ortlhs ortrhs)
       else if name = ''=='' then
         bnd (lift_sum (name_of lhs)) (\<lambda>lhs_name. ort_equality L self_add lhs lhs_name ortrhs)
       else bnd (lift_sum (name_of lhs)) (\<lambda>lhs_name. raise NotImplementedError))"

text \<open>The case of a global constraint. The intervals of \<^verbatim>\<open>cumulative\<close> and
  \<^verbatim>\<open>no_overlap\<close> are created one by one from the zipped lists.\<close>

definition intervals ::
  "ort_var arg \<Rightarrow> ort_var arg \<Rightarrow> ort_var arg \<Rightarrow> error + ort_var arg list list" where
  "intervals start dur ends =
     (case (start, dur, ends) of
        (AList ss, AList ds, AList es) \<Rightarrow> Inr (map (\<lambda>(s, d, e). [s, d, e]) (zip3 ss ds es))
      | _ \<Rightarrow> Inl TypeError)"

text \<open>
  Modelled from the spec: \<^verbatim>\<open>boolvar(shape=(N,N))\<close>, of the absent
  \<^verbatim>\<open>expressions/variables.py\<close>, creates \<open>N * N\<close> new Boolean variables, here in the
  order of \<^verbatim>\<open>np.ndenumerate\<close>: the variable at position \<open>k\<close> of the list has the index
  \<open>(k div N, k mod N)\<close>.
\<close>

definition boolvars :: "nat \<Rightarrow> (('h, 'z) solver_interface_scheme, expr list) comp" where
  "boolvars n = mapM (\<lambda>_. boolvar) (replicate n ())"

definition ort_circuit ::
  "(expr \<Rightarrow> (ort_state, unit) comp) \<Rightarrow> expr list \<Rightarrow> (ort_state, unit) comp" where
  "ort_circuit self_add x =
     (let N = length x in
      bnd (boolvars (N * N)) (\<lambda>arcvars.
      bnd (self_add (ListE (map (\<lambda>(k, b). eq_expr b (eq_expr (x ! (k div N)) (Num (int (k mod N)))))
             (zip [0..<length arcvars] arcvars)))) (\<lambda>_.
      bnd (mapM (\<lambda>(k, b). bnd (ort_solver_var b) (\<lambda>h.
               ret (AList [ANum (int (k div N)), ANum (int (k mod N)), h])))
             (filter (\<lambda>(k, b). k div N \<noteq> k mod N) (zip [0..<length arcvars] arcvars)))
        (\<lambda>ort_arcs.
      ort_native (AddConstraint ''AddCircuit'' ort_arcs)))))"

definition ort_global ::
  "(expr \<Rightarrow> (ort_state, unit) comp) \<Rightarrow> string \<Rightarrow> expr list \<Rightarrow> (ort_state, unit) comp" where
  "ort_global self_add name args =
     (if name = ''alldifferent'' then
        bnd (solver_vars ort_solver_var (ListE args)) (\<lambda>xs.
        ort_native (AddConstraint ''AddAllDifferent'' [xs]))
      else if name = ''table'' then
        (case args of
           [array, table] \<Rightarrow>
             bnd (solver_vars ort_solver_var array) (\<lambda>array.
             ort_native (AddTable ''AddAllowedAssignments'' array table))
         | _ \<Rightarrow> raise AssertionError)
      else if name = ''negative_table'' then
        (case args of
           [array, table] \<Rightarrow>
             bnd (solver_vars ort_solver_var array) (\<lambda>array.
             ort_native (AddTable ''AddForbiddenAssignments'' array table))
         | _ \<Rightarrow> raise AssertionError)
      else if name = ''regular'' then
        (case args of
           [array, transitions, start, accepting] \<Rightarrow>
             bnd (solver_vars ort_solver_var array) (\<lambda>array.
             ort_native (AddAutomaton array [start, accepting, transitions]))
         | _ \<Rightarrow> raise ValueError)
      else if name = ''cumulative'' then
        bnd (solver_vars ort_solver_var (ListE args)) (\<lambda>r.
          case r of
            AList [start, dur, ends, demand, cap] \<Rightarrow>
              bnd (lift_sum (intervals start dur ends)) (\<lambda>ivs.
              bnd (mapM (\<lambda>iv. ort_native (AddConstraint ''NewIntervalVar'' iv)) ivs) (\<lambda>_.
              ort_native (AddConstraint ''AddCumulative'' [AList (map AList ivs), demand, cap])))
          | _ \<Rightarrow> raise ValueError)
      else if name = ''no_overlap'' then
        bnd (solver_vars ort_solver_var (ListE args)) (\<lambda>r.
          case r of
            AList [start, dur, ends] \<Rightarrow>
              bnd (lift_sum (intervals start dur ends)) (\<lambda>ivs.
              bnd (mapM (\<lambda>iv. ort_native (AddConstraint ''NewIntervalVar'' iv)) ivs) (\<lambda>_.
              ort_native (AddConstraint ''add_no_overlap'' [AList (map AList ivs)])))
          | _ \<Rightarrow> raise ValueError)
      else if name = ''circuit'' then ort_circuit self_add args
      else if name = ''inverse'' then
        (if length args \<noteq> 2 then raise AssertionError
         else
           bnd (solver_vars_list ort_solver_var args) (\<lambda>xs.
           ort_native (AddConstraint ''AddInverse'' xs)))
      else if name = ''xor'' then
        bnd (solver_vars ort_solver_var (ListE args)) (\<lambda>xs.
        ort_native (AddConstraint ''AddBoolXOr'' [xs]))
      else raise NotImplementedError)"

text \<open>
  Modelled from the spec: \<^verbatim>\<open>DirectConstraint.callSolver\<close>, of the absent
  \<^verbatim>\<open>cpmpy/expressions\<close>: a \<^verbatim>\<open>DirectConstraint(backend-call-name, args)\<close> is the "escape
  hatch" that calls the method of that name of the native model on the handles of its
  arguments.
\<close>

definition callSolver :: "string \<Rightarrow> expr list \<Rightarrow> (ort_state, unit) comp" where
  "callSolver name args =
     bnd (solver_vars ort_solver_var (ListE args)) (\<lambda>_. ort_native (CallSolver name args))"

text \<open>One activation of \<^verbatim>\<open>CPM_ortools._post_constraint\<close>, which never reads its
  parameter \<^verbatim>\<open>reifiable\<close>; \<open>self_post_constraint\<close> is the method itself, which it
  calls for the right-hand side of an implication.\<close>

definition post_constraint_body ::
  "library \<Rightarrow> (expr \<Rightarrow> (ort_state, unit) comp) \<Rightarrow> (expr \<Rightarrow> (ort_state, unit) comp) \<Rightarrow> expr
     \<Rightarrow> (ort_state, unit) comp" where
  "post_constraint_body L self_post_constraint self_add cpm_expr =
     (case cpm_expr of
        Operator name args \<Rightarrow>
          if name = ''and'' then
            bnd (solver_vars ort_solver_var (ListE args)) (\<lambda>xs.
            ort_native (AddConstraint ''AddBoolAnd'' [xs]))
          else if name = ''or'' then
            bnd (solver_vars ort_solver_var (ListE args)) (\<lambda>xs.
            ort_native (AddConstraint ''AddBoolOr'' [xs]))
          else if name = ''->'' then
            (case args of
               [] \<Rightarrow> raise IndexError
             | a0 # rest \<Rightarrow>
                 if \<not> is_BoolVarImpl a0 then raise AssertionError
                 else
                   bnd (ort_solver_var a0) (\<lambda>lhs.
                     case rest of
                       [] \<Rightarrow> raise IndexError
                     | a1 # _ \<Rightarrow>
                         if is_BoolVarImpl a1 then
                           bnd (ort_solver_var a1) (\<lambda>r.
                           ort_native (AddConstraint ''AddImplication'' [lhs, r]))
                         else
                           bnd (self_post_constraint a1) (\<lambda>_.
                           ort_native (OnlyEnforceIf lhs))))
          else raise NotImplementedError
      | Comparison name lhs rhs \<Rightarrow> ort_comparison L self_add name lhs rhs
      | GlobalConstraint name args \<Rightarrow> ort_global self_add name args
      | BoolVarImpl n \<Rightarrow>
          bnd (ort_solver_var cpm_expr) (\<lambda>x. ort_native (AddConstraint ''AddBoolOr'' [AList [x]]))
      | NegBoolView n \<Rightarrow>
          bnd (ort_solver_var cpm_expr) (\<lambda>x. ort_native (AddConstraint ''AddBoolOr'' [AList [x]]))
      | BoolVal b \<Rightarrow> ort_native (AddConstraint ''Add'' [ANum (if b then 1 else 0)])
      | DirectConstraint name args \<Rightarrow> callSolver name args
      | _ \<Rightarrow> raise NotImplementedError)"

text \<open>\<^verbatim>\<open>CPM_ortools.add\<close>, with the method to post a constraint as a parameter.\<close>

definition add_body ::
  "library \<Rightarrow> (expr \<Rightarrow> (ort_state, unit) comp) \<Rightarrow> expr \<Rightarrow> (ort_state, unit) comp" where
  "add_body L self_post_constraint cpm_expr s =
     bnd (ort_transform L cpm_expr) (\<lambda>cons.
     bnd (mapM self_post_constraint cons) (\<lambda>_.
     ret ()))
       (s\<lparr> user_vars := collect (get_variables cpm_expr) (user_vars s) \<rparr>)"

text \<open>\<^verbatim>\<open>_post_constraint\<close> calls itself and \<^verbatim>\<open>add\<close>, which calls it on what
  \<^verbatim>\<open>transform\<close> returns: \<open>depth\<close> is the number of nested activations the Python stack
  still has room for, and the activation that finds none raises \<^verbatim>\<open>RecursionError\<close>.\<close>

fun post_constraint :: "nat \<Rightarrow> library \<Rightarrow> expr \<Rightarrow> (ort_state, unit) comp" where
  "post_constraint 0 L cpm_expr = raise RecursionError"
| "post_constraint (Suc depth) L cpm_expr =
     post_constraint_body L (post_constraint depth L) (add_body L (post_constraint depth L))
       cpm_expr"

definition ort_add :: "nat \<Rightarrow> library \<Rightarrow> expr \<Rightarrow> (ort_state, unit) comp" where
  "ort_add depth L cpm_expr = add_body L (post_constraint depth L) cpm_expr"

text \<open>\<^verbatim>\<open>CPM_ortools.objective\<close>.\<close>

definition ort_objective :: "nat \<Rightarrow> library \<Rightarrow> expr \<Rightarrow> bool \<Rightarrow> (ort_state, unit) comp" where
  "ort_objective depth L expr minimize =
     bnd (in_env (flatten_objective L expr)) (\<lambda>(flat_obj, flat_cons).
     bnd (ort_add depth L (ListE flat_cons)) (\<lambda>_.
     bnd (\<lambda>s. (Inr (), s\<lparr> user_vars := collect (get_variables flat_obj) (user_vars s) \<rparr>)) (\<lambda>_.
     bnd (make_numexpr flat_obj) (\<lambda>obj.
     ort_native (if minimize then Minimize obj else Maximize obj)))))"

section \<open>Sequences of calls\<close>

text \<open>A call of \<^verbatim>\<open>add\<close> or of \<^verbatim>\<open>objective\<close> by the caller, and a sequence of them run
  on an adapter; a call that raises leaves the adapter as it is at the raise, and the
  caller goes on.\<close>

datatype call = Add_call expr | Objective_call expr bool

fun pum_call_of :: "nat \<Rightarrow> library \<Rightarrow> call \<Rightarrow> (pum_state, unit) comp" where
  "pum_call_of depth L (Add_call e) = pum_add depth L e"
| "pum_call_of depth L (Objective_call e minimize) = pum_objective depth L e minimize"

fun ort_call_of :: "nat \<Rightarrow> library \<Rightarrow> call \<Rightarrow> (ort_state, unit) comp" where
  "ort_call_of depth L (Add_call e) = ort_add depth L e"
| "ort_call_of depth L (Objective_call e minimize) = ort_objective depth L e minimize"

fun pum_run :: "nat \<Rightarrow> library \<Rightarrow> call list \<Rightarrow> pum_state \<Rightarrow> pum_state" where
  "pum_run depth L [] s = s"
| "pum_run depth L (c # cs) s = pum_run depth L cs (snd (pum_call_of depth L c s))"

fun ort_run :: "nat \<Rightarrow> library \<Rightarrow> call list \<Rightarrow> ort_state \<Rightarrow> ort_state" where
  "ort_run depth L [] s = s"
| "ort_run depth L (c # cs) s = ort_run depth L cs (snd (ort_call_of depth L c s))"

text \<open>The variables of the expressions the caller has given.\<close>

fun call_expr :: "call \<Rightarrow> expr" where
  "call_expr (Add_call e) = e"
| "call_expr (Objective_call e _) = e"

definition caller_vars :: "call list \<Rightarrow> expr list" where
  "caller_vars cs = concat (map (\<lambda>c. get_variables (call_expr c)) cs)"

text \<open>A computation of the OR-Tools adapter under which the set of user variables does
  not shrink.\<close>

definition ort_grows :: "(ort_state, 'a) comp \<Rightarrow> bool" where
  "ort_grows m = (\<forall>s. set (user_vars s) \<subseteq> set (user_vars (snd (m s))))"
section \<open>The variable cache\<close>

declare ort_solver_var.simps [simp del]
declare pum_solver_var.simps [simp del]

lemma ort_solver_var_Num: "ort_solver_var (Num n) s = (Inr (ANum n), s)"
  by (subst ort_solver_var.simps) simp

lemma ort_solver_var_Neg:
  "ort_solver_var (NegBoolView n) s =
     (case ort_solver_var (bv n) s of
        (Inl e, s') \<Rightarrow> (Inl e, s')
      | (Inr (AVar h), s') \<Rightarrow> (Inr (AVar (ort_Not h)), s')
      | (Inr _, s') \<Rightarrow> (Inl AttributeError, s'))"
  by (subst ort_solver_var.simps) simp

lemma ort_solver_var_BoolVal: "ort_solver_var (BoolVal b) s = (Inr (ABoolVal b), s)"
  by (subst ort_solver_var.simps) simp

lemma ort_solver_var_unhashable:
  "\<not> hashable v \<Longrightarrow> ort_solver_var v s = (Inl TypeError, s)"
  by (subst ort_solver_var.simps) (cases v; simp)

lemma ort_solver_var_cached:
  "\<not> is_num v \<Longrightarrow> \<not> is_NegBoolView v \<Longrightarrow> hashable v \<Longrightarrow> varmap s v = Some h
     \<Longrightarrow> ort_solver_var v s = (Inr (AVar h), s)"
  by (subst ort_solver_var.simps) (auto simp: dom_def)

lemma ort_solver_var_new_bool:
  "varmap s (BoolVarImpl n) = None \<Longrightarrow>
   ort_solver_var (BoolVarImpl n) s =
     (Inr (AVar (OrtVar (num_vars s))),
      s\<lparr> ort_calls := ort_calls s @ [NewBoolVar n], num_vars := Suc (num_vars s),
         varmap := (varmap s)(BoolVarImpl n \<mapsto> OrtVar (num_vars s)) \<rparr>)"
  by (subst ort_solver_var.simps) (auto simp: dom_def NewBoolVar_call_def)

lemma ort_solver_var_new_int:
  "varmap s (IntVarImpl lb ub n) = None \<Longrightarrow>
   ort_solver_var (IntVarImpl lb ub n) s =
     (Inr (AVar (OrtVar (num_vars s))),
      s\<lparr> ort_calls := ort_calls s @ [NewIntVar lb ub n], num_vars := Suc (num_vars s),
         varmap := (varmap s)(IntVarImpl lb ub n \<mapsto> OrtVar (num_vars s)) \<rparr>)"
  by (subst ort_solver_var.simps) (auto simp: dom_def NewIntVar_call_def)

lemma ort_solver_var_unknown:
  "unknown_kind v \<Longrightarrow> varmap s v = None \<Longrightarrow> ort_solver_var v s = (Inl NotImplementedError, s)"
  by (subst ort_solver_var.simps) (cases v; auto simp: unknown_kind_def dom_def raise_def)

lemma ort_solver_var_varmap_mono:
  "ort_solver_var w s = (r, s') \<Longrightarrow> varmap s v = Some h \<Longrightarrow> varmap s' v = Some h"
proof (induction w s arbitrary: r s' rule: ort_solver_var.induct)
  case (1 cpm_var s)
  show ?case
  proof (cases "is_num cpm_var")
    case True
    with 1 show ?thesis by (subst (asm) ort_solver_var.simps) auto
  next
    case False
    note nn = this
    show ?thesis
    proof (cases "is_NegBoolView cpm_var")
      case True
      then obtain n where n: "cpm_var = NegBoolView n" by (cases cpm_var) auto
      obtain r0 s0 where r0: "ort_solver_var (bv n) s = (r0, s0)" by (cases "ort_solver_var (bv n) s")
      from "1.IH"[OF nn True n r0 "1.prems"(2)] have "varmap s0 v = Some h" .
      moreover from "1.prems"(1) n r0 have "s' = s0"
        by (subst (asm) ort_solver_var.simps) (auto split: sum.splits arg.splits)
      ultimately show ?thesis by simp
    next
      case False
      with nn "1.prems" show ?thesis
        by (subst (asm) ort_solver_var.simps)
           (auto simp: NewBoolVar_call_def NewIntVar_call_def raise_def dom_def
                 split: if_splits sum.splits prod.splits option.splits expr.splits)
    qed
  qed
qed


lemma ort_solver_var_wf:
  "ort_solver_var w s = (r, s') \<Longrightarrow> wf_varmap s \<Longrightarrow> wf_varmap s'"
proof (induction w s arbitrary: r s' rule: ort_solver_var.induct)
  case (1 cpm_var s)
  show ?case
  proof (cases "is_num cpm_var")
    case True
    with 1 show ?thesis by (subst (asm) ort_solver_var.simps) auto
  next
    case False
    note nn = this
    show ?thesis
    proof (cases "is_NegBoolView cpm_var")
      case True
      then obtain n where n: "cpm_var = NegBoolView n" by (cases cpm_var) auto
      obtain r0 s0 where r0: "ort_solver_var (bv n) s = (r0, s0)" by (cases "ort_solver_var (bv n) s")
      from "1.IH"[OF nn True n r0 "1.prems"(2)] have "wf_varmap s0" .
      moreover from "1.prems"(1) n r0 have "s' = s0"
        by (subst (asm) ort_solver_var.simps) (auto split: sum.splits arg.splits)
      ultimately show ?thesis by simp
    next
      case False
      with nn "1.prems" show ?thesis
        by (subst (asm) ort_solver_var.simps)
           (cases cpm_var;
            auto simp: NewBoolVar_call_def NewIntVar_call_def raise_def wf_varmap_def
                 split: if_splits option.splits)
    qed
  qed
qed

lemma pum_solver_var_Num: "pum_solver_var (Num n) s = (Inr (ANum n), s)"
  by (subst pum_solver_var.simps) simp

lemma pum_solver_var_Neg:
  "pum_solver_var (NegBoolView n) s =
     (case pum_solver_var (bv n) s of
        (Inl e, s') \<Rightarrow> (Inl e, s')
      | (Inr (AVar (PumpkinBool b)), s') \<Rightarrow> (Inr (AVar (PumpkinBool (Negated b))), s')
      | (Inr _, s') \<Rightarrow> (Inl AttributeError, s'))"
  by (subst pum_solver_var.simps) simp

lemma pum_solver_var_BoolVal: "pum_solver_var (BoolVal b) s = (Inr (ABoolVal b), s)"
  by (subst pum_solver_var.simps) simp

lemma pum_solver_var_unhashable:
  "\<not> hashable v \<Longrightarrow> pum_solver_var v s = (Inl TypeError, s)"
  by (subst pum_solver_var.simps) (cases v; simp)

lemma pum_solver_var_cached:
  "\<not> is_num v \<Longrightarrow> \<not> is_NegBoolView v \<Longrightarrow> hashable v \<Longrightarrow> varmap s v = Some h
     \<Longrightarrow> pum_solver_var v s = (Inr (AVar h), s)"
  by (subst pum_solver_var.simps) (auto simp: dom_def)

lemma pum_solver_var_new_bool:
  "varmap s (BoolVarImpl n) = None \<Longrightarrow>
   pum_solver_var (BoolVarImpl n) s =
     (Inr (AVar (PumpkinBool (BoolVariable (pum_num_vars s)))),
      s\<lparr> pum_calls := pum_calls s @ [new_boolean_variable n], pum_num_vars := Suc (pum_num_vars s),
         varmap := (varmap s)(BoolVarImpl n \<mapsto> PumpkinBool (BoolVariable (pum_num_vars s))) \<rparr>)"
  by (subst pum_solver_var.simps) (auto simp: dom_def new_boolean_variable_call_def)

lemma pum_solver_var_new_int:
  "varmap s (IntVarImpl lb ub n) = None \<Longrightarrow>
   pum_solver_var (IntVarImpl lb ub n) s =
     (Inr (AVar (PumpkinInt (IntVariable (pum_num_vars s)))),
      s\<lparr> pum_calls := pum_calls s @ [new_integer_variable lb ub n], pum_num_vars := Suc (pum_num_vars s),
         varmap := (varmap s)(IntVarImpl lb ub n \<mapsto> PumpkinInt (IntVariable (pum_num_vars s))) \<rparr>)"
  by (subst pum_solver_var.simps) (auto simp: dom_def new_integer_variable_call_def)

lemma pum_solver_var_unknown:
  "unknown_kind v \<Longrightarrow> varmap s v = None \<Longrightarrow> pum_solver_var v s = (Inl NotImplementedError, s)"
  by (subst pum_solver_var.simps) (cases v; auto simp: unknown_kind_def dom_def raise_def)

lemma pum_solver_var_varmap_mono:
  "pum_solver_var w s = (r, s') \<Longrightarrow> varmap s v = Some h \<Longrightarrow> varmap s' v = Some h"
proof (induction w s arbitrary: r s' rule: pum_solver_var.induct)
  case (1 cpm_var s)
  show ?case
  proof (cases "is_num cpm_var")
    case True
    with 1 show ?thesis by (subst (asm) pum_solver_var.simps) auto
  next
    case False
    note nn = this
    show ?thesis
    proof (cases "is_NegBoolView cpm_var")
      case True
      then obtain n where n: "cpm_var = NegBoolView n" by (cases cpm_var) auto
      obtain r0 s0 where r0: "pum_solver_var (bv n) s = (r0, s0)" by (cases "pum_solver_var (bv n) s")
      from "1.IH"[OF nn True n r0 "1.prems"(2)] have "varmap s0 v = Some h" .
      moreover from "1.prems"(1) n r0 have "s' = s0"
        by (subst (asm) pum_solver_var.simps) (auto split: sum.splits arg.splits pum_handle.splits)
      ultimately show ?thesis by simp
    next
      case False
      with nn "1.prems" show ?thesis
        by (subst (asm) pum_solver_var.simps)
           (auto simp: new_boolean_variable_call_def new_integer_variable_call_def raise_def dom_def
                 split: if_splits sum.splits prod.splits option.splits expr.splits)
    qed
  qed
qed

lemma pum_solver_var_wf:
  "pum_solver_var w s = (r, s') \<Longrightarrow> pum_wf s \<Longrightarrow> pum_wf s'"
proof (induction w s arbitrary: r s' rule: pum_solver_var.induct)
  case (1 cpm_var s)
  show ?case
  proof (cases "is_num cpm_var")
    case True
    with 1 show ?thesis by (subst (asm) pum_solver_var.simps) auto
  next
    case False
    note nn = this
    show ?thesis
    proof (cases "is_NegBoolView cpm_var")
      case True
      then obtain n where n: "cpm_var = NegBoolView n" by (cases cpm_var) auto
      obtain r0 s0 where r0: "pum_solver_var (bv n) s = (r0, s0)" by (cases "pum_solver_var (bv n) s")
      from "1.IH"[OF nn True n r0 "1.prems"(2)] have "pum_wf s0" .
      moreover from "1.prems"(1) n r0 have "s' = s0"
        by (subst (asm) pum_solver_var.simps) (auto split: sum.splits arg.splits pum_handle.splits)
      ultimately show ?thesis by simp
    next
      case False
      with nn "1.prems" show ?thesis
        by (subst (asm) pum_solver_var.simps)
           (cases cpm_var;
            auto simp: new_boolean_variable_call_def new_integer_variable_call_def raise_def
                   pum_wf_def wf_varmap_def
                 split: if_splits option.splits)
    qed
  qed
qed

lemma wf_varmap_not_plain:
  "wf_varmap s \<Longrightarrow> \<not> plain_var u \<Longrightarrow> varmap s u = None"
  unfolding wf_varmap_def by (cases "varmap s u") auto

lemma unknown_kind_not_plain: "unknown_kind u \<Longrightarrow> \<not> plain_var u"
  by (cases u) (auto simp: unknown_kind_def)

lemma ort_neg_view:
  assumes "wf_varmap s"
  shows "\<exists>h s'. ort_solver_var (bv n) s = (Inr (AVar h), s')
          \<and> ort_solver_var (NegBoolView n) s = (Inr (AVar (ort_Not h)), s')
          \<and> varmap s' (NegBoolView n) = None"
proof (cases "varmap s (BoolVarImpl n)")
  case None
  let ?s' = "s\<lparr> ort_calls := ort_calls s @ [NewBoolVar n], num_vars := Suc (num_vars s),
       varmap := (varmap s)(BoolVarImpl n \<mapsto> OrtVar (num_vars s)) \<rparr>"
  have a: "ort_solver_var (bv n) s = (Inr (AVar (OrtVar (num_vars s))), ?s')"
    unfolding bv_def by (rule ort_solver_var_new_bool[OF None])
  have "wf_varmap ?s'" using ort_solver_var_wf[OF a assms] .
  then have "varmap ?s' (NegBoolView n) = None" by (rule wf_varmap_not_plain) simp
  with a show ?thesis by (simp add: ort_solver_var_Neg)
next
  case (Some h)
  have a: "ort_solver_var (bv n) s = (Inr (AVar h), s)"
    unfolding bv_def by (rule ort_solver_var_cached) (use Some in auto)
  have "varmap s (NegBoolView n) = None" using assms by (rule wf_varmap_not_plain) simp
  with a show ?thesis by (simp add: ort_solver_var_Neg)
qed

lemma pum_neg_view:
  assumes "pum_wf p"
  shows "\<exists>b p'. pum_solver_var (bv n) p = (Inr (AVar (PumpkinBool b)), p')
          \<and> pum_solver_var (NegBoolView n) p = (Inr (AVar (PumpkinBool (Negated b))), p')
          \<and> varmap p' (NegBoolView n) = None"
proof (cases "varmap p (BoolVarImpl n)")
  case None
  let ?p' = "p\<lparr> pum_calls := pum_calls p @ [new_boolean_variable n], pum_num_vars := Suc (pum_num_vars p),
       varmap := (varmap p)(BoolVarImpl n \<mapsto> PumpkinBool (BoolVariable (pum_num_vars p))) \<rparr>"
  have a: "pum_solver_var (bv n) p = (Inr (AVar (PumpkinBool (BoolVariable (pum_num_vars p)))), ?p')"
    unfolding bv_def by (rule pum_solver_var_new_bool[OF None])
  have "pum_wf ?p'" using pum_solver_var_wf[OF a assms] .
  then have "wf_varmap ?p'" by (simp add: pum_wf_def)
  then have "varmap ?p' (NegBoolView n) = None" by (rule wf_varmap_not_plain) simp
  with a show ?thesis by (simp add: pum_solver_var_Neg)
next
  case (Some h)
  with assms obtain b where b: "h = PumpkinBool b" unfolding pum_wf_def by blast
  have a: "pum_solver_var (bv n) p = (Inr (AVar h), p)"
    unfolding bv_def by (rule pum_solver_var_cached) (use Some in auto)
  from assms have "wf_varmap p" by (simp add: pum_wf_def)
  then have "varmap p (NegBoolView n) = None" by (rule wf_varmap_not_plain) simp
  with a b show ?thesis by (simp add: pum_solver_var_Neg)
qed

lemma ort_plain_case:
  assumes "plain_var v"
  shows "case varmap s v of
             None \<Rightarrow> ort_solver_var v s =
               (Inr (AVar (OrtVar (num_vars s))),
                s\<lparr> ort_calls := ort_calls s @ [ort_new_call v], num_vars := Suc (num_vars s),
                   varmap := (varmap s)(v \<mapsto> OrtVar (num_vars s)) \<rparr>)
           | Some h \<Rightarrow> ort_solver_var v s = (Inr (AVar h), s)"
proof (cases "varmap s v")
  case None
  with assms show ?thesis
    by (cases v) (simp_all add: ort_solver_var_new_bool ort_solver_var_new_int)
next
  case (Some h)
  with assms show ?thesis
    by (cases v) (simp_all add: ort_solver_var_cached)
qed

lemma pum_plain_case:
  assumes "plain_var v"
  shows "case varmap p v of
             None \<Rightarrow> pum_solver_var v p =
               (Inr (AVar (pum_new_handle v (pum_num_vars p))),
                p\<lparr> pum_calls := pum_calls p @ [pum_new_call v],
                   pum_num_vars := Suc (pum_num_vars p),
                   varmap := (varmap p)(v \<mapsto> pum_new_handle v (pum_num_vars p)) \<rparr>)
           | Some h \<Rightarrow> pum_solver_var v p = (Inr (AVar h), p)"
proof (cases "varmap p v")
  case None
  with assms show ?thesis
    by (cases v) (simp_all add: pum_solver_var_new_bool pum_solver_var_new_int)
next
  case (Some h)
  with assms show ?thesis
    by (cases v) (simp_all add: pum_solver_var_cached)
qed

lemma ort_solver_var_keeps:
  "varmap s v = Some h \<Longrightarrow> varmap (snd (ort_solver_var w s)) v = Some h"
  by (cases "ort_solver_var w s") (simp add: ort_solver_var_varmap_mono)

lemma pum_solver_var_keeps:
  "varmap p v = Some h \<Longrightarrow> varmap (snd (pum_solver_var w p)) v = Some h"
  by (cases "pum_solver_var w p") (simp add: pum_solver_var_varmap_mono)

lemma ort_solver_var_wf_snd: "wf_varmap s \<Longrightarrow> wf_varmap (snd (ort_solver_var w s))"
  by (cases "ort_solver_var w s") (simp add: ort_solver_var_wf)

lemma pum_solver_var_wf_snd: "pum_wf p \<Longrightarrow> pum_wf (snd (pum_solver_var w p))"
  by (cases "pum_solver_var w p") (simp add: pum_solver_var_wf)

lemma wf_varmap_ort_init: "wf_varmap ort_init"
  by (simp add: wf_varmap_def ort_init_def)

lemma pum_wf_pum_init: "pum_wf pum_init"
  by (simp add: pum_wf_def wf_varmap_def pum_init_def)

text \<open>
  Claim C8. In both adapters, \<^verbatim>\<open>solver_var\<close> returns a numeric constant, a number or a
  Boolean constant, unchanged; for a negated view it returns the negation of the handle
  of the underlying variable and stores nothing under the view; for a plain variable it
  creates one native handle on the first call (one native call, one cache entry) and
  returns the cached handle, with no native call, whenever the cache holds one; an entry
  of the cache is never changed by a later call; a list, which cannot be hashed, raises
  \<^verbatim>\<open>TypeError\<close> at the lookup in the cache; any other object, of unknown kind, raises
  \<^verbatim>\<open>NotImplementedError\<close>; and every object is of one of these five sorts. The cache
  is one whose keys are plain variables, as it is in a new adapter and after every call.
\<close>

theorem solver_var_cached_handle:
  assumes "wf_varmap s" and "pum_wf p"
  shows "ort_solver_var (Num c) s = (Inr (ANum c), s)
    \<and> pum_solver_var (Num c) p = (Inr (ANum c), p)
    \<and> ort_solver_var (BoolVal t) s = (Inr (ABoolVal t), s)
    \<and> pum_solver_var (BoolVal t) p = (Inr (ABoolVal t), p)
    \<and> (\<exists>h s'. ort_solver_var (bv n) s = (Inr (AVar h), s')
          \<and> ort_solver_var (NegBoolView n) s = (Inr (AVar (ort_Not h)), s')
          \<and> varmap s' (NegBoolView n) = None)
    \<and> (\<exists>b p'. pum_solver_var (bv n) p = (Inr (AVar (PumpkinBool b)), p')
          \<and> pum_solver_var (NegBoolView n) p = (Inr (AVar (PumpkinBool (Negated b))), p')
          \<and> varmap p' (NegBoolView n) = None)
    \<and> (plain_var v \<longrightarrow>
          (case varmap s v of
             None \<Rightarrow> ort_solver_var v s =
               (Inr (AVar (OrtVar (num_vars s))),
                s\<lparr> ort_calls := ort_calls s @ [ort_new_call v], num_vars := Suc (num_vars s),
                   varmap := (varmap s)(v \<mapsto> OrtVar (num_vars s)) \<rparr>)
           | Some h \<Rightarrow> ort_solver_var v s = (Inr (AVar h), s)))
    \<and> (plain_var v \<longrightarrow>
          (case varmap p v of
             None \<Rightarrow> pum_solver_var v p =
               (Inr (AVar (pum_new_handle v (pum_num_vars p))),
                p\<lparr> pum_calls := pum_calls p @ [pum_new_call v],
                   pum_num_vars := Suc (pum_num_vars p),
                   varmap := (varmap p)(v \<mapsto> pum_new_handle v (pum_num_vars p)) \<rparr>)
           | Some h \<Rightarrow> pum_solver_var v p = (Inr (AVar h), p)))
    \<and> (\<forall>h. varmap s v = Some h \<longrightarrow> varmap (snd (ort_solver_var w s)) v = Some h)
    \<and> (\<forall>h. varmap p v = Some h \<longrightarrow> varmap (snd (pum_solver_var w p)) v = Some h)
    \<and> ort_solver_var (ListE xs) s = (Inl TypeError, s)
    \<and> pum_solver_var (ListE xs) p = (Inl TypeError, p)
    \<and> (unknown_kind u \<longrightarrow> ort_solver_var u s = (Inl NotImplementedError, s)
          \<and> pum_solver_var u p = (Inl NotImplementedError, p))
    \<and> (is_num x \<or> is_NegBoolView x \<or> plain_var x \<or> is_ListE x \<or> unknown_kind x)
    \<and> wf_varmap (snd (ort_solver_var w s)) \<and> pum_wf (snd (pum_solver_var w p))"
proof (intro conjI impI allI)
  show "ort_solver_var (Num c) s = (Inr (ANum c), s)" by (rule ort_solver_var_Num)
  show "pum_solver_var (Num c) p = (Inr (ANum c), p)" by (rule pum_solver_var_Num)
  show "ort_solver_var (BoolVal t) s = (Inr (ABoolVal t), s)" by (rule ort_solver_var_BoolVal)
  show "pum_solver_var (BoolVal t) p = (Inr (ABoolVal t), p)" by (rule pum_solver_var_BoolVal)
  show "\<exists>h s'. ort_solver_var (bv n) s = (Inr (AVar h), s')
          \<and> ort_solver_var (NegBoolView n) s = (Inr (AVar (ort_Not h)), s')
          \<and> varmap s' (NegBoolView n) = None"
    by (rule ort_neg_view[OF assms(1)])
  show "\<exists>b p'. pum_solver_var (bv n) p = (Inr (AVar (PumpkinBool b)), p')
          \<and> pum_solver_var (NegBoolView n) p = (Inr (AVar (PumpkinBool (Negated b))), p')
          \<and> varmap p' (NegBoolView n) = None"
    by (rule pum_neg_view[OF assms(2)])
  show "ort_solver_var (ListE xs) s = (Inl TypeError, s)"
    by (rule ort_solver_var_unhashable) simp
  show "pum_solver_var (ListE xs) p = (Inl TypeError, p)"
    by (rule pum_solver_var_unhashable) simp
  show "is_num x \<or> is_NegBoolView x \<or> plain_var x \<or> is_ListE x \<or> unknown_kind x"
    by (cases x) (simp_all add: unknown_kind_def)
  show "wf_varmap (snd (ort_solver_var w s))" by (rule ort_solver_var_wf_snd[OF assms(1)])
  show "pum_wf (snd (pum_solver_var w p))" by (rule pum_solver_var_wf_snd[OF assms(2)])
next
  assume "plain_var v"
  then show "case varmap s v of
             None \<Rightarrow> ort_solver_var v s =
               (Inr (AVar (OrtVar (num_vars s))),
                s\<lparr> ort_calls := ort_calls s @ [ort_new_call v], num_vars := Suc (num_vars s),
                   varmap := (varmap s)(v \<mapsto> OrtVar (num_vars s)) \<rparr>)
           | Some h \<Rightarrow> ort_solver_var v s = (Inr (AVar h), s)"
    by (rule ort_plain_case)
next
  assume "plain_var v"
  then show "case varmap p v of
             None \<Rightarrow> pum_solver_var v p =
               (Inr (AVar (pum_new_handle v (pum_num_vars p))),
                p\<lparr> pum_calls := pum_calls p @ [pum_new_call v],
                   pum_num_vars := Suc (pum_num_vars p),
                   varmap := (varmap p)(v \<mapsto> pum_new_handle v (pum_num_vars p)) \<rparr>)
           | Some h \<Rightarrow> pum_solver_var v p = (Inr (AVar h), p)"
    by (rule pum_plain_case)
next
  fix h assume "varmap s v = Some h"
  then show "varmap (snd (ort_solver_var w s)) v = Some h" by (rule ort_solver_var_keeps)
next
  fix h assume "varmap p v = Some h"
  then show "varmap (snd (pum_solver_var w p)) v = Some h" by (rule pum_solver_var_keeps)
next
  assume u: "unknown_kind u"
  from assms(1) unknown_kind_not_plain[OF u] have "varmap s u = None"
    by (rule wf_varmap_not_plain)
  with u show "ort_solver_var u s = (Inl NotImplementedError, s)"
    by (rule ort_solver_var_unknown)
next
  assume u: "unknown_kind u"
  from assms(2) have "wf_varmap p" by (simp add: pum_wf_def)
  from this unknown_kind_not_plain[OF u] have "varmap p u = None"
    by (rule wf_varmap_not_plain)
  with u show "pum_solver_var u p = (Inl NotImplementedError, p)"
    by (rule pum_solver_var_unknown)
qed

theorem solver_var_cached_handle_witness:
  "wf_varmap ort_init \<and> pum_wf pum_init
   \<and> plain_var (IntVarImpl 0 9 ''x'') \<and> unknown_kind (OtherObj ''o'')
   \<and> ort_calls (snd (ort_solver_var (IntVarImpl 0 9 ''x'') ort_init)) = [NewIntVar 0 9 ''x'']
   \<and> fst (pum_solver_var (IntVarImpl 0 9 ''x'') pum_init) = Inr (AVar (PumpkinInt (IntVariable 0)))
   \<and> fst (pum_solver_var (OtherObj ''o'') pum_init) = Inl NotImplementedError
   \<and> fst (ort_solver_var (BoolVal True) ort_init) = Inr (ABoolVal True)
   \<and> fst (pum_solver_var (ListE [IntVarImpl 0 9 ''x'']) pum_init) = Inl TypeError"
proof -
  have p: "plain_var (IntVarImpl 0 9 ''x'')" by simp
  have u: "unknown_kind (OtherObj ''o'')" by (simp add: unknown_kind_def)
  have o: "varmap ort_init (IntVarImpl 0 9 ''x'') = None" by (simp add: ort_init_def)
  have q: "varmap pum_init (IntVarImpl 0 9 ''x'') = None" by (simp add: pum_init_def)
  have oc: "ort_calls ort_init = []" by (simp add: ort_init_def)
  have pn: "pum_num_vars pum_init = 0" by (simp add: pum_init_def)
  note t = solver_var_cached_handle [OF wf_varmap_ort_init pum_wf_pum_init,
      where v = "IntVarImpl 0 9 ''x''" and u = "OtherObj ''o''" and t = True
        and xs = "[IntVarImpl 0 9 ''x'']"]
  from t p o oc have a: "ort_calls (snd (ort_solver_var (IntVarImpl 0 9 ''x'') ort_init)) = [NewIntVar 0 9 ''x'']"
    by simp
  from t p q pn have b: "fst (pum_solver_var (IntVarImpl 0 9 ''x'') pum_init) = Inr (AVar (PumpkinInt (IntVariable 0)))"
    by simp
  from t u have c: "fst (pum_solver_var (OtherObj ''o'') pum_init) = Inl NotImplementedError"
    by simp
  from t have d: "fst (ort_solver_var (BoolVal True) ort_init) = Inr (ABoolVal True)"
    by simp
  from t have e: "fst (pum_solver_var (ListE [IntVarImpl 0 9 ''x'']) pum_init) = Inl TypeError"
    by simp
  show ?thesis using wf_varmap_ort_init pum_wf_pum_init p u a b c d e by blast
qed

section \<open>Solving with OR-Tools\<close>

lemma bnd_InrE:
  assumes "bnd m f s = (Inr y, s')"
  obtains x s1 where "m s = (Inr x, s1)" and "f x s1 = (Inr y, s')"
  using assms unfolding bnd_def by (auto split: prod.splits sum.splits)

lemma bnd_Inl: "m s = (Inl e, s1) \<Longrightarrow> bnd m f s = (Inl e, s1)"
  by (simp add: bnd_def)

lemma bnd_Inr: "m s = (Inr x, s1) \<Longrightarrow> bnd m f s = f x s1"
  by (simp add: bnd_def)

lemma ort_vstep_refl: "ort_vstep s s"
  unfolding ort_vstep_def
  by (rule exI[of _ "varmap s"], rule exI[of _ "[]"], rule exI[of _ "num_vars s"]) simp

lemma ort_vstep_trans:
  assumes "ort_vstep s s1" and "ort_vstep s1 s2"
  shows "ort_vstep s s2"
proof -
  from assms(1) obtain m cs k where
    a: "s1 = s\<lparr> varmap := m, ort_calls := ort_calls s @ cs, num_vars := k \<rparr>"
    and b: "list_all is_new_var_call cs" and c: "\<forall>v h. varmap s v = Some h \<longrightarrow> m v = Some h"
    unfolding ort_vstep_def by blast
  from assms(2) obtain m' cs' k' where
    a': "s2 = s1\<lparr> varmap := m', ort_calls := ort_calls s1 @ cs', num_vars := k' \<rparr>"
    and b': "list_all is_new_var_call cs'" and c': "\<forall>v h. varmap s1 v = Some h \<longrightarrow> m' v = Some h"
    unfolding ort_vstep_def by blast
  have "s2 = s\<lparr> varmap := m', ort_calls := ort_calls s @ (cs @ cs'), num_vars := k' \<rparr>"
    using a a' by simp
  moreover have "list_all is_new_var_call (cs @ cs')" using b b' by simp
  moreover have "\<forall>v h. varmap s v = Some h \<longrightarrow> m' v = Some h" using c c' a by simp
  ultimately show ?thesis unfolding ort_vstep_def by blast
qed

lemma ort_solver_var_plain_vstep:
  assumes "\<not> is_num v" and "\<not> is_NegBoolView v" and "ort_solver_var v s = (r, s')"
  shows "ort_vstep s s'"
proof (cases "varmap s v = None \<or> \<not> hashable v")
  case False
  then obtain h where "varmap s v = Some h" and "hashable v" by auto
  with assms have "s' = s" by (simp add: ort_solver_var_cached)
  then show ?thesis by (simp add: ort_vstep_refl)
next
  case True
  show ?thesis
  proof (cases "hashable v")
    case False
    with assms(3) have "s' = s" by (simp add: ort_solver_var_unhashable)
    then show ?thesis by (simp add: ort_vstep_refl)
  next
    case hv: True
    with True have None: "varmap s v = None" by simp
  show ?thesis
  proof (cases "plain_var v")
    case False
    with assms(1,2) hv have "unknown_kind v" by (cases v) (auto simp: unknown_kind_def)
    with None assms(3) have "s' = s" by (simp add: ort_solver_var_unknown)
    then show ?thesis by (simp add: ort_vstep_refl)
  next
    case True
    with ort_plain_case[OF True, of s] None assms(3)
    have s': "s' = s\<lparr> ort_calls := ort_calls s @ [ort_new_call v], num_vars := Suc (num_vars s),
                   varmap := (varmap s)(v \<mapsto> OrtVar (num_vars s)) \<rparr>" by simp
    have "is_new_var_call (ort_new_call v)" using True by (cases v) auto
    with None show ?thesis unfolding ort_vstep_def s'
      by (intro exI[of _ "(varmap s)(v \<mapsto> OrtVar (num_vars s))"] exI[of _ "[ort_new_call v]"]
            exI[of _ "Suc (num_vars s)"]) auto
  qed
  qed
qed

lemma ort_solver_var_vstep:
  assumes "ort_solver_var v s = (r, s')"
  shows "ort_vstep s s'"
proof (cases "is_num v")
  case True
  with assms show ?thesis
    by (cases v) (simp_all add: ort_solver_var_Num ort_solver_var_BoolVal ort_vstep_refl)
next
  case False
  note nn = this
  show ?thesis
  proof (cases "is_NegBoolView v")
    case False
    show ?thesis by (rule ort_solver_var_plain_vstep[OF nn False assms])
  next
    case True
    then obtain n where n: "v = NegBoolView n" by (cases v) auto
    obtain r0 s0 where r0: "ort_solver_var (bv n) s = (r0, s0)" by (cases "ort_solver_var (bv n) s")
    have "ort_vstep s s0" by (rule ort_solver_var_plain_vstep[OF _ _ r0]) (simp_all add: bv_def)
    moreover from assms n r0 have "s' = s0"
      by (auto simp: ort_solver_var_Neg split: sum.splits arg.splits)
    ultimately show ?thesis by simp
  qed
qed

lemma solver_vars_list_lift:
  assumes refl: "\<And>s. R s s" and trans: "\<And>s s1 s2. R s s1 \<Longrightarrow> R s1 s2 \<Longrightarrow> R s s2"
    and el: "\<And>x s r s'. x \<in> set es \<Longrightarrow> solver_vars sv x s = (r, s') \<Longrightarrow> R s s'"
  shows "solver_vars_list sv es s = (rs, s') \<Longrightarrow> R s s'"
  using el
proof (induction es arbitrary: s rs s')
  case Nil
  then show ?case by (simp add: refl)
next
  case (Cons x xs)
  obtain r1 s1 where r1: "solver_vars sv x s = (r1, s1)" by (cases "solver_vars sv x s")
  have a: "R s s1" by (rule Cons.prems(2)[OF _ r1]) simp
  show ?case
  proof (cases r1)
    case (Inl e)
    with Cons.prems(1) r1 a show ?thesis by simp
  next
    case (Inr y)
    obtain r2 s2 where r2: "solver_vars_list sv xs s1 = (r2, s2)"
      by (cases "solver_vars_list sv xs s1")
    have "R s1 s2" by (rule Cons.IH[OF r2]) (rule Cons.prems(2), auto)
    moreover from Cons.prems(1) r1 Inr r2 have "s' = s2" by (auto split: sum.splits)
    ultimately show ?thesis using a trans by blast
  qed
qed

lemma solver_vars_lift:
  assumes refl: "\<And>s. R s s" and trans: "\<And>s s1 s2. R s s1 \<Longrightarrow> R s1 s2 \<Longrightarrow> R s s2"
    and sv: "\<And>x s r s'. sv x s = (r, s') \<Longrightarrow> R s s'"
  shows "solver_vars sv e s = (r, s') \<Longrightarrow> R s s'"
proof (induction e arbitrary: s r s')
  case (ListE xs)
  obtain r1 s1 where r1: "solver_vars_list sv xs s = (r1, s1)"
    by (cases "solver_vars_list sv xs s")
  have "R s s1"
  proof (rule solver_vars_list_lift[where R = R and sv = sv and es = xs, OF _ _ _ r1])
    show "R a a" for a by (rule refl)
    show "R a c" if "R a b" and "R b c" for a b c using that by (rule trans)
    show "R a b" if "x \<in> set xs" and "solver_vars sv x a = (q, b)" for x a q b
      using that by (rule ListE.IH)
  qed
  moreover from ListE.prems r1 have "s' = s1" by (auto split: sum.splits)
  ultimately show ?case by simp
qed (auto dest: sv)

lemma solver_vars_ort_vstep:
  assumes "solver_vars ort_solver_var e s = (r, s')"
  shows "ort_vstep s s'"
proof (rule solver_vars_lift[where R = ort_vstep and sv = ort_solver_var, OF _ _ _ assms])
  show "ort_vstep a a" for a by (rule ort_vstep_refl)
  show "ort_vstep a c" if "ort_vstep a b" and "ort_vstep b c" for a b c
    using that by (rule ort_vstep_trans)
  show "ort_vstep a b" if "ort_solver_var x a = (q, b)" for x a q b
    using that by (rule ort_solver_var_vstep)
qed

lemma solver_vars_list_ort_vstep:
  assumes "solver_vars_list ort_solver_var es s = (rs, s')"
  shows "ort_vstep s s'"
proof (rule solver_vars_list_lift[where R = ort_vstep and sv = ort_solver_var, OF _ _ _ assms])
  show "ort_vstep a a" for a by (rule ort_vstep_refl)
  show "ort_vstep a c" if "ort_vstep a b" and "ort_vstep b c" for a b c
    using that by (rule ort_vstep_trans)
  show "ort_vstep a b" if "solver_vars ort_solver_var x a = (q, b)" for x a q b
    using that by (rule solver_vars_ort_vstep)
qed

lemma ort_solver_var_plain_handle:
  assumes "\<not> is_num v" and "\<not> is_NegBoolView v" and "ort_solver_var v s = (Inr a, s')"
  shows "\<exists>h. a = AVar h \<and> varmap s' v = Some h"
proof (cases "varmap s v")
  case (Some h)
  from assms(3) have "hashable v" by (cases "hashable v") (simp_all add: ort_solver_var_unhashable)
  with Some assms show ?thesis by (simp add: ort_solver_var_cached)
next
  case None
  from assms(3) have hv: "hashable v"
    by (cases "hashable v") (simp_all add: ort_solver_var_unhashable)
  show ?thesis
  proof (cases "plain_var v")
    case False
    with assms(1,2) hv have "unknown_kind v" by (cases v) (auto simp: unknown_kind_def)
    with None assms(3) show ?thesis by (simp add: ort_solver_var_unknown)
  next
    case True
    with ort_plain_case[OF True, of s] None assms(3) show ?thesis by auto
  qed
qed

lemma ort_solver_var_handle:
  assumes "ort_solver_var v s = (Inr a, s')"
  shows "ort_handle s' v = Some a"
proof (cases "is_num v")
  case True
  with assms show ?thesis
    by (cases v) (auto simp add: ort_solver_var_Num ort_solver_var_BoolVal)
next
  case False
  note nn = this
  show ?thesis
  proof (cases "is_NegBoolView v")
    case False
    from ort_solver_var_plain_handle[OF nn False assms] nn False show ?thesis
      by (cases v) auto
  next
    case True
    then obtain n where n: "v = NegBoolView n" by (cases v) auto
    obtain r0 s0 where r0: "ort_solver_var (bv n) s = (r0, s0)" by (cases "ort_solver_var (bv n) s")
    from assms n r0 obtain h where h: "r0 = Inr (AVar h)" "s' = s0" "a = AVar (ort_Not h)"
      by (auto simp: ort_solver_var_Neg split: sum.splits arg.splits)
    have "\<exists>h'. AVar h = AVar h' \<and> varmap s0 (bv n) = Some h'"
      by (rule ort_solver_var_plain_handle[of "bv n" s]) (use r0 h in \<open>simp_all add: bv_def\<close>)
    with h n show ?thesis by simp
  qed
qed

lemma ort_handle_vstep:
  assumes "ort_vstep s s'" and "ort_handle s v = Some a"
  shows "ort_handle s' v = Some a"
proof -
  from assms(1) obtain m cs k where
    a: "s' = s\<lparr> varmap := m, ort_calls := ort_calls s @ cs, num_vars := k \<rparr>"
    and c: "\<forall>v h. varmap s v = Some h \<longrightarrow> m v = Some h"
    unfolding ort_vstep_def by blast
  from assms(2) c show ?thesis unfolding a by (cases v) auto
qed

lemma ort_vstep_fields:
  assumes "ort_vstep s s'"
  shows "user_vars s' = user_vars s" and "cpm_status s' = cpm_status s"
    and "objective_value s' = objective_value s" and "var_value s' = var_value s"
    and "env s' = env s" and "ort_solver s' = ort_solver s" and "ort_status s' = ort_status s"
    and "assumption_dict s' = assumption_dict s"
    and "ort_has_objective s' = ort_has_objective s"
    and "\<exists>cs. ort_calls s' = ort_calls s @ cs \<and> list_all is_new_var_call cs"
proof -
  from assms obtain m cs k where
    a: "s' = s\<lparr> varmap := m, ort_calls := ort_calls s @ cs, num_vars := k \<rparr>"
    and b: "list_all is_new_var_call cs"
    unfolding ort_vstep_def by blast
  have "\<not> list_ex is_objective_call cs"
    using b by (induction cs) (auto elim: is_new_var_call.elims)
  then show "ort_has_objective s' = ort_has_objective s"
    unfolding a ort_has_objective_def by (auto simp: list_ex_iff)
  show "\<exists>cs. ort_calls s' = ort_calls s @ cs \<and> list_all is_new_var_call cs"
    using a b by auto
  show "user_vars s' = user_vars s" by (simp add: a)
  show "cpm_status s' = cpm_status s" by (simp add: a)
  show "objective_value s' = objective_value s" by (simp add: a)
  show "var_value s' = var_value s" by (simp add: a)
  show "env s' = env s" by (simp add: a)
  show "ort_solver s' = ort_solver s" by (simp add: a)
  show "ort_status s' = ort_status s" by (simp add: a)
  show "assumption_dict s' = assumption_dict s" by (simp add: a)
qed

lemma ort_fill_values_frame:
  "ort_fill_values vs s = (r, s') \<Longrightarrow>
     \<exists>s1. ort_vstep s s1 \<and> s' = s1\<lparr> var_value := var_value s' \<rparr>
        \<and> (\<forall>u. u \<notin> set vs \<longrightarrow> var_value s' u = var_value s u)"
proof (induction vs arbitrary: s)
  case Nil
  then show ?case by (auto intro: exI[of _ s] simp: ort_vstep_refl)
next
  case (Cons v vs)
  obtain r1 s1 where r1: "ort_solver_var v s = (r1, s1)" by (cases "ort_solver_var v s")
  have st: "ort_vstep s s1" using r1 by (rule ort_solver_var_vstep)
  note f = ort_vstep_fields[OF st]
  show ?case
  proof (cases r1)
    case (Inl e)
    with Cons.prems r1 have "s' = s1" by simp
    with st f show ?thesis by (auto intro!: exI[of _ s1])
  next
    case (Inr a)
    show ?thesis
    proof (cases "ort_Value (ort_solver s1) a")
      case (Inl e)
      with Cons.prems r1 Inr have "s' = s1" by simp
      with st f show ?thesis by (auto intro!: exI[of _ s1])
    next
      case (Inr x)
      let ?s2 = "s1\<lparr> var_value := (var_value s1)(v := Some (coerce v x)) \<rparr>"
      from Cons.prems r1 \<open>r1 = Inr a\<close> Inr have "ort_fill_values vs ?s2 = (r, s')"
        by (simp add: coerce_def)
      from Cons.IH[OF this] obtain s3 where
        s3: "ort_vstep ?s2 s3" "s' = s3\<lparr> var_value := var_value s' \<rparr>"
          "\<forall>u. u \<notin> set vs \<longrightarrow> var_value s' u = var_value ?s2 u" by blast
      from s3(1) obtain m cs k where
        a: "s3 = ?s2\<lparr> varmap := m, ort_calls := ort_calls ?s2 @ cs, num_vars := k \<rparr>"
        and b: "list_all is_new_var_call cs"
        and c: "\<forall>v h. varmap ?s2 v = Some h \<longrightarrow> m v = Some h"
        unfolding ort_vstep_def by blast
      let ?s4 = "s1\<lparr> varmap := m, ort_calls := ort_calls s1 @ cs, num_vars := k \<rparr>"
      have "ort_vstep s1 ?s4" unfolding ort_vstep_def using b c by auto
      with st have "ort_vstep s ?s4" by (rule ort_vstep_trans)
      moreover have "s' = ?s4\<lparr> var_value := var_value s' \<rparr>" using s3(2) a by simp
      moreover have "\<forall>u. u \<notin> set (v # vs) \<longrightarrow> var_value s' u = var_value s u"
        using s3(3) f(4) by auto
      ultimately show ?thesis by blast
    qed
  qed
qed

lemma ort_fill_values_copies:
  "ort_fill_values vs s = (Inr (), s') \<Longrightarrow>
     \<forall>v\<in>set vs. \<exists>a x. ort_handle s' v = Some a \<and> ort_Value (ort_solver s') a = Inr x
        \<and> var_value s' v = Some (coerce v x)"
proof (induction vs arbitrary: s)
  case Nil
  then show ?case by simp
next
  case (Cons v vs)
  obtain r1 s1 where r1: "ort_solver_var v s = (r1, s1)" by (cases "ort_solver_var v s")
  from Cons.prems r1 obtain a where a: "r1 = Inr a" by (cases r1) auto
  from Cons.prems r1 a obtain x where x: "ort_Value (ort_solver s1) a = Inr x"
    by (cases "ort_Value (ort_solver s1) a") auto
  let ?s2 = "s1\<lparr> var_value := (var_value s1)(v := Some (coerce v x)) \<rparr>"
  from Cons.prems r1 a x have rest: "ort_fill_values vs ?s2 = (Inr (), s')"
    by (simp add: coerce_def)
  note ih = Cons.IH[OF rest]
  from ort_fill_values_frame[OF rest] obtain s3 where
    s3: "ort_vstep ?s2 s3" "s' = s3\<lparr> var_value := var_value s' \<rparr>"
      "\<forall>u. u \<notin> set vs \<longrightarrow> var_value s' u = var_value ?s2 u" by blast
  have h1: "ort_handle ?s2 v = Some a"
    using ort_solver_var_handle[OF r1[unfolded a]] by (cases v) auto
  have "ort_handle s3 v = Some a" using s3(1) h1 by (rule ort_handle_vstep)
  then have h': "ort_handle s' v = Some a" by (subst s3(2)) (cases v; simp)
  have "ort_solver s3 = ort_solver ?s2" using ort_vstep_fields(6)[OF s3(1)] .
  then have sol: "ort_solver s' = ort_solver s1" by (subst s3(2)) simp
  have "\<exists>a x. ort_handle s' v = Some a \<and> ort_Value (ort_solver s') a = Inr x
        \<and> var_value s' v = Some (coerce v x)"
  proof (cases "v \<in> set vs")
    case True
    with ih show ?thesis by blast
  next
    case False
    with s3(3) have "var_value s' v = Some (coerce v x)" by simp
    with h' sol x show ?thesis by auto
  qed
  with ih show ?case by simp
qed

lemma ort_solve_InrE:
  assumes "ort_solve E rl tlimit as cb kw s = (Inr (b, cb'), s')"
  obtains a1 s1 s2 s3 s4 s5 s6 s7 where
    "solver_vars ort_solver_var (ListE (user_vars s)) s = (Inr a1, s1)"
    and "ort_set_time_limit tlimit s1 = (Inr (), s2)"
    and "ort_set_assumptions as s2 = (Inr (), s3)"
    and "ort_set_kwargs kw s3 = (Inr (), s4)"
    and "(if ''log_search_progress'' \<in> fst ` set kw \<and> rl
          then ort_native SetLogCallback else ret ()) s4 = (Inr (), s5)"
    and "ort_Solve E cb s5 = (Inr cb', s6)"
    and "ort_translate_status kw s6 = (Inr (), s7)"
    and "b = solve_return (cpm_status s7)"
    and "ort_translate_solution b s7 = (Inr (), s')"
proof -
  from assms show ?thesis
    unfolding ort_solve_def
    apply (elim bnd_InrE)
    apply (rule that)
            apply assumption+
     apply (simp_all add: ret_def)
    done
qed

lemma ort_set_time_limit_Inr:
  assumes "ort_set_time_limit tlimit s = (Inr u, s')"
  shows "(tlimit = None \<and> s' = s)
    \<or> (\<exists>t. tlimit = Some t \<and> 0 < t \<and> s' = s\<lparr> ort_calls := ort_calls s @ [SetMaxTime t] \<rparr>)"
  using assms
  by (cases tlimit) (auto simp: ort_set_time_limit_def ret_def raise_def ort_native_def split: if_splits)

lemma build_assumption_dict_ran:
  "build_assumption_dict d0 cs os = Inr dd \<Longrightarrow> ran dd \<subseteq> ran d0 \<union> set cs"
proof (induction d0 cs os rule: build_assumption_dict.induct)
  case (1 d cpm_var cs ort_var os)
  from "1.prems" obtain i where i: "Index_of ort_var = Inr i"
    by (cases "Index_of ort_var") auto
  with "1.prems" have "build_assumption_dict (d(i \<mapsto> cpm_var)) cs os = Inr dd" by simp
  from "1.IH"[OF i this] have "ran dd \<subseteq> ran (d(i \<mapsto> cpm_var)) \<union> set cs" .
  moreover have "ran (d(i \<mapsto> cpm_var)) \<subseteq> insert cpm_var (ran d)"
    by (auto simp: ran_def split: if_splits)
  ultimately show ?case by auto
qed auto

lemma ort_set_assumptions_Inr:
  assumes "ort_set_assumptions as s = (Inr u, s')"
  shows "(as = None \<and> s' = s)
    \<or> (\<exists>A s1 d hs. as = Some A \<and> ort_vstep s s1 \<and> ran d \<subseteq> set A
          \<and> s' = s1\<lparr> assumption_dict := Some d,
                ort_calls := ort_calls s1 @ [ClearAssumptions, AddAssumptions hs,
                  SetParameter ''keep_all_feasible_solutions_in_presolve'' (KwBool True)] \<rparr>)"
proof (cases as)
  case None
  with assms show ?thesis by (simp add: ort_set_assumptions_def ret_def)
next
  case (Some A)
  from assms Some obtain vars s1 where
    v: "solver_vars_list ort_solver_var A s = (Inr vars, s1)"
    and r: "(case build_assumption_dict Map.empty A vars of
              Inl e \<Rightarrow> raise e
            | Inr d \<Rightarrow>
                bnd (\<lambda>s. (Inr (), s\<lparr> assumption_dict := Some d \<rparr>)) (\<lambda>_.
                bnd (ort_native ClearAssumptions) (\<lambda>_.
                bnd (ort_native (AddAssumptions (concat (map handle_of vars)))) (\<lambda>_.
                ort_native (SetParameter ''keep_all_feasible_solutions_in_presolve''
                  (KwBool True)))))) s1 = (Inr u, s')"
    unfolding ort_set_assumptions_def by (auto elim: bnd_InrE)
  from r obtain d where d: "build_assumption_dict Map.empty A vars = Inr d"
    by (cases "build_assumption_dict Map.empty A vars") (auto simp: raise_def)
  from r d have "s' = s1\<lparr> assumption_dict := Some d,
                ort_calls := ort_calls s1 @ [ClearAssumptions, AddAssumptions (concat (map handle_of vars)),
                  SetParameter ''keep_all_feasible_solutions_in_presolve'' (KwBool True)] \<rparr>"
    by (simp add: bnd_def ort_native_def)
  moreover have "ran d \<subseteq> set A" using build_assumption_dict_ran[OF d] by simp
  moreover have "ort_vstep s s1" using v by (rule solver_vars_list_ort_vstep)
  ultimately show ?thesis using Some by blast
qed

lemma ort_set_kwargs_eq:
  "ort_set_kwargs kw s = (Inr (), s\<lparr> ort_calls := ort_calls s @ map (\<lambda>(k, v). SetParameter k v) kw \<rparr>)"
  by (induction kw arbitrary: s) (auto simp: ret_def bnd_def ort_native_def)

lemma populate_frame:
  "populate sol vs s = (r, s') \<Longrightarrow> s' = s\<lparr> var_value := var_value s' \<rparr>"
proof (induction vs arbitrary: s)
  case Nil
  then show ?case by simp
next
  case (Cons v vs)
  show ?case
  proof (cases "varmap s v")
    case None
    with Cons.prems show ?thesis by simp
  next
    case (Some h)
    with Cons.prems Cons.IH[of "s\<lparr> var_value := (var_value s)(v :=
                  Some (if is_BoolVarImpl v then BoolValue (sol h \<noteq> 0)
                        else IntValue (sol h))) \<rparr>"]
    show ?thesis by simp
  qed
qed

lemma on_solution_callback_frame:
  assumes "on_solution_callback cb sol s = (r, s')"
  shows "s' = s\<lparr> var_value := var_value s' \<rparr>"
proof -
  let ?cb = "cb\<lparr> solution_count := solution_count cb + 1 \<rparr>"
  obtain r1 s1 where p: "(if length (cb_cpm_vars ?cb) \<noteq> 0 then populate sol (cb_cpm_vars ?cb) s
      else (Inr (), s)) = (r1, s1)" by fastforce
  then have "s1 = s\<lparr> var_value := var_value s1 \<rparr>"
    by (auto split: if_splits dest: populate_frame)
  moreover from assms p have "s' = s1"
    unfolding on_solution_callback_def Let_def by (auto split: sum.splits)
  ultimately show ?thesis by simp
qed

lemma run_callbacks_frame:
  "run_callbacks sols cb s = (r, s') \<Longrightarrow> s' = s\<lparr> var_value := var_value s' \<rparr>"
proof (induction sols arbitrary: cb s)
  case Nil
  then show ?case by simp
next
  case (Cons sol sols)
  obtain r1 s1 where c: "on_solution_callback cb sol s = (r1, s1)"
    by (cases "on_solution_callback cb sol s")
  note f = on_solution_callback_frame[OF c]
  show ?case
  proof (cases r1)
    case (Inl e)
    with Cons.prems c f show ?thesis by simp
  next
    case (Inr p)
    obtain cb1 stop where p: "p = (cb1, stop)" by (cases p)
    show ?thesis
    proof (cases stop)
      case True
      with Cons.prems c Inr p f show ?thesis by simp
    next
      case False
      with Cons.prems c Inr p have "run_callbacks sols cb1 s1 = (r, s')" by simp
      from Cons.IH[OF this] have "s' = s1\<lparr> var_value := var_value s' \<rparr>" .
      then have "s' = (s\<lparr> var_value := var_value s1 \<rparr>)\<lparr> var_value := var_value s' \<rparr>"
        using f by simp
      then show ?thesis by simp
    qed
  qed
qed

lemma ort_Solve_Inr:
  assumes "ort_Solve E cb s = (Inr cb', s')"
  shows "s' = s\<lparr> ort_calls := ort_calls s @ [Solve (cb \<noteq> None)],
               ort_solver := Some (E (ort_calls s @ [Solve (cb \<noteq> None)])),
               var_value := var_value s',
               ort_status := Some (Solve_status (E (ort_calls s @ [Solve (cb \<noteq> None)]))) \<rparr>"
proof (cases cb)
  case None
  with assms have e: "s' = s\<lparr> ort_calls := ort_calls s @ [Solve False],
               ort_solver := Some (E (ort_calls s @ [Solve False])),
               ort_status := Some (Solve_status (E (ort_calls s @ [Solve False]))) \<rparr>"
    by (auto simp: ort_Solve_def Let_def)
  have v: "var_value s' = var_value s" by (subst e) simp
  show ?thesis unfolding v using e None by simp
next
  case (Some c)
  let ?s2 = "s\<lparr> ort_calls := ort_calls s @ [Solve True],
               ort_solver := Some (E (ort_calls s @ [Solve True])) \<rparr>"
  obtain r1 s1 where r: "run_callbacks (callback_solutions (E (ort_calls s @ [Solve True]))) c ?s2 = (r1, s1)"
    by fastforce
  note f = run_callbacks_frame[OF r]
  from assms Some r have "s' = s1\<lparr> ort_status := Some (Solve_status (E (ort_calls s @ [Solve True]))) \<rparr>"
    by (cases r1) (auto simp: ort_Solve_def Let_def)
  then have "s' = (?s2\<lparr> var_value := var_value s1 \<rparr>)\<lparr> ort_status := Some (Solve_status (E (ort_calls s @ [Solve True]))) \<rparr>"
    using f by simp
  with Some show ?thesis by simp
qed

lemma ort_translate_status_Inr:
  assumes "ort_translate_status kw s = (Inr u, s')"
  shows "\<exists>st. s' = s\<lparr> cpm_status := Some st \<rparr>
    \<and> (st = UNSATISFIABLE \<longrightarrow> ort_status s = Some ORT_INFEASIBLE)
    \<and> (ort_status s = Some ORT_INFEASIBLE \<longrightarrow> st = UNSATISFIABLE)
    \<and> (ort_status s = Some ORT_UNKNOWN \<longrightarrow> st = UNKNOWN)
    \<and> (ort_status s = Some ORT_FEASIBLE \<longrightarrow> st = FEASIBLE)
    \<and> (ort_status s = Some ORT_OPTIMAL \<longrightarrow> st = FEASIBLE \<or> st = OPTIMAL)
    \<and> ort_status s \<in> {Some ORT_FEASIBLE, Some ORT_OPTIMAL, Some ORT_INFEASIBLE, Some ORT_UNKNOWN}"
  using assms unfolding ort_translate_status_def Let_def ort_has_objective_def
  by (auto split: if_splits)

lemma clear_values_keep: "g u = None \<Longrightarrow> clear_values ws g u = None"
  by (induction ws arbitrary: g) auto

lemma clear_values_None: "v \<in> set vs \<Longrightarrow> clear_values vs f v = None"
  by (induction vs arbitrary: f) (auto simp: clear_values_keep)

lemma ort_translate_objective_frame:
  "ort_translate_objective s = s\<lparr> objective_value := objective_value (ort_translate_objective s) \<rparr>"
  unfolding ort_translate_objective_def Let_def by (auto split: option.splits)

lemma ort_translate_solution_Inr:
  assumes "ort_translate_solution b s = (Inr u, s')"
  shows "user_vars s' = user_vars s \<and> cpm_status s' = cpm_status s
    \<and> ort_solver s' = ort_solver s \<and> ort_status s' = ort_status s
    \<and> assumption_dict s' = assumption_dict s
    \<and> (\<exists>cs. ort_calls s' = ort_calls s @ cs \<and> list_all is_new_var_call cs)
    \<and> (if b then \<forall>v\<in>set (user_vars s'). \<exists>a x. ort_handle s' v = Some a
            \<and> ort_Value (ort_solver s') a = Inr x \<and> var_value s' v = Some (coerce v x)
        else \<forall>v\<in>set (user_vars s'). var_value s' v = None)"
proof (cases b)
  case False
  with assms show ?thesis
    by (auto simp: ort_translate_solution_def Let_def clear_values_None)
next
  case True
  let ?s0 = "s\<lparr> objective_value := None \<rparr>"
  from assms True obtain s1 where
    f: "ort_fill_values (user_vars s) ?s0 = (Inr (), s1)" and s': "s' = ort_translate_objective s1"
    by (auto simp: ort_translate_solution_def Let_def split: prod.splits sum.splits)
  from ort_fill_values_frame[OF f] obtain s2 where
    s2: "ort_vstep ?s0 s2" "s1 = s2\<lparr> var_value := var_value s1 \<rparr>" by blast
  note g = ort_vstep_fields[OF s2(1)]
  note c = ort_fill_values_copies[OF f]
  have e: "s' = s1\<lparr> objective_value := objective_value s' \<rparr>"
    unfolding s' by (rule ort_translate_objective_frame)
  have u1: "user_vars s1 = user_vars s" by (subst s2(2)) (simp add: g)
  have h: "ort_handle s' v = ort_handle s1 v" for v by (subst e) (cases v; simp)
  have "\<forall>v\<in>set (user_vars s). \<exists>a x. ort_handle s' v = Some a
            \<and> ort_Value (ort_solver s') a = Inr x \<and> var_value s' v = Some (coerce v x)"
  proof
    fix v assume "v \<in> set (user_vars s)"
    with c obtain a x where "ort_handle s1 v = Some a" "ort_Value (ort_solver s1) a = Inr x"
      "var_value s1 v = Some (coerce v x)" by auto
    moreover have "ort_solver s' = ort_solver s1" "var_value s' = var_value s1"
      by (subst e, simp)+
    ultimately show "\<exists>a x. ort_handle s' v = Some a
            \<and> ort_Value (ort_solver s') a = Inr x \<and> var_value s' v = Some (coerce v x)"
      using h by auto
  qed
  moreover have "user_vars s' = user_vars s" by (subst e) (simp add: u1)
  moreover have "cpm_status s' = cpm_status s" by (subst e, subst s2(2)) (simp add: g)
  moreover have "ort_solver s' = ort_solver s" by (subst e, subst s2(2)) (simp add: g)
  moreover have "ort_status s' = ort_status s" by (subst e, subst s2(2)) (simp add: g)
  moreover have "assumption_dict s' = assumption_dict s" by (subst e, subst s2(2)) (simp add: g)
  moreover have "\<exists>cs. ort_calls s' = ort_calls s @ cs \<and> list_all is_new_var_call cs"
  proof -
    from g(10) obtain cs where "ort_calls s2 = ort_calls ?s0 @ cs" "list_all is_new_var_call cs"
      by blast
    moreover have "ort_calls s' = ort_calls s2" by (subst e, subst s2(2)) simp
    ultimately show ?thesis by auto
  qed
  ultimately show ?thesis using True by simp
qed

lemma list_all_new_var_no_Solve: "list_all is_new_var_call cs \<Longrightarrow> list_all (\<lambda>c. \<not> is_Solve c) cs"
  by (induction cs) (auto elim: is_new_var_call.elims)

lemma ort_solve_trace:
  assumes "ort_solve E rl tlimit as cb kw s = (Inr (b, cb'), s')"
  shows "user_vars s' = user_vars s"
    and "b = solve_return (cpm_status s')"
    and "\<exists>pre post. ort_calls s' = ort_calls s @ pre @ [Solve (cb \<noteq> None)] @ post
           \<and> list_all (\<lambda>c. \<not> is_Solve c) pre \<and> list_all is_new_var_call post
           \<and> (\<forall>k v. (k, v) \<in> set kw \<longrightarrow> SetParameter k v \<in> set pre)
           \<and> ort_solver s' = Some (E (ort_calls s @ pre @ [Solve (cb \<noteq> None)]))
           \<and> ort_status s' = Some (Solve_status (E (ort_calls s @ pre @ [Solve (cb \<noteq> None)])))"
    and "tlimit = None \<or> (\<exists>t. tlimit = Some t \<and> 0 < t)"
    and "case as of None \<Rightarrow> assumption_dict s' = assumption_dict s
           | Some A \<Rightarrow> \<exists>d. assumption_dict s' = Some d \<and> ran d \<subseteq> set A"
    and "\<exists>st. cpm_status s' = Some st
           \<and> (st = UNSATISFIABLE \<longrightarrow> ort_status s' = Some ORT_INFEASIBLE)
           \<and> (ort_status s' = Some ORT_INFEASIBLE \<longrightarrow> st = UNSATISFIABLE)
           \<and> (ort_status s' = Some ORT_UNKNOWN \<longrightarrow> st = UNKNOWN)
           \<and> (ort_status s' = Some ORT_FEASIBLE \<longrightarrow> st = FEASIBLE)
           \<and> (ort_status s' = Some ORT_OPTIMAL \<longrightarrow> st = FEASIBLE \<or> st = OPTIMAL)
           \<and> ort_status s' \<in> {Some ORT_FEASIBLE, Some ORT_OPTIMAL, Some ORT_INFEASIBLE, Some ORT_UNKNOWN}"
    and "if b then \<forall>v\<in>set (user_vars s'). \<exists>a x. ort_handle s' v = Some a
            \<and> ort_Value (ort_solver s') a = Inr x \<and> var_value s' v = Some (coerce v x)
         else \<forall>v\<in>set (user_vars s'). var_value s' v = None"
proof -
  from assms obtain a1 s1 s2 s3 s4 s5 s6 s7 where
    p1: "solver_vars ort_solver_var (ListE (user_vars s)) s = (Inr a1, s1)"
    and p2: "ort_set_time_limit tlimit s1 = (Inr (), s2)"
    and p3: "ort_set_assumptions as s2 = (Inr (), s3)"
    and p4: "ort_set_kwargs kw s3 = (Inr (), s4)"
    and p5: "(if ''log_search_progress'' \<in> fst ` set kw \<and> rl
          then ort_native SetLogCallback else ret ()) s4 = (Inr (), s5)"
    and p6: "ort_Solve E cb s5 = (Inr cb', s6)"
    and p7: "ort_translate_status kw s6 = (Inr (), s7)"
    and p8: "b = solve_return (cpm_status s7)"
    and p9: "ort_translate_solution b s7 = (Inr (), s')"
    by (rule ort_solve_InrE)
  note f1 = ort_vstep_fields[OF solver_vars_ort_vstep[OF p1]]
  from f1(10) obtain c1 where c1: "ort_calls s1 = ort_calls s @ c1" "list_all is_new_var_call c1"
    by blast
  note t2 = ort_set_time_limit_Inr[OF p2]
  have "\<exists>c2. s2 = s1\<lparr> ort_calls := ort_calls s1 @ c2 \<rparr> \<and> list_all (\<lambda>c. \<not> is_Solve c) c2"
  proof (cases tlimit)
    case None
    with t2 have "s2 = s1\<lparr> ort_calls := ort_calls s1 @ [] \<rparr>" by simp
    then show ?thesis by (intro exI[of _ "[]"]) simp
  next
    case (Some t)
    with t2 have "s2 = s1\<lparr> ort_calls := ort_calls s1 @ [SetMaxTime t] \<rparr>" by simp
    then show ?thesis by (intro exI[of _ "[SetMaxTime t]"]) simp
  qed
  then obtain c2 where c2: "s2 = s1\<lparr> ort_calls := ort_calls s1 @ c2 \<rparr>"
      "list_all (\<lambda>c. \<not> is_Solve c) c2"
    by blast
  from t2 show "tlimit = None \<or> (\<exists>t. tlimit = Some t \<and> 0 < t)" by auto
  note t3 = ort_set_assumptions_Inr[OF p3]
  have "\<exists>c3. ort_calls s3 = ort_calls s2 @ c3 \<and> list_all (\<lambda>c. \<not> is_Solve c) c3
      \<and> user_vars s3 = user_vars s2
      \<and> (case as of None \<Rightarrow> assumption_dict s3 = assumption_dict s2
           | Some A \<Rightarrow> \<exists>d. assumption_dict s3 = Some d \<and> ran d \<subseteq> set A)"
  proof (cases as)
    case None
    with t3 have "s3 = s2" by simp
    with None show ?thesis by simp
  next
    case (Some A)
    with t3 obtain s2' d hs where v: "ort_vstep s2 s2'" and r: "ran d \<subseteq> set A"
      and e: "s3 = s2'\<lparr> assumption_dict := Some d,
                ort_calls := ort_calls s2' @ [ClearAssumptions, AddAssumptions hs,
                  SetParameter ''keep_all_feasible_solutions_in_presolve'' (KwBool True)] \<rparr>"
      by auto
    note g = ort_vstep_fields[OF v]
    from g(10) obtain cs where cs: "ort_calls s2' = ort_calls s2 @ cs" "list_all is_new_var_call cs"
      by blast
    have "ort_calls s3 = ort_calls s2 @ (cs @ [ClearAssumptions, AddAssumptions hs,
                  SetParameter ''keep_all_feasible_solutions_in_presolve'' (KwBool True)])"
      using e cs by simp
    moreover have "list_all (\<lambda>c. \<not> is_Solve c) (cs @ [ClearAssumptions, AddAssumptions hs,
                  SetParameter ''keep_all_feasible_solutions_in_presolve'' (KwBool True)])"
      using list_all_new_var_no_Solve[OF cs(2)] by simp
    moreover have "user_vars s3 = user_vars s2" using e g by simp
    moreover have "assumption_dict s3 = Some d" using e by simp
    ultimately show ?thesis using Some r by auto
  qed
  then obtain c3 where c3: "ort_calls s3 = ort_calls s2 @ c3" "list_all (\<lambda>c. \<not> is_Solve c) c3"
      "user_vars s3 = user_vars s2"
      "case as of None \<Rightarrow> assumption_dict s3 = assumption_dict s2
           | Some A \<Rightarrow> \<exists>d. assumption_dict s3 = Some d \<and> ran d \<subseteq> set A"
    by blast
  from p4 have e4: "s4 = s3\<lparr> ort_calls := ort_calls s3 @ map (\<lambda>(k, v). SetParameter k v) kw \<rparr>"
    by (simp add: ort_set_kwargs_eq)
  have "\<exists>c5. s5 = s4\<lparr> ort_calls := ort_calls s4 @ c5 \<rparr> \<and> list_all (\<lambda>c. \<not> is_Solve c) c5"
  proof (cases "''log_search_progress'' \<in> fst ` set kw \<and> rl")
    case True
    with p5 have "s5 = s4\<lparr> ort_calls := ort_calls s4 @ [SetLogCallback] \<rparr>"
      by (simp add: ort_native_def)
    then show ?thesis by (intro exI[of _ "[SetLogCallback]"]) simp
  next
    case False
    with p5 have "s5 = s4\<lparr> ort_calls := ort_calls s4 @ [] \<rparr>"
      by (simp add: ret_def)
    then show ?thesis by (intro exI[of _ "[]"]) simp
  qed
  then obtain c5 where c5: "s5 = s4\<lparr> ort_calls := ort_calls s4 @ c5 \<rparr>"
      "list_all (\<lambda>c. \<not> is_Solve c) c5"
    by blast
  let ?pre = "c1 @ c2 @ c3 @ map (\<lambda>(k, v). SetParameter k v) kw @ c5"
  have pre: "ort_calls s5 = ort_calls s @ ?pre" using c1 c2 c3 e4 c5 by simp
  have kw_ok: "list_all (\<lambda>c. \<not> is_Solve c) (map (\<lambda>(k, v). SetParameter k v) kw)"
    by (induction kw) auto
  have pre_ok: "list_all (\<lambda>c. \<not> is_Solve c) ?pre"
    using list_all_new_var_no_Solve[OF c1(2)] c2(2) c3(2) c5(2) kw_ok
    by simp
  have kw_in: "SetParameter k v \<in> set (map (\<lambda>(k, v). SetParameter k v) kw)"
    if "(k, v) \<in> set kw" for k v
  proof -
    from that have "(\<lambda>(k, v). SetParameter k v) (k, v) \<in> (\<lambda>(k, v). SetParameter k v) ` set kw"
      by (rule imageI)
    then show ?thesis by simp
  qed
  have pre_kw: "\<forall>k v. (k, v) \<in> set kw \<longrightarrow> SetParameter k v \<in> set ?pre"
    using kw_in by simp
  note e6 = ort_Solve_Inr[OF p6]
  from ort_translate_status_Inr[OF p7] obtain st where
    e7: "s7 = s6\<lparr> cpm_status := Some st \<rparr>"
    and st: "st = UNSATISFIABLE \<longrightarrow> ort_status s6 = Some ORT_INFEASIBLE"
      "ort_status s6 = Some ORT_INFEASIBLE \<longrightarrow> st = UNSATISFIABLE"
      "ort_status s6 = Some ORT_UNKNOWN \<longrightarrow> st = UNKNOWN"
      "ort_status s6 = Some ORT_FEASIBLE \<longrightarrow> st = FEASIBLE"
      "ort_status s6 = Some ORT_OPTIMAL \<longrightarrow> st = FEASIBLE \<or> st = OPTIMAL"
      "ort_status s6 \<in> {Some ORT_FEASIBLE, Some ORT_OPTIMAL, Some ORT_INFEASIBLE, Some ORT_UNKNOWN}"
    by blast
  note t9 = ort_translate_solution_Inr[OF p9]
  have u5: "user_vars s5 = user_vars s" using f1(1) c2(1) c3(3) e4 c5(1) by simp
  have u6: "user_vars s6 = user_vars s5" by (subst e6) simp
  have u7: "user_vars s7 = user_vars s" using e7 u6 u5 by simp
  with t9 show "user_vars s' = user_vars s" by simp
  have cs7: "cpm_status s7 = Some st" using e7 by simp
  with t9 p8 show "b = solve_return (cpm_status s')" by simp
  have os6: "ort_status s6 = Some (Solve_status (E (ort_calls s5 @ [Solve (cb \<noteq> None)])))"
    by (subst e6) simp
  have sv6: "ort_solver s6 = Some (E (ort_calls s5 @ [Solve (cb \<noteq> None)]))"
    by (subst e6) simp
  have oc6: "ort_calls s6 = ort_calls s5 @ [Solve (cb \<noteq> None)]"
    by (subst e6) simp
  have os': "ort_status s' = ort_status s6" using t9 e7 by simp
  have sv': "ort_solver s' = ort_solver s6" using t9 e7 by simp
  from t9 obtain post where post: "ort_calls s' = ort_calls s7 @ post" "list_all is_new_var_call post"
    by blast
  have "ort_calls s' = ort_calls s @ ?pre @ [Solve (cb \<noteq> None)] @ post"
    using post(1) e7 oc6 pre by simp
  with pre_ok post(2) pre_kw os' sv' os6 sv6 pre
  show "\<exists>pre post. ort_calls s' = ort_calls s @ pre @ [Solve (cb \<noteq> None)] @ post
           \<and> list_all (\<lambda>c. \<not> is_Solve c) pre \<and> list_all is_new_var_call post
           \<and> (\<forall>k v. (k, v) \<in> set kw \<longrightarrow> SetParameter k v \<in> set pre)
           \<and> ort_solver s' = Some (E (ort_calls s @ pre @ [Solve (cb \<noteq> None)]))
           \<and> ort_status s' = Some (Solve_status (E (ort_calls s @ pre @ [Solve (cb \<noteq> None)])))"
    by (intro exI[of _ ?pre] exI[of _ post]) simp
  have ad6: "assumption_dict s6 = assumption_dict s5" by (subst e6) simp
  have ad': "assumption_dict s' = assumption_dict s3" using t9 e7 ad6 c5(1) e4 by simp
  have ad2: "assumption_dict s2 = assumption_dict s" using c2(1) f1(8) by simp
  from c3(4) ad' ad2
  show "case as of None \<Rightarrow> assumption_dict s' = assumption_dict s
           | Some A \<Rightarrow> \<exists>d. assumption_dict s' = Some d \<and> ran d \<subseteq> set A"
    by (cases as) auto
  have cs': "cpm_status s' = Some st" using t9 cs7 by simp
  note st' = st[folded os']
  show "\<exists>st. cpm_status s' = Some st
           \<and> (st = UNSATISFIABLE \<longrightarrow> ort_status s' = Some ORT_INFEASIBLE)
           \<and> (ort_status s' = Some ORT_INFEASIBLE \<longrightarrow> st = UNSATISFIABLE)
           \<and> (ort_status s' = Some ORT_UNKNOWN \<longrightarrow> st = UNKNOWN)
           \<and> (ort_status s' = Some ORT_FEASIBLE \<longrightarrow> st = FEASIBLE)
           \<and> (ort_status s' = Some ORT_OPTIMAL \<longrightarrow> st = FEASIBLE \<or> st = OPTIMAL)
           \<and> ort_status s' \<in> {Some ORT_FEASIBLE, Some ORT_OPTIMAL, Some ORT_INFEASIBLE, Some ORT_UNKNOWN}"
    by (rule exI[of _ st]) (use cs' st' in blast)
  from t9 show "if b then \<forall>v\<in>set (user_vars s'). \<exists>a x. ort_handle s' v = Some a
            \<and> ort_Value (ort_solver s') a = Inr x \<and> var_value s' v = Some (coerce v x)
         else \<forall>v\<in>set (user_vars s'). var_value s' v = None"
    by (elim conjE) assumption
qed

section \<open>Solving with Pumpkin\<close>

lemma pum_vstep_refl: "pum_vstep s s"
  unfolding pum_vstep_def
  by (rule exI[of _ "varmap s"], rule exI[of _ "[]"], rule exI[of _ "pum_num_vars s"],
      rule exI[of _ "env s"]) simp

lemma pum_vstep_trans:
  assumes "pum_vstep s s1" and "pum_vstep s1 s2"
  shows "pum_vstep s s2"
proof -
  from assms(1) obtain m cs k e where
    a: "s1 = s\<lparr> varmap := m, env := e, pum_calls := pum_calls s @ cs, pum_num_vars := k \<rparr>"
    and b: "list_all (\<lambda>c. \<not> is_solve_call c) cs"
    and c: "\<forall>v h. varmap s v = Some h \<longrightarrow> m v = Some h"
    unfolding pum_vstep_def by blast
  from assms(2) obtain m' cs' k' e' where
    a': "s2 = s1\<lparr> varmap := m', env := e', pum_calls := pum_calls s1 @ cs', pum_num_vars := k' \<rparr>"
    and b': "list_all (\<lambda>c. \<not> is_solve_call c) cs'"
    and c': "\<forall>v h. varmap s1 v = Some h \<longrightarrow> m' v = Some h"
    unfolding pum_vstep_def by blast
  have "s2 = s\<lparr> varmap := m', env := e', pum_calls := pum_calls s @ (cs @ cs'), pum_num_vars := k' \<rparr>"
    using a a' by simp
  moreover have "list_all (\<lambda>c. \<not> is_solve_call c) (cs @ cs')" using b b' by simp
  moreover have "\<forall>v h. varmap s v = Some h \<longrightarrow> m' v = Some h" using c c' a by simp
  ultimately show ?thesis unfolding pum_vstep_def by blast
qed

lemma pum_vstep_fields:
  assumes "pum_vstep s s'"
  shows "user_vars s' = user_vars s" and "cpm_status s' = cpm_status s"
    and "objective_value s' = objective_value s" and "var_value s' = var_value s"
    and "prefix s' = prefix s" and "objective s' = objective s"
    and "objective_is_min s' = objective_is_min s" and "user_cons s' = user_cons s"
    and "pum_core s' = pum_core s" and "assump_map s' = assump_map s"
    and "\<exists>cs. pum_calls s' = pum_calls s @ cs \<and> list_all (\<lambda>c. \<not> is_solve_call c) cs"
proof -
  from assms obtain m cs k e where
    a: "s' = s\<lparr> varmap := m, env := e, pum_calls := pum_calls s @ cs, pum_num_vars := k \<rparr>"
    and b: "list_all (\<lambda>c. \<not> is_solve_call c) cs"
    unfolding pum_vstep_def by blast
  show "\<exists>cs. pum_calls s' = pum_calls s @ cs \<and> list_all (\<lambda>c. \<not> is_solve_call c) cs"
    using a b by auto
  show "user_vars s' = user_vars s" by (simp add: a)
  show "cpm_status s' = cpm_status s" by (simp add: a)
  show "objective_value s' = objective_value s" by (simp add: a)
  show "var_value s' = var_value s" by (simp add: a)
  show "prefix s' = prefix s" by (simp add: a)
  show "objective s' = objective s" by (simp add: a)
  show "objective_is_min s' = objective_is_min s" by (simp add: a)
  show "user_cons s' = user_cons s" by (simp add: a)
  show "pum_core s' = pum_core s" by (simp add: a)
  show "assump_map s' = assump_map s" by (simp add: a)
qed

lemma pum_solver_var_plain_vstep:
  assumes "\<not> is_num v" and "\<not> is_NegBoolView v" and "pum_solver_var v s = (r, s')"
  shows "pum_vstep s s'"
proof (cases "varmap s v = None \<or> \<not> hashable v")
  case False
  then obtain h where "varmap s v = Some h" and "hashable v" by auto
  with assms have "s' = s" by (simp add: pum_solver_var_cached)
  then show ?thesis by (simp add: pum_vstep_refl)
next
  case True
  show ?thesis
  proof (cases "hashable v")
    case False
    with assms(3) have "s' = s" by (simp add: pum_solver_var_unhashable)
    then show ?thesis by (simp add: pum_vstep_refl)
  next
    case hv: True
    with True have None: "varmap s v = None" by simp
  show ?thesis
  proof (cases "plain_var v")
    case False
    with assms(1,2) hv have "unknown_kind v" by (cases v) (auto simp: unknown_kind_def)
    with None assms(3) have "s' = s" by (simp add: pum_solver_var_unknown)
    then show ?thesis by (simp add: pum_vstep_refl)
  next
    case True
    with pum_plain_case[OF True, of s] None assms(3)
    have s': "s' = s\<lparr> pum_calls := pum_calls s @ [pum_new_call v],
                   pum_num_vars := Suc (pum_num_vars s),
                   varmap := (varmap s)(v \<mapsto> pum_new_handle v (pum_num_vars s)) \<rparr>" by simp
    have "\<not> is_solve_call (pum_new_call v)" using True by (cases v) auto
    with None show ?thesis unfolding pum_vstep_def s'
      by (intro exI[of _ "(varmap s)(v \<mapsto> pum_new_handle v (pum_num_vars s))"]
            exI[of _ "[pum_new_call v]"] exI[of _ "Suc (pum_num_vars s)"] exI[of _ "env s"]) auto
  qed
  qed
qed

lemma pum_solver_var_vstep:
  assumes "pum_solver_var v s = (r, s')"
  shows "pum_vstep s s'"
proof (cases "is_num v")
  case True
  with assms show ?thesis
    by (cases v) (simp_all add: pum_solver_var_Num pum_solver_var_BoolVal pum_vstep_refl)
next
  case False
  note nn = this
  show ?thesis
  proof (cases "is_NegBoolView v")
    case False
    show ?thesis by (rule pum_solver_var_plain_vstep[OF nn False assms])
  next
    case True
    then obtain n where n: "v = NegBoolView n" by (cases v) auto
    obtain r0 s0 where r0: "pum_solver_var (bv n) s = (r0, s0)" by (cases "pum_solver_var (bv n) s")
    have "pum_vstep s s0" by (rule pum_solver_var_plain_vstep[OF _ _ r0]) (simp_all add: bv_def)
    moreover from assms n r0 have "s' = s0"
      by (auto simp: pum_solver_var_Neg split: sum.splits arg.splits pum_handle.splits)
    ultimately show ?thesis by simp
  qed
qed

lemma solver_vars_pum_vstep:
  assumes "solver_vars pum_solver_var e s = (r, s')"
  shows "pum_vstep s s'"
proof (rule solver_vars_lift[where R = pum_vstep and sv = pum_solver_var, OF _ _ _ assms])
  show "pum_vstep a a" for a by (rule pum_vstep_refl)
  show "pum_vstep a c" if "pum_vstep a b" and "pum_vstep b c" for a b c
    using that by (rule pum_vstep_trans)
  show "pum_vstep a b" if "pum_solver_var x a = (q, b)" for x a q b
    using that by (rule pum_solver_var_vstep)
qed

lemma intvar_pum_vstep: "intvar lb ub s = (r, s') \<Longrightarrow> pum_vstep s s'"
  unfolding intvar_def pum_vstep_def
  by (auto intro!: exI[of _ "varmap s"] exI[of _ "[]"] exI[of _ "pum_num_vars s"])

lemma ivars_plain_pum_vstep:
  assumes "\<And>xs. v \<noteq> ListE xs" and "ivars v s = (r, s')"
  shows "pum_vstep s s'"
proof (cases "is_BoolVarImpl v")
  case True
  obtain r1 s1 where r1: "pum_solver_var v s = (r1, s1)" by (cases "pum_solver_var v s")
  have "pum_vstep s s1" using r1 by (rule pum_solver_var_vstep)
  moreover from assms r1 True have "s' = s1"
    by (cases v) (auto split: sum.splits)
  ultimately show ?thesis by simp
next
  case False
  note nb = this
  show ?thesis
  proof (cases "is_num v")
    case True
    define c where "c = const_int v"
    obtain r1 s1 where r1: "intvar c c s = (r1, s1)" by (cases "intvar c c s")
    have a: "pum_vstep s s1" using r1 by (rule intvar_pum_vstep)
    from r1 obtain x where x: "r1 = Inr x" by (auto simp: intvar_def)
    from assms(2) True nb r1 x have "pum_solver_var x s1 = (r, s')"
      by (cases v) (simp_all add: c_def)
    then have "pum_vstep s1 s'" by (rule pum_solver_var_vstep)
    with a show ?thesis by (rule pum_vstep_trans)
  next
    case False
    with nb assms have "pum_solver_var v s = (r, s')" by (cases v) auto
    then show ?thesis by (rule pum_solver_var_vstep)
  qed
qed

lemma ivars_list_lift:
  assumes el: "\<And>x s r s'. x \<in> set es \<Longrightarrow> ivars x s = (r, s') \<Longrightarrow> pum_vstep s s'"
  shows "ivars_list es s = (rs, s') \<Longrightarrow> pum_vstep s s'"
  using el
proof (induction es arbitrary: s rs s')
  case Nil
  then show ?case by (simp add: pum_vstep_refl)
next
  case (Cons x xs)
  obtain r1 s1 where r1: "ivars x s = (r1, s1)" by (cases "ivars x s")
  have a: "pum_vstep s s1" by (rule Cons.prems(2)[OF _ r1]) simp
  show ?case
  proof (cases r1)
    case (Inl e)
    with Cons.prems(1) r1 a show ?thesis by simp
  next
    case (Inr y)
    obtain r2 s2 where r2: "ivars_list xs s1 = (r2, s2)" by (cases "ivars_list xs s1")
    have "pum_vstep s1 s2" by (rule Cons.IH[OF r2]) (rule Cons.prems(2), auto)
    moreover from Cons.prems(1) r1 Inr r2 have "s' = s2" by (auto split: sum.splits)
    ultimately show ?thesis using a pum_vstep_trans by blast
  qed
qed

lemma ivars_pum_vstep: "ivars e s = (r, s') \<Longrightarrow> pum_vstep s s'"
proof (induction e arbitrary: s r s')
  case (ListE xs)
  obtain r1 s1 where r1: "ivars_list xs s = (r1, s1)" by (cases "ivars_list xs s")
  have "pum_vstep s s1"
  proof (rule ivars_list_lift[OF _ r1])
    show "pum_vstep a b" if "x \<in> set xs" and "ivars x a = (q, b)" for x a q b
      using that by (rule ListE.IH)
  qed
  moreover from ListE.prems r1 have "s' = s1" by (auto split: sum.splits)
  ultimately show ?case by simp
qed (erule ivars_plain_pum_vstep[rotated]; simp)+

lemma make_predicate_pum_vstep: "make_predicate lhs cr s = (r, s') \<Longrightarrow> pum_vstep s s'"
proof -
  assume a: "make_predicate lhs cr s = (r, s')"
  obtain r1 s1 where r1: "ivars lhs s = (r1, s1)" by (cases "ivars lhs s")
  have "pum_vstep s s1" using r1 by (rule ivars_pum_vstep)
  moreover from a r1 have "s' = s1"
    unfolding make_predicate_def
    by (auto split: sum.splits option.splits prod.splits arg.splits pum_handle.splits)
  ultimately show ?thesis by simp
qed

lemma make_predicate_refused_pum_vstep:
  assumes "bnd (make_predicate lhs cr) (\<lambda>_. raise TypeError) s = (r, s')"
  shows "pum_vstep s s'"
proof -
  obtain r1 s1 where r1: "make_predicate lhs cr s = (r1, s1)" by (cases "make_predicate lhs cr s")
  from assms r1 have "s' = s1" by (cases r1) (simp_all add: bnd_def raise_def)
  with make_predicate_pum_vstep[OF r1] show ?thesis by simp
qed

lemma to_predicate_pum_vstep: "to_predicate e s = (r, s') \<Longrightarrow> pum_vstep s s'"
  unfolding to_predicate_def
  by (auto simp: raise_def pum_vstep_refl
        split: if_splits expr.splits list.splits sum.splits
        dest: make_predicate_pum_vstep make_predicate_refused_pum_vstep)

lemma mapM_pum_vstep:
  assumes "\<And>x s r s'. f x s = (r, s') \<Longrightarrow> pum_vstep s s'"
  shows "mapM f xs s = (rs, s') \<Longrightarrow> pum_vstep s s'"
proof (induction xs arbitrary: s rs s')
  case Nil
  then show ?case by (simp add: ret_def pum_vstep_refl)
next
  case (Cons x xs)
  obtain r1 s1 where r1: "f x s = (r1, s1)" by (cases "f x s")
  have a: "pum_vstep s s1" using r1 by (rule assms)
  show ?case
  proof (cases r1)
    case (Inl e)
    with Cons.prems r1 a show ?thesis by (simp add: bnd_def)
  next
    case (Inr y)
    obtain r2 s2 where r2: "mapM f xs s1 = (r2, s2)" by (cases "mapM f xs s1")
    have "pum_vstep s1 s2" using r2 by (rule Cons.IH)
    moreover from Cons.prems r1 Inr r2 have "s' = s2"
      by (auto simp: bnd_def ret_def split: sum.splits)
    ultimately show ?thesis using a pum_vstep_trans by blast
  qed
qed

lemma pum_solver_var_plain_handle:
  assumes "\<not> is_num v" and "\<not> is_NegBoolView v" and "pum_solver_var v s = (Inr a, s')"
  shows "\<exists>h. a = AVar h \<and> varmap s' v = Some h"
proof (cases "varmap s v")
  case (Some h)
  from assms(3) have "hashable v" by (cases "hashable v") (simp_all add: pum_solver_var_unhashable)
  with Some assms show ?thesis by (simp add: pum_solver_var_cached)
next
  case None
  from assms(3) have hv: "hashable v"
    by (cases "hashable v") (simp_all add: pum_solver_var_unhashable)
  show ?thesis
  proof (cases "plain_var v")
    case False
    with assms(1,2) hv have "unknown_kind v" by (cases v) (auto simp: unknown_kind_def)
    with None assms(3) show ?thesis by (simp add: pum_solver_var_unknown)
  next
    case True
    with pum_plain_case[OF True, of s] None assms(3) show ?thesis by auto
  qed
qed

lemma pum_solver_var_handle:
  assumes "pum_solver_var v s = (Inr a, s')"
  shows "pum_handle_of s' v = Some a"
proof (cases "is_num v")
  case True
  with assms show ?thesis
    by (cases v) (auto simp add: pum_solver_var_Num pum_solver_var_BoolVal)
next
  case False
  note nn = this
  show ?thesis
  proof (cases "is_NegBoolView v")
    case False
    from pum_solver_var_plain_handle[OF nn False assms] nn False show ?thesis
      by (cases v) auto
  next
    case True
    then obtain n where n: "v = NegBoolView n" by (cases v) auto
    obtain r0 s0 where r0: "pum_solver_var (bv n) s = (r0, s0)" by (cases "pum_solver_var (bv n) s")
    from assms n r0 obtain b where h: "r0 = Inr (AVar (PumpkinBool b))" "s' = s0"
        "a = AVar (PumpkinBool (Negated b))"
      by (auto simp: pum_solver_var_Neg split: sum.splits arg.splits pum_handle.splits)
    have "\<exists>h'. AVar (PumpkinBool b) = AVar h' \<and> varmap s0 (bv n) = Some h'"
      by (rule pum_solver_var_plain_handle[of "bv n" s]) (use r0 h in \<open>simp_all add: bv_def\<close>)
    with h n show ?thesis by simp
  qed
qed

lemma pum_handle_of_vstep:
  assumes "pum_vstep s s'" and "pum_handle_of s v = Some a"
  shows "pum_handle_of s' v = Some a"
proof -
  from assms(1) obtain m cs k e where
    a: "s' = s\<lparr> varmap := m, env := e, pum_calls := pum_calls s @ cs, pum_num_vars := k \<rparr>"
    and c: "\<forall>v h. varmap s v = Some h \<longrightarrow> m v = Some h"
    unfolding pum_vstep_def by blast
  from assms(2) c show ?thesis unfolding a
    by (cases v) (auto split: option.splits pum_handle.splits)
qed

lemma pum_fill_values_frame:
  "pum_fill_values sol vs s = (r, s') \<Longrightarrow>
     \<exists>s1. pum_vstep s s1 \<and> s' = s1\<lparr> var_value := var_value s' \<rparr>
        \<and> (\<forall>u. u \<notin> set vs \<longrightarrow> var_value s' u = var_value s u)"
proof (induction vs arbitrary: s)
  case Nil
  then show ?case by (auto intro: exI[of _ s] simp: pum_vstep_refl)
next
  case (Cons v vs)
  obtain r1 s1 where r1: "pum_solver_var v s = (r1, s1)" by (cases "pum_solver_var v s")
  have st: "pum_vstep s s1" using r1 by (rule pum_solver_var_vstep)
  note f = pum_vstep_fields[OF st]
  show ?case
  proof (cases "\<exists>a x. r1 = Inr a \<and> pum_value sol a = Some x")
    case False
    with Cons.prems r1 have "s' = s1"
      by (cases r1) (auto split: arg.splits pum_handle.splits)
    with st f show ?thesis by (auto intro!: exI[of _ s1])
  next
    case True
    then obtain a x where ax: "r1 = Inr a" "pum_value sol a = Some x" by blast
    let ?s2 = "s1\<lparr> var_value := (var_value s1)(v := Some x) \<rparr>"
    from Cons.prems r1 ax have "pum_fill_values sol vs ?s2 = (r, s')"
      by (auto split: arg.splits pum_handle.splits)
    from Cons.IH[OF this] obtain s3 where
      s3: "pum_vstep ?s2 s3" "s' = s3\<lparr> var_value := var_value s' \<rparr>"
        "\<forall>u. u \<notin> set vs \<longrightarrow> var_value s' u = var_value ?s2 u" by blast
    from s3(1) obtain m cs k e where
      a: "s3 = ?s2\<lparr> varmap := m, env := e, pum_calls := pum_calls ?s2 @ cs, pum_num_vars := k \<rparr>"
      and b: "list_all (\<lambda>c. \<not> is_solve_call c) cs"
      and c: "\<forall>v h. varmap ?s2 v = Some h \<longrightarrow> m v = Some h"
      unfolding pum_vstep_def by blast
    let ?s4 = "s1\<lparr> varmap := m, env := e, pum_calls := pum_calls s1 @ cs, pum_num_vars := k \<rparr>"
    have "pum_vstep s1 ?s4" unfolding pum_vstep_def using b c by auto
    with st have "pum_vstep s ?s4" by (rule pum_vstep_trans)
    moreover have "s' = ?s4\<lparr> var_value := var_value s' \<rparr>" using s3(2) a by simp
    moreover have "\<forall>u. u \<notin> set (v # vs) \<longrightarrow> var_value s' u = var_value s u"
      using s3(3) f(4) by auto
    ultimately show ?thesis by blast
  qed
qed

lemma pum_fill_values_copies:
  "pum_fill_values sol vs s = (Inr (), s') \<Longrightarrow>
     \<forall>v\<in>set vs. \<exists>a x. pum_handle_of s' v = Some a \<and> pum_value sol a = Some x
        \<and> var_value s' v = Some x"
proof (induction vs arbitrary: s)
  case Nil
  then show ?case by simp
next
  case (Cons v vs)
  obtain r1 s1 where r1: "pum_solver_var v s = (r1, s1)" by (cases "pum_solver_var v s")
  from Cons.prems r1 obtain a where a: "r1 = Inr a" by (cases r1) auto
  from Cons.prems r1 a obtain x where x: "pum_value sol a = Some x"
    by (cases "pum_value sol a") (auto split: arg.splits pum_handle.splits)
  let ?s2 = "s1\<lparr> var_value := (var_value s1)(v := Some x) \<rparr>"
  from Cons.prems r1 a x have rest: "pum_fill_values sol vs ?s2 = (Inr (), s')"
    by (auto split: arg.splits pum_handle.splits)
  note ih = Cons.IH[OF rest]
  from pum_fill_values_frame[OF rest] obtain s3 where
    s3: "pum_vstep ?s2 s3" "s' = s3\<lparr> var_value := var_value s' \<rparr>"
      "\<forall>u. u \<notin> set vs \<longrightarrow> var_value s' u = var_value ?s2 u" by blast
  have h1: "pum_handle_of ?s2 v = Some a"
    using pum_solver_var_handle[OF r1[unfolded a]] by (cases v) auto
  have "pum_handle_of s3 v = Some a" using s3(1) h1 by (rule pum_handle_of_vstep)
  then have h': "pum_handle_of s' v = Some a" by (subst s3(2)) (cases v; simp)
  have "\<exists>a x. pum_handle_of s' v = Some a \<and> pum_value sol a = Some x
        \<and> var_value s' v = Some x"
  proof (cases "v \<in> set vs")
    case True
    with ih show ?thesis by blast
  next
    case False
    with s3(3) have "var_value s' v = Some x" by simp
    with h' x show ?thesis by auto
  qed
  with ih show ?case by simp
qed

lemma pum_choose_Inr:
  assumes "pum_choose pf as kw s = (Inr fk, s')"
  shows "\<exists>s1. pum_vstep s s1
    \<and> (if pum_has_objective s then as = None \<and> s' = s1 \<and> fst fk = optimise
        else \<exists>A m. as = Some A \<and> pf = None \<and> ran m \<subseteq> set A
               \<and> s' = s1\<lparr> assump_map := Some m \<rparr> \<and> fst fk = satisfy_under_assumptions)"
proof (cases "pum_has_objective s")
  case True
  with assms obtain obj where obj: "objective s = Some obj" and asn: "as = None"
    by (cases "objective s") (auto simp: pum_choose_def split: if_splits)
  obtain r1 s1 where r1: "pum_solver_var obj s = (r1, s1)" by (cases "pum_solver_var obj s")
  have "pum_vstep s s1" using r1 by (rule pum_solver_var_vstep)
  moreover from assms True obj asn r1 have "s' = s1 \<and> fst fk = optimise"
    by (cases r1) (auto simp: pum_choose_def)
  ultimately show ?thesis using True asn by auto
next
  case False
  show ?thesis
  proof (cases as)
    case None
    with assms False have "False"
      by (cases pf) (auto simp: pum_choose_def)
    then show ?thesis ..
  next
    case (Some A)
    with assms False have p: "pf = None"
      by (auto simp: pum_choose_def split: if_splits)
    obtain r1 s1 where r1: "mapM to_predicate A s = (r1, s1)" by (cases "mapM to_predicate A s")
    have v: "pum_vstep s s1"
      by (rule mapM_pum_vstep[OF _ r1]) (rule to_predicate_pum_vstep)
    from assms False Some p r1 obtain ps where ps: "r1 = Inr ps"
      by (cases r1) (auto simp: pum_choose_def)
    from assms False Some p r1 ps
    have e: "s' = s1\<lparr> assump_map := Some (map_of (rev (zip ps A))) \<rparr>"
      "fst fk = satisfy_under_assumptions"
      by (auto simp: pum_choose_def)
    have "ran (map_of (rev (zip ps A))) \<subseteq> set A"
    proof
      fix x assume "x \<in> ran (map_of (rev (zip ps A)))"
      then obtain k where "map_of (rev (zip ps A)) k = Some x" by (auto simp: ran_def)
      then have "(k, x) \<in> set (rev (zip ps A))" by (rule map_of_SomeD)
      then show "x \<in> set A" by (auto dest: set_zip_rightD)
    qed
    with v e Some p False show ?thesis by auto
  qed
qed

lemma pum_translate_status_Inr:
  assumes "pum_translate_status as result s = (Inr u, s')"
  shows "\<exists>st. cpm_status s' = Some st
    \<and> s' = s\<lparr> cpm_status := Some st, pum_core := pum_core s' \<rparr>
    \<and> (solve_return (Some st) \<longrightarrow> solution_of result \<noteq> None)
    \<and> (\<not> pum_has_objective s \<longrightarrow> as \<noteq> None \<longrightarrow>
          pum_core s' = (case result of
                           UnderAssumptions_UnsatisfiableUnderAssumptions core \<Rightarrow> Some (Some core)
                         | _ \<Rightarrow> pum_core s)
          \<and> (st = UNSATISFIABLE \<longrightarrow> result = UnderAssumptions_Unsatisfiable
                \<or> (\<exists>core. result = UnderAssumptions_UnsatisfiableUnderAssumptions core)))"
proof (cases "pum_has_objective s")
  case True
  with assms show ?thesis
    unfolding pum_translate_status_def Let_def set_exitstatus_def pum_has_objective_def
    by (cases result) (auto simp: solve_return_def)
next
  case False
  show ?thesis
  proof (cases "as \<noteq> None")
    case True
    with assms False show ?thesis
      unfolding pum_translate_status_def Let_def set_exitstatus_def pum_has_objective_def
      by (cases result) (auto simp: solve_return_def)
  next
    case False
    with assms \<open>\<not> pum_has_objective s\<close> show ?thesis
      unfolding pum_translate_status_def Let_def set_exitstatus_def pum_has_objective_def
      by (cases result) (auto simp: solve_return_def)
  qed
qed

lemma pum_translate_objective_frame:
  assumes "pum_translate_objective sol s = (r, s')"
  shows "\<exists>s1. pum_vstep s s1 \<and> s' = s1\<lparr> objective_value := objective_value s' \<rparr>"
proof (cases "objective s")
  case None
  with assms have "s' = s" by (simp add: pum_translate_objective_def)
  then show ?thesis by (auto intro!: exI[of _ s] simp: pum_vstep_refl)
next
  case (Some obj)
  obtain r1 s1 where r1: "pum_solver_var obj s = (r1, s1)" by (cases "pum_solver_var obj s")
  have "pum_vstep s s1" using r1 by (rule pum_solver_var_vstep)
  moreover from assms Some r1 have "s' = s1\<lparr> objective_value := objective_value s' \<rparr>"
    by (auto simp: pum_translate_objective_def split: sum.splits arg.splits pum_handle.splits)
  ultimately show ?thesis by blast
qed

lemma pum_translate_solution_Inr:
  assumes "pum_translate_solution b result s = (Inr u, s')"
  shows "user_vars s' = user_vars s \<and> pum_core s' = pum_core s
    \<and> assump_map s' = assump_map s
    \<and> (\<exists>cs. pum_calls s' = pum_calls s @ cs \<and> list_all (\<lambda>c. \<not> is_solve_call c) cs)
    \<and> (if b then cpm_status s' = Some OPTIMAL
          \<and> (\<exists>sol. solution_of result = Some sol
                \<and> (\<forall>v\<in>set (user_vars s'). \<exists>a x. pum_handle_of s' v = Some a
                      \<and> pum_value sol a = Some x \<and> var_value s' v = Some x))
        else cpm_status s' = cpm_status s \<and> (\<forall>v\<in>set (user_vars s'). var_value s' v = None))"
proof (cases b)
  case False
  with assms have "s' = s\<lparr> var_value := clear_values (user_vars s) (var_value s) \<rparr>"
    by (simp add: pum_translate_solution_def)
  with False show ?thesis by (auto simp: clear_values_None intro!: exI[of _ "[]"])
next
  case True
  from assms True obtain sol where sol: "solution_of result = Some sol"
    by (cases "solution_of result") (auto simp: pum_translate_solution_def)
  let ?s0 = "s\<lparr> cpm_status := Some OPTIMAL \<rparr>"
  from assms True sol obtain s1 where
    f: "pum_fill_values sol (user_vars s) ?s0 = (Inr (), s1)"
    and o: "pum_translate_objective sol s1 = (Inr u, s')"
    by (auto simp: pum_translate_solution_def Let_def split: prod.splits sum.splits)
  from pum_fill_values_frame[OF f] obtain s2 where
    s2: "pum_vstep ?s0 s2" "s1 = s2\<lparr> var_value := var_value s1 \<rparr>" by blast
  note g = pum_vstep_fields[OF s2(1)]
  note c = pum_fill_values_copies[OF f]
  from pum_translate_objective_frame[OF o] obtain s3 where
    s3: "pum_vstep s1 s3" "s' = s3\<lparr> objective_value := objective_value s' \<rparr>" by blast
  note g3 = pum_vstep_fields[OF s3(1)]
  have u1: "user_vars s1 = user_vars s" by (subst s2(2)) (simp add: g)
  have u': "user_vars s' = user_vars s" by (subst s3(2)) (simp add: g3 u1)
  have vv: "var_value s' = var_value s1" by (subst s3(2)) (simp add: g3)
  have st1: "cpm_status s1 = Some OPTIMAL" by (subst s2(2)) (simp add: g)
  have st': "cpm_status s' = Some OPTIMAL" by (subst s3(2)) (simp add: g3 st1)
  have pc1: "pum_core s1 = pum_core s" by (subst s2(2)) (simp add: g)
  have pc': "pum_core s' = pum_core s" by (subst s3(2)) (simp add: g3 pc1)
  have am1: "assump_map s1 = assump_map s" by (subst s2(2)) (simp add: g)
  have am': "assump_map s' = assump_map s" by (subst s3(2)) (simp add: g3 am1)
  have h: "pum_handle_of s' v = Some a" if "pum_handle_of s1 v = Some a" for v a
  proof -
    have "pum_handle_of s3 v = Some a" using s3(1) that by (rule pum_handle_of_vstep)
    then show ?thesis by (subst s3(2)) (cases v; simp)
  qed
  have cp: "\<forall>v\<in>set (user_vars s'). \<exists>a x. pum_handle_of s' v = Some a
                      \<and> pum_value sol a = Some x \<and> var_value s' v = Some x"
  proof
    fix v assume "v \<in> set (user_vars s')"
    with u' c obtain a x where "pum_handle_of s1 v = Some a" "pum_value sol a = Some x"
      "var_value s1 v = Some x" by auto
    with h vv show "\<exists>a x. pum_handle_of s' v = Some a
                      \<and> pum_value sol a = Some x \<and> var_value s' v = Some x" by auto
  qed
  have calls: "\<exists>cs. pum_calls s' = pum_calls s @ cs \<and> list_all (\<lambda>c. \<not> is_solve_call c) cs"
  proof -
    from g(11) obtain c2 where c2: "pum_calls s2 = pum_calls ?s0 @ c2"
      "list_all (\<lambda>c. \<not> is_solve_call c) c2" by blast
    from g3(11) obtain c3 where c3: "pum_calls s3 = pum_calls s1 @ c3"
      "list_all (\<lambda>c. \<not> is_solve_call c) c3" by blast
    have "pum_calls s1 = pum_calls s2" by (subst s2(2)) simp
    moreover have "pum_calls s' = pum_calls s3" by (subst s3(2)) simp
    ultimately have "pum_calls s' = pum_calls s @ (c2 @ c3)" using c2 c3 by simp
    moreover have "list_all (\<lambda>c. \<not> is_solve_call c) (c2 @ c3)" using c2 c3 by simp
    ultimately show ?thesis by blast
  qed
  from u' pc' am' calls st' sol cp True show ?thesis by simp
qed

lemma pum_solve_InrE:
  assumes "pum_solve E tlimit pf as kw s = (Inr b, s')"
  obtains a1 s1 fk s3 result s4 s5 where
    "solver_vars pum_solver_var (ListE (user_vars s)) s = (Inr a1, s1)"
    and "pum_choose pf as kw (if pf \<noteq> None then s1\<lparr> prefix := pf \<rparr> else s1) = (Inr fk, s3)"
    and "pum_call_solver E fk s3 = (Inr result, s4)"
    and "pum_translate_status as result s4 = (Inr (), s5)"
    and "b = solve_return (cpm_status s5)"
    and "pum_translate_solution b result s5 = (Inr (), s')"
proof -
  from assms show ?thesis
    unfolding pum_solve_def
    apply (elim bnd_InrE)
    apply (rule that)
         apply assumption
        apply simp
       apply assumption+
     apply (simp_all add: ret_def)
    done
qed

lemma pum_solve_trace:
  assumes "pum_solve E tlimit pf as kw s = (Inr b, s')"
  shows "user_vars s' = user_vars s"
    and "b = solve_return (cpm_status s')"
    and "b \<longrightarrow> cpm_status s' = Some OPTIMAL"
    and "pum_has_objective s \<or> as \<noteq> None"
    and "\<exists>pre post f k. pum_calls s' = pum_calls s @ pre @ [solve_call f k] @ post
           \<and> list_all (\<lambda>c. \<not> is_solve_call c) pre \<and> list_all (\<lambda>c. \<not> is_solve_call c) post
           \<and> (if b then \<exists>sol. solution_of (E (pum_calls s @ pre @ [solve_call f k])) = Some sol
                  \<and> (\<forall>v\<in>set (user_vars s'). \<exists>a x. pum_handle_of s' v = Some a
                        \<and> pum_value sol a = Some x \<and> var_value s' v = Some x)
               else \<forall>v\<in>set (user_vars s'). var_value s' v = None)
           \<and> (\<not> pum_has_objective s \<longrightarrow>
                (\<exists>A m. as = Some A \<and> assump_map s' = Some m \<and> ran m \<subseteq> set A)
                \<and> pum_core s' = (case E (pum_calls s @ pre @ [solve_call f k]) of
                       UnderAssumptions_UnsatisfiableUnderAssumptions core \<Rightarrow> Some (Some core)
                     | _ \<Rightarrow> Some None)
                \<and> (cpm_status s' = Some UNSATISFIABLE \<longrightarrow>
                      E (pum_calls s @ pre @ [solve_call f k]) = UnderAssumptions_Unsatisfiable
                      \<or> (\<exists>core. E (pum_calls s @ pre @ [solve_call f k])
                            = UnderAssumptions_UnsatisfiableUnderAssumptions core)))"
proof -
  from assms obtain a1 s1 fk s3 result s4 s5 where
    p1: "solver_vars pum_solver_var (ListE (user_vars s)) s = (Inr a1, s1)"
    and p3: "pum_choose pf as kw (if pf \<noteq> None then s1\<lparr> prefix := pf \<rparr> else s1) = (Inr fk, s3)"
    and p4: "pum_call_solver E fk s3 = (Inr result, s4)"
    and p5: "pum_translate_status as result s4 = (Inr (), s5)"
    and p6: "b = solve_return (cpm_status s5)"
    and p7: "pum_translate_solution b result s5 = (Inr (), s')"
    by (rule pum_solve_InrE)
  let ?s2 = "if pf \<noteq> None then s1\<lparr> prefix := pf \<rparr> else s1"
  note f1 = pum_vstep_fields[OF solver_vars_pum_vstep[OF p1]]
  from f1(11) obtain c1 where c1: "pum_calls s1 = pum_calls s @ c1"
    "list_all (\<lambda>c. \<not> is_solve_call c) c1" by blast
  have u2: "user_vars ?s2 = user_vars s" using f1(1) by simp
  have o2: "pum_has_objective ?s2 = pum_has_objective s"
    using f1(6) by (simp add: pum_has_objective_def)
  have c2: "pum_calls ?s2 = pum_calls s @ c1" using c1 by simp
  from pum_choose_Inr[OF p3] obtain s2' where v: "pum_vstep ?s2 s2'"
    and ch: "if pum_has_objective ?s2 then as = None \<and> s3 = s2' \<and> fst fk = optimise
        else \<exists>A m. as = Some A \<and> pf = None \<and> ran m \<subseteq> set A
               \<and> s3 = s2'\<lparr> assump_map := Some m \<rparr> \<and> fst fk = satisfy_under_assumptions"
    by blast
  note g = pum_vstep_fields[OF v]
  from g(11) obtain c3 where c3: "pum_calls s2' = pum_calls ?s2 @ c3"
    "list_all (\<lambda>c. \<not> is_solve_call c) c3" by blast
  from ch o2 show "pum_has_objective s \<or> as \<noteq> None" by (auto split: if_splits)
  have s3: "\<exists>am. s3 = s2'\<lparr> assump_map := am \<rparr>"
  proof (cases "pum_has_objective ?s2")
    case True
    with ch have "s3 = s2'\<lparr> assump_map := assump_map s2' \<rparr>" by simp
    then show ?thesis by blast
  next
    case False
    with ch show ?thesis by auto
  qed
  then obtain am where am: "s3 = s2'\<lparr> assump_map := am \<rparr>" by blast
  have u3: "user_vars s3 = user_vars s" using am g(1) u2 by simp
  have o3: "pum_has_objective s3 = pum_has_objective s"
    using am g(6) o2 by (simp add: pum_has_objective_def)
  let ?pre = "c1 @ c3"
  let ?call = "solve_call (fst fk) (snd fk)"
  have c3': "pum_calls s3 = pum_calls s @ ?pre" using am c3 c2 by simp
  from p4 have e4: "s4 = s3\<lparr> pum_core := Some None, pum_calls := pum_calls s3 @ [?call] \<rparr>"
    and res: "result = E (pum_calls s3 @ [?call])"
    by (auto simp: pum_call_solver_def Let_def)
  have res': "result = E (pum_calls s @ ?pre @ [?call])" using res c3' by simp
  have o4: "pum_has_objective s4 = pum_has_objective s"
    using e4 o3 by (simp add: pum_has_objective_def)
  from pum_translate_status_Inr[OF p5] obtain st where
    st: "cpm_status s5 = Some st"
    and e5: "s5 = s4\<lparr> cpm_status := Some st, pum_core := pum_core s5 \<rparr>"
    and so: "solve_return (Some st) \<longrightarrow> solution_of result \<noteq> None"
    and co: "\<not> pum_has_objective s4 \<longrightarrow> as \<noteq> None \<longrightarrow>
          pum_core s5 = (case result of
                           UnderAssumptions_UnsatisfiableUnderAssumptions core \<Rightarrow> Some (Some core)
                         | _ \<Rightarrow> pum_core s4)
          \<and> (st = UNSATISFIABLE \<longrightarrow> result = UnderAssumptions_Unsatisfiable
                \<or> (\<exists>core. result = UnderAssumptions_UnsatisfiableUnderAssumptions core))"
    by blast
  have u5: "user_vars s5 = user_vars s" by (subst e5) (simp add: e4 u3)
  have c5: "pum_calls s5 = pum_calls s @ ?pre @ [?call]" by (subst e5) (simp add: e4 c3')
  have am5: "assump_map s5 = am" by (subst e5) (simp add: e4 am)
  note t7 = pum_translate_solution_Inr[OF p7]
  from t7 u5 show "user_vars s' = user_vars s" by simp
  have stb: "cpm_status s' = (if b then Some OPTIMAL else Some st)"
    using t7 st by (cases b) simp_all
  show "b = solve_return (cpm_status s')"
    using p6 st stb by (cases b) (simp_all add: solve_return_def)
  show "b \<longrightarrow> cpm_status s' = Some OPTIMAL" using stb by simp
  from t7 obtain post where post: "pum_calls s' = pum_calls s5 @ post"
    "list_all (\<lambda>c. \<not> is_solve_call c) post" by blast
  have A: "pum_calls s' = pum_calls s @ ?pre @ [?call] @ post" using post(1) c5 by simp
  have B: "list_all (\<lambda>c. \<not> is_solve_call c) ?pre" using c1(2) c3(2) by simp
  have C: "if b then \<exists>sol. solution_of (E (pum_calls s @ ?pre @ [?call])) = Some sol
                  \<and> (\<forall>v\<in>set (user_vars s'). \<exists>a x. pum_handle_of s' v = Some a
                        \<and> pum_value sol a = Some x \<and> var_value s' v = Some x)
               else \<forall>v\<in>set (user_vars s'). var_value s' v = None"
  proof -
    from t7 have t7c: "if b then cpm_status s' = Some OPTIMAL
          \<and> (\<exists>sol. solution_of result = Some sol
                \<and> (\<forall>v\<in>set (user_vars s'). \<exists>a x. pum_handle_of s' v = Some a
                      \<and> pum_value sol a = Some x \<and> var_value s' v = Some x))
        else cpm_status s' = cpm_status s5 \<and> (\<forall>v\<in>set (user_vars s'). var_value s' v = None)"
      by (elim conjE) assumption
    show ?thesis unfolding res'[symmetric] using t7c by (cases b) simp_all
  qed
  have D: "(\<exists>A m. as = Some A \<and> assump_map s' = Some m \<and> ran m \<subseteq> set A)
                \<and> pum_core s' = (case E (pum_calls s @ ?pre @ [?call]) of
                       UnderAssumptions_UnsatisfiableUnderAssumptions core \<Rightarrow> Some (Some core)
                     | _ \<Rightarrow> Some None)
                \<and> (cpm_status s' = Some UNSATISFIABLE \<longrightarrow>
                      E (pum_calls s @ ?pre @ [?call]) = UnderAssumptions_Unsatisfiable
                      \<or> (\<exists>core. E (pum_calls s @ ?pre @ [?call])
                            = UnderAssumptions_UnsatisfiableUnderAssumptions core))"
    if no: "\<not> pum_has_objective s"
  proof -
    from no o2 ch am obtain A m where Am: "as = Some A" "ran m \<subseteq> set A"
      "s3 = s2'\<lparr> assump_map := Some m \<rparr>" by auto
    have "am = Some m"
    proof -
      have "assump_map s3 = am" by (subst am) simp
      moreover have "assump_map s3 = Some m" by (subst Am(3)) simp
      ultimately show ?thesis by simp
    qed
    with t7 am5 have 1: "assump_map s' = Some m" by simp
    from co no o4 Am(1) have
      pc: "pum_core s5 = (case result of
                           UnderAssumptions_UnsatisfiableUnderAssumptions core \<Rightarrow> Some (Some core)
                         | _ \<Rightarrow> pum_core s4)"
      and us: "st = UNSATISFIABLE \<longrightarrow> result = UnderAssumptions_Unsatisfiable
                \<or> (\<exists>core. result = UnderAssumptions_UnsatisfiableUnderAssumptions core)"
      by simp_all
    have "pum_core s4 = Some None" by (subst e4) simp
    with pc t7 have 2: "pum_core s' = (case result of
                           UnderAssumptions_UnsatisfiableUnderAssumptions core \<Rightarrow> Some (Some core)
                         | _ \<Rightarrow> Some None)" by (cases result) simp_all
    have 3: "cpm_status s' = Some UNSATISFIABLE \<longrightarrow> result = UnderAssumptions_Unsatisfiable
                \<or> (\<exists>core. result = UnderAssumptions_UnsatisfiableUnderAssumptions core)"
      using stb us by (cases b) simp_all
    from Am(1,2) 1 2 3 show ?thesis unfolding res'[symmetric] by blast
  qed
  show "\<exists>pre post f k. pum_calls s' = pum_calls s @ pre @ [solve_call f k] @ post
           \<and> list_all (\<lambda>c. \<not> is_solve_call c) pre \<and> list_all (\<lambda>c. \<not> is_solve_call c) post
           \<and> (if b then \<exists>sol. solution_of (E (pum_calls s @ pre @ [solve_call f k])) = Some sol
                  \<and> (\<forall>v\<in>set (user_vars s'). \<exists>a x. pum_handle_of s' v = Some a
                        \<and> pum_value sol a = Some x \<and> var_value s' v = Some x)
               else \<forall>v\<in>set (user_vars s'). var_value s' v = None)
           \<and> (\<not> pum_has_objective s \<longrightarrow>
                (\<exists>A m. as = Some A \<and> assump_map s' = Some m \<and> ran m \<subseteq> set A)
                \<and> pum_core s' = (case E (pum_calls s @ pre @ [solve_call f k]) of
                       UnderAssumptions_UnsatisfiableUnderAssumptions core \<Rightarrow> Some (Some core)
                     | _ \<Rightarrow> Some None)
                \<and> (cpm_status s' = Some UNSATISFIABLE \<longrightarrow>
                      E (pum_calls s @ pre @ [solve_call f k]) = UnderAssumptions_Unsatisfiable
                      \<or> (\<exists>core. E (pum_calls s @ pre @ [solve_call f k])
                            = UnderAssumptions_UnsatisfiableUnderAssumptions core)))"
    apply (rule exI[of _ ?pre])
    apply (rule exI[of _ post])
    apply (rule exI[of _ "fst fk"])
    apply (rule exI[of _ "snd fk"])
    apply (intro conjI impI)
           apply (rule A)
          apply (rule B)
         apply (rule post(2))
        apply (rule C)
       apply (rule D[THEN conjunct1], assumption)
      apply (rule D[THEN conjunct2, THEN conjunct1], assumption)
     apply (rule D[THEN conjunct2, THEN conjunct2, rule_format], assumption, assumption)
    done
qed

section \<open>The claims about solve\<close>

text \<open>
  Claim C10. In the Pumpkin adapter, whenever \<^verbatim>\<open>solve\<close> returns with a solution
  available, the exit status it leaves is OPTIMAL, never FEASIBLE, whatever the native
  result was (a satisfiable but not optimal optimisation result included) and whether or
  not an objective is set.
\<close>

theorem pumpkin_solution_status_optimal:
  assumes "fst (pum_solve E tlimit pf as kw s) = Inr True"
  shows "cpm_status (snd (pum_solve E tlimit pf as kw s)) = Some OPTIMAL"
proof -
  obtain s' where "pum_solve E tlimit pf as kw s = (Inr True, s')"
    using assms by (cases "pum_solve E tlimit pf as kw s") auto
  from pum_solve_trace(3)[OF this] this show ?thesis by simp
qed

lemma pum_solve_objective_example:
  "fst (pum_solve (\<lambda>_. OptimisationResult_Satisfiable (Solution (\<lambda>_. 0) (\<lambda>_. False)))
          None None None [] (pum_init\<lparr> objective := Some (IntVarImpl 0 5 ''obj'') \<rparr>)) = Inr True"
  by (simp add: pum_solve_def bnd_def ret_def pum_choose_def pum_has_objective_def
        pum_call_solver_def pum_translate_status_def set_exitstatus_def solve_return_def
        pum_translate_solution_def pum_translate_objective_def pum_init_def kw_update_def
        pum_solver_var_new_int pum_solver_var_cached Let_def)

lemma pum_solve_assumptions_example:
  "fst (pum_solve (\<lambda>_. UnderAssumptions_Satisfiable (Solution (\<lambda>_. 0) (\<lambda>_. False)))
          None None (Some []) [] pum_init) = Inr True"
  by (simp add: pum_solve_def bnd_def ret_def pum_choose_def pum_has_objective_def
        pum_call_solver_def pum_translate_status_def set_exitstatus_def solve_return_def
        pum_translate_solution_def pum_translate_objective_def pum_init_def kw_update_def
        Let_def)

theorem pumpkin_solution_status_optimal_witness:
  "fst (pum_solve (\<lambda>_. OptimisationResult_Satisfiable (Solution (\<lambda>_. 0) (\<lambda>_. False)))
          None None None [] (pum_init\<lparr> objective := Some (IntVarImpl 0 5 ''obj'') \<rparr>)) = Inr True
   \<and> cpm_status (snd (pum_solve (\<lambda>_. OptimisationResult_Satisfiable (Solution (\<lambda>_. 0) (\<lambda>_. False)))
          None None None [] (pum_init\<lparr> objective := Some (IntVarImpl 0 5 ''obj'') \<rparr>))) = Some OPTIMAL
   \<and> cpm_status (snd (pum_solve (\<lambda>_. UnderAssumptions_Satisfiable (Solution (\<lambda>_. 0) (\<lambda>_. False)))
          None None (Some []) [] pum_init)) = Some OPTIMAL"
  using pumpkin_solution_status_optimal[OF pum_solve_objective_example]
    pumpkin_solution_status_optimal[OF pum_solve_assumptions_example]
    pum_solve_objective_example
  by simp

text \<open>
  Claim C2, on the Pumpkin adapter. A \<^verbatim>\<open>solve\<close> without assumptions, on an adapter
  without objective, takes the last branch of the choice of the solve function, where
  \<^verbatim>\<open>kwargs.update(proof[proof])\<close> subscripts the \<^verbatim>\<open>proof\<close> argument: the call raises
  and the native \<^verbatim>\<open>satisfy\<close> is never invoked. So the claim, that the native solve is
  invoked once and its status classified, fails there.
\<close>

theorem pumpkin_satisfy_solve_raises:
  assumes "\<not> pum_has_objective s"
  shows "(\<exists>e. fst (pum_solve E tlimit pf None kw s) = Inl e)
    \<and> (\<exists>cs. pum_calls (snd (pum_solve E tlimit pf None kw s)) = pum_calls s @ cs
          \<and> list_all (\<lambda>c. \<not> is_solve_call c) cs)
    \<and> (list_all plain_var (user_vars s) \<longrightarrow> fst (pum_solve E tlimit pf None kw s) = Inl TypeError)"
proof -
  obtain r1 s1 where r1: "solver_vars pum_solver_var (ListE (user_vars s)) s = (r1, s1)"
    by (cases "solver_vars pum_solver_var (ListE (user_vars s)) s")
  note f = pum_vstep_fields[OF solver_vars_pum_vstep[OF r1]]
  have no: "\<not> pum_has_objective (if pf \<noteq> None then s1\<lparr> prefix := pf \<rparr> else s1)"
    using assms f(6) by (simp add: pum_has_objective_def)
  have ch: "pum_choose pf None kw s2 = (Inl TypeError, s2)" if "\<not> pum_has_objective s2" for s2
    using that by (cases pf) (simp_all add: pum_choose_def)
  have res: "pum_solve E tlimit pf None kw s =
      (case r1 of Inl e \<Rightarrow> (Inl e, s1)
       | Inr _ \<Rightarrow> (Inl TypeError, if pf \<noteq> None then s1\<lparr> prefix := pf \<rparr> else s1))"
    using r1 ch[OF no] by (cases r1) (simp_all add: pum_solve_def bnd_def)
  have 1: "\<exists>e. fst (pum_solve E tlimit pf None kw s) = Inl e"
    unfolding res by (cases r1) simp_all
  have 2: "\<exists>cs. pum_calls (snd (pum_solve E tlimit pf None kw s)) = pum_calls s @ cs
          \<and> list_all (\<lambda>c. \<not> is_solve_call c) cs"
    unfolding res using f(11) by (cases r1) simp_all
  have 3: "fst (pum_solve E tlimit pf None kw s) = Inl TypeError"
    if "list_all plain_var (user_vars s)"
  proof -
    have "\<exists>as s'. solver_vars_list pum_solver_var vs s0 = (Inr as, s')"
      if "list_all plain_var vs" for vs s0
      using that
    proof (induction vs arbitrary: s0)
      case Nil
      then show ?case by simp
    next
      case (Cons v vs)
      then have pv: "plain_var v" by simp
      then have nl: "solver_vars pum_solver_var v s0 = pum_solver_var v s0" by (cases v) auto
      from pum_plain_case[OF pv, of s0] obtain h s1 where
        "pum_solver_var v s0 = (Inr (AVar h), s1)" by (cases "varmap s0 v") auto
      moreover from Cons obtain as s2 where "solver_vars_list pum_solver_var vs s1 = (Inr as, s2)"
        by fastforce
      ultimately show ?case using nl by simp
    qed
    from this[OF that, of s] r1 obtain a where "r1 = Inr a" by (auto split: prod.splits)
    then show ?thesis unfolding res by simp
  qed
  from 1 2 3 show ?thesis by blast
qed

theorem pumpkin_satisfy_solve_raises_witness:
  "\<not> pum_has_objective pum_init
   \<and> fst (pum_solve (\<lambda>_. SatisfactionResult_Satisfiable (Solution (\<lambda>_. 0) (\<lambda>_. False)))
            None None None [] pum_init) = Inl TypeError"
proof -
  have a: "\<not> pum_has_objective pum_init" by (simp add: pum_has_objective_def pum_init_def)
  have b: "list_all plain_var (user_vars pum_init)" by (simp add: pum_init_def)
  from pumpkin_satisfy_solve_raises[OF a] a b show ?thesis by blast
qed

lemma ort_solver_vars_list_plain:
  "list_all plain_var vs \<Longrightarrow> \<exists>as s'. solver_vars_list ort_solver_var vs s0 = (Inr as, s')"
proof (induction vs arbitrary: s0)
  case Nil
  then show ?case by simp
next
  case (Cons v vs)
  then have pv: "plain_var v" by simp
  then have nl: "solver_vars ort_solver_var v s0 = ort_solver_var v s0" by (cases v) auto
  from ort_plain_case[OF pv, of s0] obtain h s1 where
    "ort_solver_var v s0 = (Inr (AVar h), s1)" by (cases "varmap s0 v") auto
  moreover from Cons obtain as s2 where "solver_vars_list ort_solver_var vs s1 = (Inr as, s2)"
    by fastforce
  ultimately show ?case using nl by simp
qed

text \<open>
  Claim C5, as amended. In the OR-Tools adapter, \<^verbatim>\<open>solve\<close> with a time limit that is not
  positive raises: \<^verbatim>\<open>ValueError\<close> when the user variables are plain variables (so that
  giving them native handles, which comes first, succeeds), and then the only native calls
  made are those that create the handles of user variables not yet in the cache: no solver
  parameter is set and the native solve is not invoked. The Pumpkin adapter never reads
  \<^verbatim>\<open>time_limit\<close>: its \<^verbatim>\<open>solve\<close> does the same for every value of it.
\<close>

theorem nonpositive_time_limit:
  assumes "t \<le> 0"
  shows "(\<exists>e. fst (ort_solve E rl (Some t) as cb kw s) = Inl e)
    \<and> (list_all plain_var (user_vars s) \<longrightarrow>
          fst (ort_solve E rl (Some t) as cb kw s) = Inl ValueError)
    \<and> (\<exists>cs. ort_calls (snd (ort_solve E rl (Some t) as cb kw s)) = ort_calls s @ cs
          \<and> list_all is_new_var_call cs)
    \<and> pum_solve P (Some t) pf as' kw' p = pum_solve P None pf as' kw' p"
proof -
  obtain r1 s1 where r1: "solver_vars ort_solver_var (ListE (user_vars s)) s = (r1, s1)"
    by (cases "solver_vars ort_solver_var (ListE (user_vars s)) s")
  note f = ort_vstep_fields[OF solver_vars_ort_vstep[OF r1]]
  have tl: "ort_set_time_limit (Some t) s1 = (Inl ValueError, s1)"
    using assms by (simp add: ort_set_time_limit_def raise_def)
  have res: "ort_solve E rl (Some t) as cb kw s =
      (case r1 of Inl e \<Rightarrow> (Inl e, s1) | Inr _ \<Rightarrow> (Inl ValueError, s1))"
    using r1 tl by (cases r1) (simp_all add: ort_solve_def bnd_def)
  have 1: "\<exists>e. fst (ort_solve E rl (Some t) as cb kw s) = Inl e"
    unfolding res by (cases r1) simp_all
  have 2: "fst (ort_solve E rl (Some t) as cb kw s) = Inl ValueError"
    if "list_all plain_var (user_vars s)"
  proof -
    from ort_solver_vars_list_plain[OF that, of s] r1 obtain a where "r1 = Inr a"
      by (auto split: prod.splits)
    then show ?thesis unfolding res by simp
  qed
  have 3: "\<exists>cs. ort_calls (snd (ort_solve E rl (Some t) as cb kw s)) = ort_calls s @ cs
          \<and> list_all is_new_var_call cs"
    unfolding res using f(10) by (cases r1) simp_all
  have 4: "pum_solve P (Some t) pf as' kw' p = pum_solve P None pf as' kw' p"
    by (simp add: pum_solve_def)
  from 1 2 3 4 show ?thesis by blast
qed

theorem nonpositive_time_limit_witness:
  "(-1::rat) \<le> 0
   \<and> fst (ort_solve (\<lambda>_. \<lparr> Solve_status = ORT_OPTIMAL, Value = (\<lambda>_. Some 0), ObjectiveValue = 0,
              SufficientAssumptionsForInfeasibility = [], callback_solutions = [] \<rparr>)
            False (Some (-1)) None None [] ort_init) = Inl ValueError"
proof -
  have a: "(-1::rat) \<le> 0" by simp
  have b: "list_all plain_var (user_vars ort_init)" by (simp add: ort_init_def)
  from nonpositive_time_limit[OF a] a b show ?thesis by blast
qed

theorem nonpositive_time_limit_counterexample:
  "fst (pum_solve (\<lambda>_. UnderAssumptions_Satisfiable (Solution (\<lambda>_. 0) (\<lambda>_. False)))
          (Some (-1)) None (Some []) [] pum_init) = Inr True
   \<and> pum_calls (snd (pum_solve (\<lambda>_. UnderAssumptions_Satisfiable (Solution (\<lambda>_. 0) (\<lambda>_. False)))
          (Some (-1)) None (Some []) [] pum_init))
      = [solve_call satisfy_under_assumptions [(''assumptions'', KwAssumptions [])]]"
  by (simp add: pum_solve_def bnd_def ret_def pum_choose_def pum_has_objective_def
        pum_call_solver_def pum_translate_status_def set_exitstatus_def solve_return_def
        pum_translate_solution_def pum_translate_objective_def pum_init_def kw_update_def
        Let_def)

section \<open>Unsatisfiable cores and enumeration\<close>

lemma lookup_all_cases:
  "case lookup_all d ks of Inr vs \<Rightarrow> set vs \<subseteq> ran d | Inl e \<Rightarrow> e = KeyError"
proof (induction ks)
  case Nil
  then show ?case by simp
next
  case (Cons k ks)
  show ?case
  proof (cases "d k")
    case None
    then show ?thesis by simp
  next
    case (Some v)
    then have "v \<in> ran d" by (auto simp: ran_def)
    with Cons Some show ?thesis by (cases "lookup_all d ks") auto
  qed
qed

lemma pum_solve_assumptions_no_objective:
  assumes "pum_solve E tlimit pf (Some A) kw s = (Inr b, s')"
  shows "\<not> pum_has_objective s"
proof
  assume o: "pum_has_objective s"
  from assms obtain a1 s1 fk s3 where
    p1: "solver_vars pum_solver_var (ListE (user_vars s)) s = (Inr a1, s1)"
    and p3: "pum_choose pf (Some A) kw (if pf \<noteq> None then s1\<lparr> prefix := pf \<rparr> else s1) = (Inr fk, s3)"
    by (rule pum_solve_InrE)
  note f1 = pum_vstep_fields[OF solver_vars_pum_vstep[OF p1]]
  have "pum_has_objective (if pf \<noteq> None then s1\<lparr> prefix := pf \<rparr> else s1)"
    using o f1(6) by (simp add: pum_has_objective_def)
  with pum_choose_Inr[OF p3] show False by auto
qed

text \<open>
  Claim C6, as amended. \<^verbatim>\<open>get_core\<close> raises unless, in the Pumpkin adapter, a native core
  is recorded (the last native solve returned
  \<^verbatim>\<open>UnsatisfiableUnderAssumptions\<close>), and, in the OR-Tools adapter, the last native status
  is INFEASIBLE and some solve has recorded a map of assumptions. After
  \<^verbatim>\<open>solve(assumptions=A)\<close> has returned UNSATISFIABLE, \<^verbatim>\<open>get_core\<close> returns only
  variables of \<open>A\<close>, found in the reverse map recorded by that solve; it raises
  \<^verbatim>\<open>KeyError\<close> when the native core names a literal that is not a key of that map, and, in
  the Pumpkin adapter, \<^verbatim>\<open>AssertionError\<close> when the native result was
  \<^verbatim>\<open>Unsatisfiable\<close> (unsatisfiable whatever the assumptions).
\<close>

theorem get_core_after_unsat:
  "((\<forall>c. pum_core p \<noteq> Some (Some c)) \<longrightarrow> (\<exists>e. fst (pum_get_core p) = Inl e))
   \<and> (ort_status s \<noteq> Some ORT_INFEASIBLE \<or> assumption_dict s = None
        \<longrightarrow> (\<exists>e. fst (ort_get_core s) = Inl e))
   \<and> (fst (ort_solve E rl tlimit (Some A) cb kw s) = Inr (b, cb')
        \<and> cpm_status (snd (ort_solve E rl tlimit (Some A) cb kw s)) = Some UNSATISFIABLE
        \<longrightarrow> (case fst (ort_get_core (snd (ort_solve E rl tlimit (Some A) cb kw s))) of
               Inr core \<Rightarrow> set core \<subseteq> set A
             | Inl e \<Rightarrow> e = KeyError))
   \<and> (fst (pum_solve P tlimit' pf (Some A) kw' p) = Inr b'
        \<and> cpm_status (snd (pum_solve P tlimit' pf (Some A) kw' p)) = Some UNSATISFIABLE
        \<longrightarrow> (case fst (pum_get_core (snd (pum_solve P tlimit' pf (Some A) kw' p))) of
               Inr core \<Rightarrow> set core \<subseteq> set A
             | Inl e \<Rightarrow> e = KeyError
                 \<or> (e = AssertionError \<and> (\<exists>calls. P calls = UnderAssumptions_Unsatisfiable))))"
proof (intro conjI impI)
  assume "\<forall>c. pum_core p \<noteq> Some (Some c)"
  then show "\<exists>e. fst (pum_get_core p) = Inl e"
    by (cases "pum_core p") (auto simp: pum_get_core_def split: option.splits)
next
  assume "ort_status s \<noteq> Some ORT_INFEASIBLE \<or> assumption_dict s = None"
  then show "\<exists>e. fst (ort_get_core s) = Inl e"
    by (cases "ort_status s") (auto simp: ort_get_core_def split: option.splits)
next
  assume a: "fst (ort_solve E rl tlimit (Some A) cb kw s) = Inr (b, cb')
        \<and> cpm_status (snd (ort_solve E rl tlimit (Some A) cb kw s)) = Some UNSATISFIABLE"
  then obtain s' where o: "ort_solve E rl tlimit (Some A) cb kw s = (Inr (b, cb'), s')"
    by (cases "ort_solve E rl tlimit (Some A) cb kw s") auto
  with a have u: "cpm_status s' = Some UNSATISFIABLE" by simp
  note t = ort_solve_trace[OF o]
  from t(5) obtain d where d: "assumption_dict s' = Some d" "ran d \<subseteq> set A" by auto
  from t(6) u have st: "ort_status s' = Some ORT_INFEASIBLE" by auto
  from t(3) obtain resp where resp: "ort_solver s' = Some resp" by blast
  have "fst (ort_get_core s') =
      (case lookup_all d (SufficientAssumptionsForInfeasibility resp) of
         Inl e \<Rightarrow> Inl e | Inr core \<Rightarrow> Inr core)"
    using d st resp by (simp add: ort_get_core_def split: sum.splits)
  with lookup_all_cases[of d "SufficientAssumptionsForInfeasibility resp"] d(2)
  show "case fst (ort_get_core (snd (ort_solve E rl tlimit (Some A) cb kw s))) of
               Inr core \<Rightarrow> set core \<subseteq> set A
             | Inl e \<Rightarrow> e = KeyError"
    unfolding o snd_conv by (auto split: sum.splits)
next
  assume a: "fst (pum_solve P tlimit' pf (Some A) kw' p) = Inr b'
        \<and> cpm_status (snd (pum_solve P tlimit' pf (Some A) kw' p)) = Some UNSATISFIABLE"
  then obtain p' where q: "pum_solve P tlimit' pf (Some A) kw' p = (Inr b', p')"
    by (cases "pum_solve P tlimit' pf (Some A) kw' p") auto
  with a have u: "cpm_status p' = Some UNSATISFIABLE" by simp
  note no = pum_solve_assumptions_no_objective[OF q]
  from pum_solve_trace(5)[OF q] obtain pre f k where
    imp: "\<not> pum_has_objective p \<longrightarrow>
                (\<exists>A' m. Some A = Some A' \<and> assump_map p' = Some m \<and> ran m \<subseteq> set A')
                \<and> pum_core p' = (case P (pum_calls p @ pre @ [solve_call f k]) of
                       UnderAssumptions_UnsatisfiableUnderAssumptions core \<Rightarrow> Some (Some core)
                     | _ \<Rightarrow> Some None)
                \<and> (cpm_status p' = Some UNSATISFIABLE \<longrightarrow>
                      P (pum_calls p @ pre @ [solve_call f k]) = UnderAssumptions_Unsatisfiable
                      \<or> (\<exists>core. P (pum_calls p @ pre @ [solve_call f k])
                            = UnderAssumptions_UnsatisfiableUnderAssumptions core))"
    by (elim exE conjE) (erule that)
  from imp no have
    mm: "\<exists>A' m. Some A = Some A' \<and> assump_map p' = Some m \<and> ran m \<subseteq> set A'"
    and c: "pum_core p' = (case P (pum_calls p @ pre @ [solve_call f k]) of
                       UnderAssumptions_UnsatisfiableUnderAssumptions core \<Rightarrow> Some (Some core)
                     | _ \<Rightarrow> Some None)"
    and r0: "cpm_status p' = Some UNSATISFIABLE \<longrightarrow>
                      P (pum_calls p @ pre @ [solve_call f k]) = UnderAssumptions_Unsatisfiable
                      \<or> (\<exists>core. P (pum_calls p @ pre @ [solve_call f k])
                            = UnderAssumptions_UnsatisfiableUnderAssumptions core)"
    by blast+
  from mm obtain m where m: "assump_map p' = Some m" "ran m \<subseteq> set A" by auto
  from r0 u have r: "P (pum_calls p @ pre @ [solve_call f k]) = UnderAssumptions_Unsatisfiable
            \<or> (\<exists>core. P (pum_calls p @ pre @ [solve_call f k])
                            = UnderAssumptions_UnsatisfiableUnderAssumptions core)"
    by blast
  have "case fst (pum_get_core p') of
               Inr core \<Rightarrow> set core \<subseteq> set A
             | Inl e \<Rightarrow> e = KeyError
                 \<or> (e = AssertionError \<and> (\<exists>calls. P calls = UnderAssumptions_Unsatisfiable))"
  proof (cases "P (pum_calls p @ pre @ [solve_call f k]) = UnderAssumptions_Unsatisfiable")
    case True
    with c have "pum_core p' = Some None" by simp
    then have "fst (pum_get_core p') = Inl AssertionError" by (simp add: pum_get_core_def)
    with True show ?thesis by auto
  next
    case False
    with r obtain core where "P (pum_calls p @ pre @ [solve_call f k])
                            = UnderAssumptions_UnsatisfiableUnderAssumptions core" by blast
    with c have "pum_core p' = Some (Some core)" by simp
    with m have "fst (pum_get_core p') =
        (case lookup_all m core of Inl e \<Rightarrow> Inl e | Inr vs \<Rightarrow> Inr vs)"
      by (simp add: pum_get_core_def split: sum.splits)
    with lookup_all_cases[of m core] m(2) show ?thesis by (auto split: sum.splits)
  qed
  then show "case fst (pum_get_core (snd (pum_solve P tlimit' pf (Some A) kw' p))) of
               Inr core \<Rightarrow> set core \<subseteq> set A
             | Inl e \<Rightarrow> e = KeyError
                 \<or> (e = AssertionError \<and> (\<exists>calls. P calls = UnderAssumptions_Unsatisfiable))"
    unfolding q snd_conv .
qed

lemmas pum_eval =
  pum_solve_def bnd_def ret_def raise_def pum_choose_def pum_has_objective_def
  pum_call_solver_def pum_translate_status_def set_exitstatus_def solve_return_def
  pum_translate_solution_def pum_translate_objective_def pum_init_def kw_update_def
  pum_solver_var_new_bool pum_solver_var_new_int pum_solver_var_cached Let_def
  to_predicate_def make_predicate_def pum_get_core_def tenv_init_def

lemmas ort_eval =
  ort_solve_def bnd_def ret_def raise_def ort_set_time_limit_def ort_set_assumptions_def
  ort_Solve_def ort_translate_status_def ort_translate_solution_def ort_native_def
  ort_translate_objective_def ort_has_objective_def solve_return_def ort_init_def
  ort_solver_var_new_bool ort_solver_var_new_int ort_solver_var_cached Let_def
  ort_get_core_def tenv_init_def

theorem get_core_after_unsat_counterexample:
  "fst (pum_solve (\<lambda>_. UnderAssumptions_Unsatisfiable) None None (Some [BoolVarImpl ''a'']) []
          pum_init) = Inr False
   \<and> cpm_status (snd (pum_solve (\<lambda>_. UnderAssumptions_Unsatisfiable) None None
          (Some [BoolVarImpl ''a'']) [] pum_init)) = Some UNSATISFIABLE
   \<and> fst (pum_get_core (snd (pum_solve (\<lambda>_. UnderAssumptions_Unsatisfiable) None None
          (Some [BoolVarImpl ''a'']) [] pum_init))) = Inl AssertionError"
  by (simp add: pum_eval)

lemma ort_core_example:
  "fst (ort_solve (\<lambda>_. \<lparr> Solve_status = ORT_INFEASIBLE, Value = (\<lambda>_. None), ObjectiveValue = 0,
              SufficientAssumptionsForInfeasibility = [0], callback_solutions = [] \<rparr>)
          False None (Some [BoolVarImpl ''a'', NegBoolView ''b'']) None [] ort_init)
     = Inr (False, None)
   \<and> cpm_status (snd (ort_solve (\<lambda>_. \<lparr> Solve_status = ORT_INFEASIBLE, Value = (\<lambda>_. None),
              ObjectiveValue = 0,
              SufficientAssumptionsForInfeasibility = [0], callback_solutions = [] \<rparr>)
          False None (Some [BoolVarImpl ''a'', NegBoolView ''b'']) None [] ort_init))
     = Some UNSATISFIABLE
   \<and> fst (ort_get_core (snd (ort_solve (\<lambda>_. \<lparr> Solve_status = ORT_INFEASIBLE, Value = (\<lambda>_. None),
              ObjectiveValue = 0,
              SufficientAssumptionsForInfeasibility = [0], callback_solutions = [] \<rparr>)
          False None (Some [BoolVarImpl ''a'', NegBoolView ''b'']) None [] ort_init)))
     = Inr [BoolVarImpl ''a'']"
  by (simp add: ort_eval ort_solver_var_Neg bv_def)

lemma pum_core_example:
  "fst (pum_solve (\<lambda>_. UnderAssumptions_UnsatisfiableUnderAssumptions
            [Predicate (BooleanAsInteger (BoolVariable 0)) GreaterThanOrEqual 1])
          None None (Some [BoolVarImpl ''a'']) [] pum_init) = Inr False
   \<and> cpm_status (snd (pum_solve (\<lambda>_. UnderAssumptions_UnsatisfiableUnderAssumptions
            [Predicate (BooleanAsInteger (BoolVariable 0)) GreaterThanOrEqual 1])
          None None (Some [BoolVarImpl ''a'']) [] pum_init)) = Some UNSATISFIABLE
   \<and> fst (pum_get_core (snd (pum_solve (\<lambda>_. UnderAssumptions_UnsatisfiableUnderAssumptions
            [Predicate (BooleanAsInteger (BoolVariable 0)) GreaterThanOrEqual 1])
          None None (Some [BoolVarImpl ''a'']) [] pum_init))) = Inr [BoolVarImpl ''a'']"
  by (simp add: pum_eval)

theorem get_core_after_unsat_witness:
  "fst (ort_get_core ort_init) = Inl AttributeError
   \<and> fst (ort_solve (\<lambda>_. \<lparr> Solve_status = ORT_INFEASIBLE, Value = (\<lambda>_. None), ObjectiveValue = 0,
              SufficientAssumptionsForInfeasibility = [0], callback_solutions = [] \<rparr>)
          False None (Some [BoolVarImpl ''a'', NegBoolView ''b'']) None [] ort_init)
     = Inr (False, None)
   \<and> cpm_status (snd (ort_solve (\<lambda>_. \<lparr> Solve_status = ORT_INFEASIBLE, Value = (\<lambda>_. None),
              ObjectiveValue = 0,
              SufficientAssumptionsForInfeasibility = [0], callback_solutions = [] \<rparr>)
          False None (Some [BoolVarImpl ''a'', NegBoolView ''b'']) None [] ort_init))
     = Some UNSATISFIABLE
   \<and> fst (ort_get_core (snd (ort_solve (\<lambda>_. \<lparr> Solve_status = ORT_INFEASIBLE, Value = (\<lambda>_. None),
              ObjectiveValue = 0,
              SufficientAssumptionsForInfeasibility = [0], callback_solutions = [] \<rparr>)
          False None (Some [BoolVarImpl ''a'', NegBoolView ''b'']) None [] ort_init)))
     = Inr [BoolVarImpl ''a'']
   \<and> set [BoolVarImpl ''a''] \<subseteq> set [BoolVarImpl ''a'', NegBoolView ''b'']
   \<and> fst (pum_solve (\<lambda>_. UnderAssumptions_UnsatisfiableUnderAssumptions
            [Predicate (BooleanAsInteger (BoolVariable 0)) GreaterThanOrEqual 1])
          None None (Some [BoolVarImpl ''a'']) [] pum_init) = Inr False
   \<and> cpm_status (snd (pum_solve (\<lambda>_. UnderAssumptions_UnsatisfiableUnderAssumptions
            [Predicate (BooleanAsInteger (BoolVariable 0)) GreaterThanOrEqual 1])
          None None (Some [BoolVarImpl ''a'']) [] pum_init)) = Some UNSATISFIABLE
   \<and> fst (pum_get_core (snd (pum_solve (\<lambda>_. UnderAssumptions_UnsatisfiableUnderAssumptions
            [Predicate (BooleanAsInteger (BoolVariable 0)) GreaterThanOrEqual 1])
          None None (Some [BoolVarImpl ''a'']) [] pum_init))) = Inr [BoolVarImpl ''a'']"
proof -
  have a: "fst (ort_get_core ort_init) = Inl AttributeError"
    by (simp add: ort_get_core_def ort_init_def)
  note t = get_core_after_unsat[of pum_init ort_init
      "\<lambda>_. \<lparr> Solve_status = ORT_INFEASIBLE, Value = (\<lambda>_. None), ObjectiveValue = 0,
              SufficientAssumptionsForInfeasibility = [0], callback_solutions = [] \<rparr>"
      False None "[BoolVarImpl ''a'', NegBoolView ''b'']" None "[]" False None]
  from t ort_core_example
  have "set [BoolVarImpl ''a''] \<subseteq> set [BoolVarImpl ''a'', NegBoolView ''b'']" by simp
  with a ort_core_example pum_core_example show ?thesis by blast
qed

lemma run_callbacks_count:
  "run_callbacks sols cb s = (Inr cb', s') \<Longrightarrow>
     solution_count cb' = count_callbacks (cb_solution_limit cb) (solution_count cb) sols"
proof (induction sols arbitrary: cb s)
  case Nil
  then show ?case by simp
next
  case (Cons sol sols)
  let ?cb1 = "cb\<lparr> solution_count := solution_count cb + 1 \<rparr>"
  obtain r1 s1 where c: "on_solution_callback cb sol s = (r1, s1)"
    by (cases "on_solution_callback cb sol s")
  from Cons.prems c obtain p where p: "r1 = Inr p" by (cases r1) auto
  from c p have pe: "p = (?cb1, Some (int (solution_count cb + 1)) = cb_solution_limit cb)"
    unfolding on_solution_callback_def Let_def by (auto split: prod.splits sum.splits)
  show ?case
  proof (cases "Some (int (solution_count cb + 1)) = cb_solution_limit cb")
    case True
    with Cons.prems c p pe have "cb' = ?cb1" by simp
    with True show ?thesis by simp
  next
    case False
    with Cons.prems c p pe have "run_callbacks sols ?cb1 s1 = (Inr cb', s')" by simp
    from Cons.IH[OF this] False show ?thesis by simp
  qed
qed

lemma ort_solve_callback_count:
  assumes "ort_solve E rl tlimit as (Some cb) kw s = (Inr (b, cbo), s')"
  shows "\<exists>cb' resp. cbo = Some cb' \<and> ort_solver s' = Some resp
    \<and> solution_count cb' = count_callbacks (cb_solution_limit cb) (solution_count cb)
         (callback_solutions resp)"
proof -
  from assms obtain a1 s1 s2 s3 s4 s5 s6 s7 where
    p1: "solver_vars ort_solver_var (ListE (user_vars s)) s = (Inr a1, s1)"
    and p2: "ort_set_time_limit tlimit s1 = (Inr (), s2)"
    and p3: "ort_set_assumptions as s2 = (Inr (), s3)"
    and p4: "ort_set_kwargs kw s3 = (Inr (), s4)"
    and p5: "(if ''log_search_progress'' \<in> fst ` set kw \<and> rl
          then ort_native SetLogCallback else ret ()) s4 = (Inr (), s5)"
    and p6: "ort_Solve E (Some cb) s5 = (Inr cbo, s6)"
    and p7: "ort_translate_status kw s6 = (Inr (), s7)"
    and p8: "b = solve_return (cpm_status s7)"
    and p9: "ort_translate_solution b s7 = (Inr (), s')"
    by (rule ort_solve_InrE)
  let ?resp = "E (ort_calls s5 @ [Solve True])"
  let ?s2 = "s5\<lparr> ort_calls := ort_calls s5 @ [Solve True], ort_solver := Some ?resp \<rparr>"
  obtain r1 s1' where r: "run_callbacks (callback_solutions ?resp) cb ?s2 = (r1, s1')"
    by fastforce
  from p6 r obtain cb' where cb': "r1 = Inr cb'" "cbo = Some cb'"
    by (cases r1) (auto simp: ort_Solve_def Let_def)
  from run_callbacks_count[OF r[unfolded cb'(1)]]
  have cnt: "solution_count cb' = count_callbacks (cb_solution_limit cb) (solution_count cb)
         (callback_solutions ?resp)" .
  have "ort_solver s6 = Some ?resp" by (subst ort_Solve_Inr[OF p6]) simp
  moreover from ort_translate_status_Inr[OF p7] have "ort_solver s7 = ort_solver s6" by auto
  moreover from ort_translate_solution_Inr[OF p9] have "ort_solver s' = ort_solver s7" by simp
  ultimately have "ort_solver s' = Some ?resp" by simp
  with cb'(2) cnt show ?thesis by blast
qed

text \<open>
  Claim C7, for the OR-Tools adapter, whose \<^verbatim>\<open>solveAll\<close> is the one among the sources.
  With an objective set, \<^verbatim>\<open>solveAll\<close> raises \<^verbatim>\<open>NotSupportedError\<close> and leaves the
  adapter as it was, so that no native call is made. With no objective set, it runs
  \<^verbatim>\<open>solve\<close> in enumeration mode: when it returns, the native solve has been invoked
  exactly once, with the solution callback and after the parameter
  \<^verbatim>\<open>enumerate_all_solutions\<close> was set, and the number returned is the number of
  solutions the engine reported to the callback (up to the solution limit); it raises
  exactly when that run of \<^verbatim>\<open>solve\<close> raises.
\<close>

theorem solveAll_objective_gate:
  "(ort_has_objective s \<longrightarrow>
      ort_solveAll E rl disp tlimit limit kw s = (Inl NotSupportedError, s))
   \<and> (\<not> ort_has_objective s \<and> fst (ort_solveAll E rl disp tlimit limit kw s) = Inr n \<longrightarrow>
        (\<exists>pre post. ort_calls (snd (ort_solveAll E rl disp tlimit limit kw s))
             = ort_calls s @ pre @ [Solve True] @ post
           \<and> list_all (\<lambda>c. \<not> is_Solve c) pre \<and> list_all (\<lambda>c. \<not> is_Solve c) post
           \<and> SetParameter ''enumerate_all_solutions'' (KwBool True) \<in> set pre
           \<and> n = count_callbacks limit 0
                 (callback_solutions (E (ort_calls s @ pre @ [Solve True])))))
   \<and> (\<not> ort_has_objective s
        \<and> fst ` set kw \<inter> {''enumerate_all_solutions'', ''solution_callback'', ''time_limit''} = {}
        \<longrightarrow> (\<forall>e. fst (ort_solveAll E rl disp tlimit limit kw s) = Inl e
              \<longleftrightarrow> fst (ort_solve E rl tlimit None (Some (new_OrtSolutionPrinter s disp limit))
                        ((''enumerate_all_solutions'', KwBool True) # kw) s) = Inl e))"
proof (intro conjI impI)
  assume "ort_has_objective s"
  then show "ort_solveAll E rl disp tlimit limit kw s = (Inl NotSupportedError, s)"
    by (simp add: ort_solveAll_def)
next
  let ?cb = "new_OrtSolutionPrinter s disp limit"
  let ?kw = "(''enumerate_all_solutions'', KwBool True) # kw"
  assume a: "\<not> ort_has_objective s \<and> fst (ort_solveAll E rl disp tlimit limit kw s) = Inr n"
  obtain r1 s' where r: "ort_solve E rl tlimit None (Some ?cb) ?kw s = (r1, s')"
    by (cases "ort_solve E rl tlimit None (Some ?cb) ?kw s")
  from a have nc: "fst ` set kw \<inter> {''enumerate_all_solutions'', ''solution_callback'', ''time_limit''} = {}"
    by (auto simp: ort_solveAll_def Let_def split: if_splits)
  from a nc r obtain b cbo where r1: "r1 = Inr (b, cbo)"
    by (cases r1) (auto simp: ort_solveAll_def Let_def)
  note r' = r[unfolded r1]
  from ort_solve_callback_count[OF r'] obtain cb' resp where
    cb': "cbo = Some cb'" "ort_solver s' = Some resp"
      "solution_count cb' = count_callbacks (cb_solution_limit ?cb) (solution_count ?cb)
         (callback_solutions resp)" by blast
  from a nc r' cb'(1) have res: "ort_solveAll E rl disp tlimit limit kw s = (Inr (solution_count cb'), s')"
    by (simp add: ort_solveAll_def Let_def)
  with a have n: "n = solution_count cb'" by simp
  from ort_solve_trace(3)[OF r'] obtain pre post where
    tr: "ort_calls s' = ort_calls s @ pre @ [Solve True] @ post"
      "list_all (\<lambda>c. \<not> is_Solve c) pre" "list_all is_new_var_call post"
      "\<forall>k v. (k, v) \<in> set ?kw \<longrightarrow> SetParameter k v \<in> set pre"
      "ort_solver s' = Some (E (ort_calls s @ pre @ [Solve True]))"
    by auto
  from tr(5) cb'(2) have "resp = E (ort_calls s @ pre @ [Solve True])" by simp
  with n cb'(3) have 1: "n = count_callbacks limit 0
                 (callback_solutions (E (ort_calls s @ pre @ [Solve True])))"
    by (simp add: new_OrtSolutionPrinter_def)
  from tr(4) have 2: "SetParameter ''enumerate_all_solutions'' (KwBool True) \<in> set pre" by simp
  from tr(1,2) list_all_new_var_no_Solve[OF tr(3)] 1 2
  show "\<exists>pre post. ort_calls (snd (ort_solveAll E rl disp tlimit limit kw s))
             = ort_calls s @ pre @ [Solve True] @ post
           \<and> list_all (\<lambda>c. \<not> is_Solve c) pre \<and> list_all (\<lambda>c. \<not> is_Solve c) post
           \<and> SetParameter ''enumerate_all_solutions'' (KwBool True) \<in> set pre
           \<and> n = count_callbacks limit 0
                 (callback_solutions (E (ort_calls s @ pre @ [Solve True])))"
    unfolding res snd_conv by blast
next
  let ?cb = "new_OrtSolutionPrinter s disp limit"
  let ?kw = "(''enumerate_all_solutions'', KwBool True) # kw"
  assume a: "\<not> ort_has_objective s
        \<and> fst ` set kw \<inter> {''enumerate_all_solutions'', ''solution_callback'', ''time_limit''} = {}"
  obtain r1 s' where r: "ort_solve E rl tlimit None (Some ?cb) ?kw s = (r1, s')"
    by (cases "ort_solve E rl tlimit None (Some ?cb) ?kw s")
  show "\<forall>e. fst (ort_solveAll E rl disp tlimit limit kw s) = Inl e
              \<longleftrightarrow> fst (ort_solve E rl tlimit None (Some ?cb) ?kw s) = Inl e"
  proof (cases r1)
    case (Inl e')
    with a r show ?thesis by (simp add: ort_solveAll_def Let_def)
  next
    case (Inr p)
    obtain b cbo where p: "p = (b, cbo)" by (cases p)
    from ort_solve_callback_count[OF r[unfolded Inr p]] obtain cb' where "cbo = Some cb'" by blast
    with a r Inr p show ?thesis by (simp add: ort_solveAll_def Let_def)
  qed
qed

lemma ort_solveAll_example:
  "fst (ort_solveAll (\<lambda>_. \<lparr> Solve_status = ORT_OPTIMAL, Value = (\<lambda>_. Some 0), ObjectiveValue = 0,
              SufficientAssumptionsForInfeasibility = [],
              callback_solutions = [\<lambda>_. 0, \<lambda>_. 1] \<rparr>)
          False DisplayNone None None [] ort_init) = Inr 2"
  by (simp add: ort_solveAll_def new_OrtSolutionPrinter_def on_solution_callback_def ort_eval)

theorem solveAll_objective_gate_witness:
  "ort_has_objective (ort_init\<lparr> ort_calls := [Minimize (OrtArg (ANum 0))] \<rparr>)
   \<and> fst (ort_solveAll (\<lambda>_. \<lparr> Solve_status = ORT_OPTIMAL, Value = (\<lambda>_. Some 0), ObjectiveValue = 0,
              SufficientAssumptionsForInfeasibility = [],
              callback_solutions = [\<lambda>_. 0, \<lambda>_. 1] \<rparr>)
          False DisplayNone None None [] (ort_init\<lparr> ort_calls := [Minimize (OrtArg (ANum 0))] \<rparr>))
       = Inl NotSupportedError
   \<and> \<not> ort_has_objective ort_init
   \<and> fst (ort_solveAll (\<lambda>_. \<lparr> Solve_status = ORT_OPTIMAL, Value = (\<lambda>_. Some 0), ObjectiveValue = 0,
              SufficientAssumptionsForInfeasibility = [],
              callback_solutions = [\<lambda>_. 0, \<lambda>_. 1] \<rparr>)
          False DisplayNone None None [] ort_init) = Inr 2
   \<and> count_callbacks None 0 [\<lambda>_::ort_var. 0::int, \<lambda>_. 1] = 2"
proof -
  have a: "ort_has_objective (ort_init\<lparr> ort_calls := [Minimize (OrtArg (ANum 0))] \<rparr>)"
    by (simp add: ort_has_objective_def)
  have b: "\<not> ort_has_objective ort_init" by (simp add: ort_has_objective_def ort_init_def)
  note t = solveAll_objective_gate[of "ort_init\<lparr> ort_calls := [Minimize (OrtArg (ANum 0))] \<rparr>"
      "\<lambda>_. \<lparr> Solve_status = ORT_OPTIMAL, Value = (\<lambda>_. Some 0), ObjectiveValue = 0,
              SufficientAssumptionsForInfeasibility = [],
              callback_solutions = [\<lambda>_. 0, \<lambda>_. 1] \<rparr>" False DisplayNone None None "[]" 0]
  from t a have c: "fst (ort_solveAll (\<lambda>_. \<lparr> Solve_status = ORT_OPTIMAL, Value = (\<lambda>_. Some 0),
              ObjectiveValue = 0, SufficientAssumptionsForInfeasibility = [],
              callback_solutions = [\<lambda>_. 0, \<lambda>_. 1] \<rparr>)
          False DisplayNone None None [] (ort_init\<lparr> ort_calls := [Minimize (OrtArg (ANum 0))] \<rparr>))
       = Inl NotSupportedError" by simp
  have d: "count_callbacks None 0 [\<lambda>_::ort_var. 0::int, \<lambda>_. 1] = 2" by simp
  from a b c d ort_solveAll_example show ?thesis by blast
qed

section \<open>The order of the passes\<close>

lemma run_pass_trace:
  "passes_run (env (snd (run_pass L p c x s))) = passes_run (env s) @ [p]"
  by (simp add: run_pass_def in_env_def split: prod.split)

lemma bnd_run_pass_trace:
  assumes "\<And>y s'. passes_run (env s') = passes_run (env s) @ [p] \<Longrightarrow>
             \<exists>k. passes_run (env (snd (f y s'))) = passes_run (env s') @ take k ps
               \<and> ((\<exists>r. fst (f y s') = Inr r) \<longrightarrow> k = length ps)"
  shows "\<exists>k. passes_run (env (snd (bnd (run_pass L p c x) f s))) = passes_run (env s) @ take k (p # ps)
           \<and> ((\<exists>r. fst (bnd (run_pass L p c x) f s) = Inr r) \<longrightarrow> k = length (p # ps))"
proof -
  obtain r1 s1 where r: "run_pass L p c x s = (r1, s1)" by (cases "run_pass L p c x s")
  from run_pass_trace[of L p c x s] r
  have t: "passes_run (env s1) = passes_run (env s) @ [p]" by simp
  show ?thesis
  proof (cases r1)
    case (Inl e)
    with r t have "passes_run (env (snd (bnd (run_pass L p c x) f s))) = passes_run (env s) @ take 1 (p # ps)"
      "\<not> (\<exists>r. fst (bnd (run_pass L p c x) f s) = Inr r)"
      by (simp_all add: bnd_def)
    then show ?thesis by blast
  next
    case (Inr y)
    from assms[OF t, of y] obtain k where
      k: "passes_run (env (snd (f y s1))) = passes_run (env s1) @ take k ps"
         "(\<exists>r. fst (f y s1) = Inr r) \<longrightarrow> k = length ps" by blast
    from r Inr have b: "bnd (run_pass L p c x) f s = f y s1" by (simp add: bnd_def)
    from k t have "passes_run (env (snd (f y s1))) = passes_run (env s) @ take (Suc k) (p # ps)"
      by simp
    moreover from k(2) have "(\<exists>r. fst (f y s1) = Inr r) \<longrightarrow> Suc k = length (p # ps)" by simp
    ultimately show ?thesis unfolding b by blast
  qed
qed

lemma ret_trace:
  "\<exists>k. passes_run (env (snd (ret y s'))) = passes_run (env s') @ take k []
     \<and> ((\<exists>r. fst (ret y s') = Inr r) \<longrightarrow> k = length ([] :: pass list))"
  by (simp add: ret_def)

lemma ort_transform_trace:
  "\<exists>k. passes_run (env (snd (ort_transform L e s))) = passes_run (env s) @ take k ort_passes
     \<and> ((\<exists>r. fst (ort_transform L e s) = Inr r) \<longrightarrow> k = length ort_passes)"
  unfolding ort_transform_def ort_passes_def
  by (intro bnd_run_pass_trace ret_trace)

lemma pum_transform_trace:
  "\<exists>k. passes_run (env (snd (pum_transform L e s))) = passes_run (env s) @ take k pum_passes
     \<and> ((\<exists>r. fst (pum_transform L e s) = Inr r) \<longrightarrow> k = length pum_passes)"
  unfolding pum_transform_def pum_passes_def
  by (intro bnd_run_pass_trace ret_trace)

lemma safened_first_take_ort: "safened_first (take k ort_passes)"
proof -
  have "k = 0 \<or> k = 1 \<or> (\<exists>j. k = Suc (Suc j))" by arith
  then show ?thesis by (auto simp: ort_passes_def)
qed

lemma in_spec_order_take: "sorted (map spec_stage ps) \<Longrightarrow> sorted (map spec_stage (take k ps))"
  unfolding take_map[symmetric] by (rule sorted_wrt_take)

text \<open>
  Claim C1, as the code has it. A run of the OR-Tools adapter's \<^verbatim>\<open>transform\<close> calls the
  transformation functions in the order toplevel listing, safening (of \<^verbatim>\<open>div\<close> and
  \<^verbatim>\<open>mod\<close>), decomposition, flattening, reification rewriting, numeric-equality
  canonicalization, \<^verbatim>\<open>only_bv_reifies\<close>, \<^verbatim>\<open>only_implies\<close>, stopping where one of them
  raises: this is the order of the spec, and safening runs before decomposition. A run
  of the Pumpkin adapter's \<^verbatim>\<open>transform\<close> calls them in the order toplevel listing,
  decomposition, safening (of \<^verbatim>\<open>element\<close>), flattening, \<^verbatim>\<open>only_bv_reifies\<close>,
  \<^verbatim>\<open>only_implies\<close>, reification rewriting, numeric-equality canonicalization,
  \<^verbatim>\<open>canonical_comparison\<close>: whenever it gets as far as the safening, the decomposition
  has run before it, and a run that returns is not in the order of the spec.
\<close>

theorem transform_pass_order:
  "(\<exists>k. passes_run (env (snd (ort_transform L e s))) = passes_run (env s) @ take k ort_passes
       \<and> ((\<exists>r. fst (ort_transform L e s) = Inr r) \<longrightarrow> k = length ort_passes)
       \<and> safened_first (take k ort_passes) \<and> in_spec_order (take k ort_passes))
   \<and> (\<exists>k. passes_run (env (snd (pum_transform L e t))) = passes_run (env t) @ take k pum_passes
       \<and> ((\<exists>r. fst (pum_transform L e t) = Inr r) \<longrightarrow> k = length pum_passes)
       \<and> (3 \<le> k \<longrightarrow> \<not> safened_first (take k pum_passes) \<and> \<not> in_spec_order (take k pum_passes)))"
proof (intro conjI)
  from ort_transform_trace[of L e s] obtain k where
    k: "passes_run (env (snd (ort_transform L e s))) = passes_run (env s) @ take k ort_passes"
       "(\<exists>r. fst (ort_transform L e s) = Inr r) \<longrightarrow> k = length ort_passes" by blast
  have "sorted (map spec_stage ort_passes)" by (simp add: ort_passes_def)
  then have "in_spec_order (take k ort_passes)"
    unfolding in_spec_order_def by (rule in_spec_order_take)
  with k safened_first_take_ort[of k]
  show "\<exists>k. passes_run (env (snd (ort_transform L e s))) = passes_run (env s) @ take k ort_passes
       \<and> ((\<exists>r. fst (ort_transform L e s) = Inr r) \<longrightarrow> k = length ort_passes)
       \<and> safened_first (take k ort_passes) \<and> in_spec_order (take k ort_passes)" by blast
next
  from pum_transform_trace[of L e t] obtain k where
    k: "passes_run (env (snd (pum_transform L e t))) = passes_run (env t) @ take k pum_passes"
       "(\<exists>r. fst (pum_transform L e t) = Inr r) \<longrightarrow> k = length pum_passes" by blast
  have "3 \<le> k \<longrightarrow> \<not> safened_first (take k pum_passes) \<and> \<not> in_spec_order (take k pum_passes)"
  proof
    assume "3 \<le> k"
    then obtain j where j: "k = Suc (Suc (Suc j))" by (metis Suc_le_D numeral_3_eq_3 Suc_le_mono)
    show "\<not> safened_first (take k pum_passes) \<and> \<not> in_spec_order (take k pum_passes)"
      unfolding j by (simp add: pum_passes_def in_spec_order_def)
  qed
  with k
  show "\<exists>k. passes_run (env (snd (pum_transform L e t))) = passes_run (env t) @ take k pum_passes
       \<and> ((\<exists>r. fst (pum_transform L e t) = Inr r) \<longrightarrow> k = length pum_passes)
       \<and> (3 \<le> k \<longrightarrow> \<not> safened_first (take k pum_passes) \<and> \<not> in_spec_order (take k pum_passes))"
    by blast
qed

lemma pum_transform_example:
  "pum_transform plain_library (BoolVal True) pum_init =
     (Inr [BoolVal True], pum_init\<lparr> env := tenv_init\<lparr> passes_run := pum_passes \<rparr> \<rparr>)"
  by (simp add: pum_transform_def plain_library_def run_pass_def in_env_def bnd_def ret_def
      pum_init_def tenv_init_def pum_passes_def)

lemma ort_transform_example:
  "ort_transform plain_library (BoolVal True) ort_init =
     (Inr [BoolVal True], ort_init\<lparr> env := tenv_init\<lparr> passes_run := ort_passes \<rparr> \<rparr>)"
  by (simp add: ort_transform_def plain_library_def run_pass_def in_env_def bnd_def ret_def
      ort_init_def tenv_init_def ort_passes_def)

text \<open>The claim as the spec has it, for every adapter, fails on the Pumpkin adapter: in
  the run of its \<^verbatim>\<open>transform\<close> on the constraint \<^verbatim>\<open>True\<close> the decomposition comes
  before the safening.\<close>

theorem transform_pass_order_counterexample:
  "\<not> safened_first (passes_run (env (snd (pum_transform plain_library (BoolVal True) pum_init))))"
  by (simp add: pum_transform_example pum_passes_def)

theorem transform_pass_order_witness:
  "fst (ort_transform plain_library (BoolVal True) ort_init) = Inr [BoolVal True]
   \<and> passes_run (env (snd (ort_transform plain_library (BoolVal True) ort_init))) = ort_passes
   \<and> safened_first ort_passes \<and> in_spec_order ort_passes
   \<and> fst (pum_transform plain_library (BoolVal True) pum_init) = Inr [BoolVal True]
   \<and> passes_run (env (snd (pum_transform plain_library (BoolVal True) pum_init))) = pum_passes
   \<and> \<not> safened_first pum_passes \<and> \<not> in_spec_order pum_passes"
proof -
  from transform_pass_order[of plain_library "BoolVal True" ort_init pum_init]
  obtain k k' where
    k: "passes_run (env (snd (ort_transform plain_library (BoolVal True) ort_init)))
          = passes_run (env ort_init) @ take k ort_passes"
       "(\<exists>r. fst (ort_transform plain_library (BoolVal True) ort_init) = Inr r) \<longrightarrow> k = length ort_passes"
       "safened_first (take k ort_passes)" "in_spec_order (take k ort_passes)"
    and k': "passes_run (env (snd (pum_transform plain_library (BoolVal True) pum_init)))
          = passes_run (env pum_init) @ take k' pum_passes"
       "(\<exists>r. fst (pum_transform plain_library (BoolVal True) pum_init) = Inr r) \<longrightarrow> k' = length pum_passes"
       "3 \<le> k' \<longrightarrow> \<not> safened_first (take k' pum_passes) \<and> \<not> in_spec_order (take k' pum_passes)"
    by blast
  have o: "fst (ort_transform plain_library (BoolVal True) ort_init) = Inr [BoolVal True]"
    by (simp add: ort_transform_example)
  have p: "fst (pum_transform plain_library (BoolVal True) pum_init) = Inr [BoolVal True]"
    by (simp add: pum_transform_example)
  from k(2) o have ko: "k = length ort_passes" by simp
  from k'(2) p have kp: "k' = length pum_passes" by simp
  have l: "3 \<le> length pum_passes" by (simp add: pum_passes_def)
  from k(1,3,4) have 1: "passes_run (env (snd (ort_transform plain_library (BoolVal True) ort_init))) = ort_passes"
    "safened_first ort_passes" "in_spec_order ort_passes"
    unfolding ko by (simp_all add: ort_init_def tenv_init_def)
  from k'(1,3) l have 2: "passes_run (env (snd (pum_transform plain_library (BoolVal True) pum_init))) = pum_passes"
    "\<not> safened_first pum_passes" "\<not> in_spec_order pum_passes"
    unfolding kp by (simp_all add: pum_init_def tenv_init_def)
  from o p 1 2 show ?thesis by blast
qed

section \<open>Posting to Pumpkin\<close>

lemma pum_keepsI:
  assumes "\<And>s r s'. m s = (r, s') \<Longrightarrow> pum_vstep s s'"
    and "\<And>s r s'. m s = (r, s') \<Longrightarrow> pum_wf s \<Longrightarrow> pum_wf s'"
  shows "pum_keeps m"
  unfolding pum_keeps_def
proof (intro allI conjI impI)
  fix s
  obtain r s' where a: "m s = (r, s')" by (cases "m s")
  from assms(1)[OF a] a show "pum_vstep s (snd (m s))" by simp
  assume "pum_wf s"
  from assms(2)[OF a this] a show "pum_wf (snd (m s))" by simp
qed

lemma pum_keepsD:
  assumes "pum_keeps m" and "m s = (r, s')"
  shows "pum_vstep s s'" and "pum_wf s \<Longrightarrow> pum_wf s'"
  using assms unfolding pum_keeps_def by (metis snd_conv)+

lemma pum_keeps_ret [intro!]: "pum_keeps (ret x)"
  by (rule pum_keepsI) (auto simp: ret_def pum_vstep_refl)

lemma pum_keeps_raise [intro!]: "pum_keeps (raise e)"
  by (rule pum_keepsI) (auto simp: raise_def pum_vstep_refl)

lemma pum_keeps_lift_sum [intro!]: "pum_keeps (lift_sum r)"
  by (rule pum_keepsI) (auto simp: lift_sum_def pum_vstep_refl)

lemma pum_keeps_bnd [intro!]:
  assumes "pum_keeps m" and "\<And>x. pum_keeps (f x)"
  shows "pum_keeps (bnd m f)"
proof (rule pum_keepsI)
  fix s r s'
  assume a: "bnd m f s = (r, s')"
  obtain r1 s1 where m: "m s = (r1, s1)" by (cases "m s")
  note k1 = pum_keepsD[OF assms(1) m]
  show "pum_vstep s s'"
  proof (cases r1)
    case (Inl e)
    with a m k1(1) show ?thesis by (simp add: bnd_def)
  next
    case (Inr x)
    with a m have "f x s1 = (r, s')" by (simp add: bnd_def)
    from pum_keepsD(1)[OF assms(2) this] k1(1) show ?thesis by (rule pum_vstep_trans[rotated])
  qed
  assume w: "pum_wf s"
  show "pum_wf s'"
  proof (cases r1)
    case (Inl e)
    with a m k1(2)[OF w] show ?thesis by (simp add: bnd_def)
  next
    case (Inr x)
    with a m have "f x s1 = (r, s')" by (simp add: bnd_def)
    from pum_keepsD(2)[OF assms(2) this k1(2)[OF w]] show ?thesis .
  qed
qed

lemma pum_keeps_if [intro!]:
  "(c \<Longrightarrow> pum_keeps a) \<Longrightarrow> (\<not> c \<Longrightarrow> pum_keeps b) \<Longrightarrow> pum_keeps (if c then a else b)"
  by simp

lemma pum_keeps_mapM [intro!]:
  assumes "\<And>x. pum_keeps (f x)"
  shows "pum_keeps (mapM f xs)"
  by (induction xs) (auto intro: assms)

lemma pum_keeps_solver_var [intro!]: "pum_keeps (pum_solver_var v)"
  by (rule pum_keepsI) (erule pum_solver_var_vstep, erule (1) pum_solver_var_wf)

lemma pum_keeps_solver_vars [intro!]: "pum_keeps (solver_vars pum_solver_var e)"
proof -
  have "pum_vstep s s' \<and> (pum_wf s \<longrightarrow> pum_wf s')"
    if a: "solver_vars pum_solver_var e s = (r, s')" for s r s'
  proof (rule solver_vars_lift[where R = "\<lambda>s s'. pum_vstep s s' \<and> (pum_wf s \<longrightarrow> pum_wf s')"
        and sv = pum_solver_var, OF _ _ _ a])
    show "pum_vstep a a \<and> (pum_wf a \<longrightarrow> pum_wf a)" for a by (simp add: pum_vstep_refl)
    show "pum_vstep a c \<and> (pum_wf a \<longrightarrow> pum_wf c)"
      if "pum_vstep a b \<and> (pum_wf a \<longrightarrow> pum_wf b)" and "pum_vstep b c \<and> (pum_wf b \<longrightarrow> pum_wf c)"
      for a b c using that pum_vstep_trans by blast
    show "pum_vstep a b \<and> (pum_wf a \<longrightarrow> pum_wf b)" if "pum_solver_var x a = (q, b)" for x a q b
      using that pum_solver_var_vstep pum_solver_var_wf by blast
  qed
  then show ?thesis by (intro pum_keepsI) blast+
qed

lemma intvar_wf: "intvar lb ub s = (r, s') \<Longrightarrow> pum_wf s \<Longrightarrow> pum_wf s'"
  by (auto simp: intvar_def pum_wf_def wf_varmap_def)

lemma boolvar_wf: "boolvar s = (r, s') \<Longrightarrow> pum_wf s \<Longrightarrow> pum_wf s'"
  by (auto simp: boolvar_def pum_wf_def wf_varmap_def)

lemma boolvar_pum_vstep: "boolvar s = (r, s') \<Longrightarrow> pum_vstep s s'"
  unfolding boolvar_def pum_vstep_def
  by (auto intro!: exI[of _ "varmap s"] exI[of _ "[]"] exI[of _ "pum_num_vars s"])

lemma pum_keeps_intvar [intro!]: "pum_keeps (intvar lb ub)"
  by (rule pum_keepsI) (erule intvar_pum_vstep, erule (1) intvar_wf)

lemma pum_keeps_boolvar [intro!]: "pum_keeps boolvar"
  by (rule pum_keepsI) (erule boolvar_pum_vstep, erule (1) boolvar_wf)

lemma ivars_plain_wf:
  assumes "\<And>xs. v \<noteq> ListE xs" and "ivars v s = (r, s')" and "pum_wf s"
  shows "pum_wf s'"
proof (cases "is_BoolVarImpl v")
  case True
  obtain r1 s1 where r1: "pum_solver_var v s = (r1, s1)" by (cases "pum_solver_var v s")
  have "pum_wf s1" using r1 assms(3) by (rule pum_solver_var_wf)
  moreover from assms r1 True have "s' = s1"
    by (cases v) (auto split: sum.splits)
  ultimately show ?thesis by simp
next
  case False
  note nb = this
  show ?thesis
  proof (cases "is_num v")
    case True
    define c where "c = const_int v"
    obtain r1 s1 where r1: "intvar c c s = (r1, s1)" by (cases "intvar c c s")
    have a: "pum_wf s1" using r1 assms(3) by (rule intvar_wf)
    from r1 obtain x where x: "r1 = Inr x" by (auto simp: intvar_def)
    from assms(2) True nb r1 x have "pum_solver_var x s1 = (r, s')"
      by (cases v) (simp_all add: c_def)
    then show ?thesis using a by (rule pum_solver_var_wf)
  next
    case False
    with nb assms have "pum_solver_var v s = (r, s')" by (cases v) auto
    then show ?thesis using assms(3) by (rule pum_solver_var_wf)
  qed
qed

lemma ivars_list_wf:
  assumes el: "\<And>x s r s'. x \<in> set es \<Longrightarrow> ivars x s = (r, s') \<Longrightarrow> pum_wf s \<Longrightarrow> pum_wf s'"
  shows "ivars_list es s = (rs, s') \<Longrightarrow> pum_wf s \<Longrightarrow> pum_wf s'"
  using el
proof (induction es arbitrary: s rs s')
  case Nil
  then show ?case by simp
next
  case (Cons x xs)
  obtain r1 s1 where r1: "ivars x s = (r1, s1)" by (cases "ivars x s")
  have a: "pum_wf s1" by (rule Cons.prems(3)[OF _ r1 Cons.prems(2)]) simp
  show ?case
  proof (cases r1)
    case (Inl e)
    with Cons.prems(1) r1 a show ?thesis by simp
  next
    case (Inr y)
    obtain r2 s2 where r2: "ivars_list xs s1 = (r2, s2)" by (cases "ivars_list xs s1")
    have "pum_wf s2" by (rule Cons.IH[OF r2 a]) (rule Cons.prems(3), auto)
    moreover from Cons.prems(1) r1 Inr r2 have "s' = s2" by (auto split: sum.splits)
    ultimately show ?thesis by simp
  qed
qed

lemma ivars_wf: "ivars e s = (r, s') \<Longrightarrow> pum_wf s \<Longrightarrow> pum_wf s'"
proof (induction e arbitrary: s r s')
  case (ListE xs)
  obtain r1 s1 where r1: "ivars_list xs s = (r1, s1)" by (cases "ivars_list xs s")
  have "pum_wf s1"
  proof (rule ivars_list_wf[OF _ r1 ListE.prems(2)])
    show "pum_wf b" if "x \<in> set xs" and "ivars x a = (q, b)" and "pum_wf a" for x a q b
      using that by (rule ListE.IH)
  qed
  moreover from ListE.prems r1 have "s' = s1" by (auto split: sum.splits)
  ultimately show ?case by simp
qed (erule ivars_plain_wf[rotated]; simp)+

lemma pum_keeps_ivars [intro!]: "pum_keeps (ivars e)"
  by (rule pum_keepsI) (erule ivars_pum_vstep, erule (1) ivars_wf)

lemma pum_keeps_ivars_list [intro!]: "pum_keeps (ivars_list es)"
proof (rule pum_keepsI)
  fix s r s'
  assume a: "ivars_list es s = (r, s')"
  show "pum_vstep s s'" by (rule ivars_list_lift[OF _ a]) (erule ivars_pum_vstep)
  assume "pum_wf s"
  with a show "pum_wf s'" by (rule ivars_list_wf[rotated]) (erule (1) ivars_wf)
qed

lemma to_predicate_wf: "to_predicate e s = (r, s') \<Longrightarrow> pum_wf s \<Longrightarrow> pum_wf s'"
proof -
  assume a: "to_predicate e s = (r, s')" and w: "pum_wf s"
  have mp: "pum_wf b" if "make_predicate lhs cr a = (q, b)" and "pum_wf a" for lhs cr a q b
  proof -
    obtain r1 s1 where r1: "ivars lhs a = (r1, s1)" by (cases "ivars lhs a")
    have "pum_wf s1" using r1 that(2) by (rule ivars_wf)
    moreover from that(1) r1 have "b = s1"
      unfolding make_predicate_def
      by (auto split: sum.splits option.splits prod.splits arg.splits pum_handle.splits)
    ultimately show ?thesis by simp
  qed
  have mp': "pum_wf b"
    if "bnd (make_predicate lhs cr) (\<lambda>_. raise TypeError) a = (q, b)" and "pum_wf a"
    for lhs cr a q b
  proof -
    obtain r1 s1 where r1: "make_predicate lhs cr a = (r1, s1)"
      by (cases "make_predicate lhs cr a")
    from that(1) r1 have "b = s1" by (cases r1) (simp_all add: bnd_def raise_def)
    with mp[OF r1 that(2)] show ?thesis by simp
  qed
  from a w show ?thesis
    unfolding to_predicate_def
    by (auto simp: raise_def split: if_splits expr.splits list.splits sum.splits elim: mp mp')
qed

lemma pum_keeps_to_predicate [intro!]: "pum_keeps (to_predicate e)"
  by (rule pum_keepsI) (erule to_predicate_pum_vstep, erule (1) to_predicate_wf)

lemma pum_keeps_native [intro!]:
  assumes "\<not> is_solve_call c"
  shows "pum_keeps (pum_native c)"
proof (rule pum_keepsI)
  fix s r s'
  assume "pum_native c s = (r, s')"
  then have e: "s' = s\<lparr> pum_calls := pum_calls s @ [c] \<rparr>" by (simp add: pum_native_def)
  show "pum_vstep s s'" unfolding pum_vstep_def e
    by (rule exI[of _ "varmap s"], rule exI[of _ "[c]"], rule exI[of _ "pum_num_vars s"],
        rule exI[of _ "env s"]) (simp add: assms)
  assume "pum_wf s"
  then show "pum_wf s'" by (simp add: e pum_wf_def wf_varmap_def)
qed

lemma pum_keeps_run_pass [intro!]: "pum_keeps (run_pass L p c x)"
proof (rule pum_keepsI)
  fix s :: pum_state and r s'
  assume a: "run_pass L p c x s = (r, s')"
  then obtain e where e: "s' = s\<lparr> env := e \<rparr>"
    by (auto simp: run_pass_def in_env_def split: prod.splits)
  show "pum_vstep s s'" unfolding pum_vstep_def e
    by (rule exI[of _ "varmap s"], rule exI[of _ "[]"], rule exI[of _ "pum_num_vars s"],
        rule exI[of _ e]) simp
  assume "pum_wf s"
  then show "pum_wf s'" by (simp add: e pum_wf_def wf_varmap_def)
qed

lemma pum_keeps_transform [intro!]: "pum_keeps (pum_transform L e)"
  unfolding pum_transform_def by (intro pum_keeps_bnd pum_keeps_run_pass pum_keeps_ret)

lemma pum_keeps_sum_arg [intro!]: "pum_keeps (sum_arg v w)"
  unfolding sum_arg_def by (intro pum_keeps_bnd pum_keeps_if pum_keeps_solver_var
      pum_keeps_lift_sum pum_keeps_ret)

lemma pum_keeps_wsum_args [intro!]: "pum_keeps (wsum_args negate ps)"
  by (induction negate ps rule: wsum_args.induct)
    auto

lemma pum_keeps_sum_args_sub [intro!]: "pum_keeps (sum_args_sub e negate)"
  unfolding sum_args_sub_def Operator_isinstance_of_def
  by (rule pum_keepsI) (auto simp: bnd_def lift_sum_def pum_vstep_refl)

lemma pum_keeps_sum_args [intro!]: "pum_keeps (sum_args e negate)"
  unfolding sum_args_def
  by (cases e) auto

lemma pum_keeps_case_list2:
  assumes "\<And>x y. xs = [x, y] \<Longrightarrow> pum_keeps (f x y)" and "pum_keeps g"
  shows "pum_keeps (case xs of [] \<Rightarrow> g | [x] \<Rightarrow> g | [x, y] \<Rightarrow> f x y | x # y # z # zs \<Rightarrow> g)"
  using assms by (auto split: list.split)

lemma pum_keeps_equality_constraint [intro!]: "pum_keeps (equality_constraint lhs nm r)"
  unfolding equality_constraint_def
  by (intro pum_keeps_if pum_keeps_bnd pum_keeps_lift_sum pum_keeps_ivars_list
      pum_keeps_ivars pum_keeps_solver_var pum_keeps_ret pum_keeps_raise)
    (auto split: list.split)

lemma pum_keeps_linear_constraint [intro!]: "pum_keeps (linear_constraint c lhs negate rhs f)"
  unfolding linear_constraint_def by (intro pum_keeps_bnd pum_keeps_sum_args pum_keeps_lift_sum pum_keeps_ret)

lemma pum_keeps_comparison_constraint [intro!]: "pum_keeps (comparison_constraint name lhs rhs)"
  unfolding comparison_constraint_def
  by (intro pum_keeps_if pum_keeps_bnd pum_keeps_lift_sum pum_keeps_to_predicate
      pum_keeps_linear_constraint pum_keeps_ivars pum_keeps_equality_constraint
      pum_keeps_ret pum_keeps_raise)

lemma pum_keeps_global_constraint [intro!]:
  assumes "\<And>c. pum_keeps (self c)"
  shows "pum_keeps (global_constraint L self name args)"
proof -
  have 1: "pum_keeps (bnd (self c) (\<lambda>cs. case cs of [] \<Rightarrow> raise IndexError | c0 # _ \<Rightarrow> ret c0))" for c
    by (intro pum_keeps_bnd assms) (auto split: list.split)
  show ?thesis
    unfolding global_constraint_def
    by (intro pum_keeps_if pum_keeps_bnd pum_keeps_lift_sum pum_keeps_solver_vars
        pum_keeps_ret pum_keeps_raise)
      (auto split: list.split intro!: 1)
qed

lemma pum_keeps_get_constraint_body [intro!]:
  assumes "\<And>c. pum_keeps (self c)"
  shows "pum_keeps (get_constraint_body L self e)"
  unfolding get_constraint_body_def
  by (cases e) (auto intro!: assms)

lemma pum_keeps_get_constraint [intro!]: "pum_keeps (get_constraint d L e)"
  by (induction d arbitrary: e) auto

lemma pum_keeps_post_transformed [intro!]: "pum_keeps (post_transformed d L e)"
proof -
  have 1: "pum_keeps (bnd (get_constraint d L e)
     (\<lambda>cs. bnd (mapM (\<lambda>cons. pum_native (add_constraint cons None)) cs) (\<lambda>_. ret ())))"
    by (intro pum_keeps_bnd pum_keeps_mapM pum_keeps_native pum_keeps_get_constraint pum_keeps_ret)
      simp
  have 2: "pum_keeps (bnd (get_constraint d L sub)
     (\<lambda>conss. bnd (mapM (\<lambda>cons. bnd (pum_solver_var b) (\<lambda>h. bnd (lift_sum (as_bool h))
         (\<lambda>b. pum_native (add_implication cons b None)))) conss) (\<lambda>_. ret ())))" for b sub
    by (intro pum_keeps_bnd pum_keeps_mapM pum_keeps_native pum_keeps_get_constraint pum_keeps_ret
        pum_keeps_solver_var pum_keeps_lift_sum) simp
  show ?thesis
    unfolding post_transformed_def
    using 1 2 by (auto split: expr.split list.split)
qed

section \<open>Dispatch of comparisons in the Pumpkin adapter\<close>

lemma sum_args_sub_raises: "sum_args_sub expr negate s = (Inl TypeError, s)"
  by (simp add: sum_args_sub_def Operator_isinstance_of_def lift_sum_def bnd_def)

lemma sum_args_of_sub: "sum_args (Operator ''sub'' args) negate s = (Inl TypeError, s)"
  by (simp add: sum_args_def sum_args_sub_raises)

lemma linear_constraint_of_sub:
  "linear_constraint c (Operator ''sub'' args) negate rhs f s = (Inl TypeError, s)"
  by (simp add: linear_constraint_def bnd_Inl[OF sum_args_of_sub])

lemma comparison_constraint_of_sub:
  assumes "name \<in> set [''=='', ''<='', ''<'', ''>='', ''>'', ''!='']"
  shows "comparison_constraint name (Operator ''sub'' args) rhs s = (Inl TypeError, s)"
proof -
  have "comparison_constraint name (Operator ''sub'' args) rhs s
      = (if name = ''=='' then linear_constraint Equals (Operator ''sub'' args) False rhs (\<lambda>r. r) s
         else if name = ''<='' then
           linear_constraint LessThanOrEquals (Operator ''sub'' args) False rhs (\<lambda>r. r) s
         else if name = ''<'' then
           linear_constraint LessThanOrEquals (Operator ''sub'' args) False rhs (\<lambda>r. r - 1) s
         else if name = ''>='' then
           linear_constraint LessThanOrEquals (Operator ''sub'' args) True rhs (\<lambda>r. - r) s
         else if name = ''>'' then
           linear_constraint LessThanOrEquals (Operator ''sub'' args) True rhs (\<lambda>r. - r - 1) s
         else if name = ''!='' then
           linear_constraint NotEquals (Operator ''sub'' args) False rhs (\<lambda>r. r) s
         else raise ValueError s)"
    by (simp add: comparison_constraint_def bnd_def lift_sum_def)
  with assms show ?thesis by (auto simp add: linear_constraint_of_sub)
qed

lemma comparison_constraint_of_abs:
  assumes "pum_wf s"
  shows "comparison_constraint ''=='' (Operator ''abs'' args) rhs s =
     (case ivars rhs s of
        (Inl e, s') \<Rightarrow> (Inl e, s')
      | (Inr pum_rhs, s') \<Rightarrow> (Inl NotImplementedError, s'))"
proof -
  obtain r1 s1 where r1: "ivars rhs s = (r1, s1)" by (cases "ivars rhs s")
  have c: "comparison_constraint ''=='' (Operator ''abs'' args) rhs s
      = bnd (ivars rhs) (equality_constraint (Operator ''abs'' args) ''abs'') s"
    by (simp add: comparison_constraint_def bnd_def lift_sum_def)
  show ?thesis
  proof (cases r1)
    case (Inl e)
    with r1 c show ?thesis by (simp add: bnd_def)
  next
    case (Inr h)
    from ivars_wf[OF r1 assms] have "wf_varmap s1" by (simp add: pum_wf_def)
    then have "varmap s1 (Operator ''abs'' args) = None"
      by (rule wf_varmap_not_plain) simp
    then have "pum_solver_var (Operator ''abs'' args) s1 = (Inl NotImplementedError, s1)"
      by (intro pum_solver_var_unknown) (simp_all add: unknown_kind_def)
    then have "equality_constraint (Operator ''abs'' args) ''abs'' h s1 = (Inl NotImplementedError, s1)"
      by (simp add: equality_constraint_def bnd_def)
    with r1 c Inr show ?thesis by (simp add: bnd_def)
  qed
qed

text \<open>
  Claim C4 fails in the Pumpkin adapter on its own instances \<^verbatim>\<open>sub\<close> and \<^verbatim>\<open>abs\<close>.
  \<^verbatim>\<open>_sum_args\<close> raises \<^verbatim>\<open>TypeError\<close> for every \<^verbatim>\<open>sub\<close> operator, whatever its
  arguments: the branch meant for it is guarded by \<^verbatim>\<open>isinstance(Operator, expr)\<close>. So
  for every comparison with a \<^verbatim>\<open>sub\<close> on its left-hand side \<^verbatim>\<open>_get_constraint\<close> raises
  \<^verbatim>\<open>TypeError\<close>, and posting it raises and makes no native call. For an equality with
  an \<^verbatim>\<open>abs\<close> on its left-hand side, in an adapter whose cache holds variables only,
  \<^verbatim>\<open>_get_constraint\<close> raises as well: once the right-hand side has its handle, it asks
  \<^verbatim>\<open>solver_var\<close> for the handle of the \<^verbatim>\<open>abs\<close> expression itself, which is no
  variable (\<^verbatim>\<open>NotImplementedError\<close>); posting it never returns a result.
\<close>

theorem pumpkin_sub_and_abs_raise:
  "sum_args (Operator ''sub'' args) negate s = (Inl TypeError, s)
   \<and> (name \<in> set [''=='', ''<='', ''<'', ''>='', ''>'', ''!=''] \<longrightarrow>
        get_constraint (Suc depth) L (Comparison name (Operator ''sub'' args) rhs) s
          = (Inl TypeError, s)
        \<and> post_transformed (Suc depth) L (Comparison name (Operator ''sub'' args) rhs) s
          = (Inl TypeError, s))
   \<and> (pum_wf s \<longrightarrow>
        get_constraint (Suc depth) L (Comparison ''=='' (Operator ''abs'' args) rhs) s
          = (case ivars rhs s of
               (Inl e, s') \<Rightarrow> (Inl e, s')
             | (Inr pum_rhs, s') \<Rightarrow> (Inl NotImplementedError, s'))
        \<and> (\<exists>e. fst (post_transformed (Suc depth) L
                      (Comparison ''=='' (Operator ''abs'' args) rhs) s) = Inl e))"
proof (intro conjI impI)
  show "sum_args (Operator ''sub'' args) negate s = (Inl TypeError, s)"
    by (rule sum_args_of_sub)
next
  assume n: "name \<in> set [''=='', ''<='', ''<'', ''>='', ''>'', ''!='']"
  show g: "get_constraint (Suc depth) L (Comparison name (Operator ''sub'' args) rhs) s
      = (Inl TypeError, s)"
    by (simp add: get_constraint_body_def comparison_constraint_of_sub[OF n])
  show "post_transformed (Suc depth) L (Comparison name (Operator ''sub'' args) rhs) s
      = (Inl TypeError, s)"
    unfolding post_transformed_def by (simp add: bnd_def g del: get_constraint.simps)
next
  assume w: "pum_wf s"
  show g: "get_constraint (Suc depth) L (Comparison ''=='' (Operator ''abs'' args) rhs) s
      = (case ivars rhs s of
           (Inl e, s') \<Rightarrow> (Inl e, s')
         | (Inr pum_rhs, s') \<Rightarrow> (Inl NotImplementedError, s'))"
    by (simp add: get_constraint_body_def comparison_constraint_of_abs[OF w])
  then obtain e s' where
    "get_constraint (Suc depth) L (Comparison ''=='' (Operator ''abs'' args) rhs) s = (Inl e, s')"
    by (cases "ivars rhs s") (auto split: sum.splits)
  then show "\<exists>e. fst (post_transformed (Suc depth) L
                      (Comparison ''=='' (Operator ''abs'' args) rhs) s) = Inl e"
    unfolding post_transformed_def by (simp add: bnd_def del: get_constraint.simps)
qed

text \<open>By contrast, a sum on the left-hand side is dispatched to one native constraint.\<close>

lemma get_constraint_sum_example:
  "fst (get_constraint 1 L (Comparison ''<='' (Operator ''sum'' [IntVarImpl 0 5 ''x'',
         IntVarImpl 0 5 ''y'']) (Num 3)) pum_init)
     = Inr [LessThanOrEquals [Scaled (IntVariable 0) 1, Scaled (IntVariable 1) 1] 3]"
  by (simp add: get_constraint_body_def comparison_constraint_def linear_constraint_def
      sum_args_def sum_arg_def lift_sum_def pum_eval)

lemma char_of_48: "char_of (48 :: nat) = CHR ''0''"
  by code_simp

lemma string_of_nat_0: "string_of_nat 0 = ''0''"
  by (simp add: char_of_48)

lemma ivars_Num_example:
  "ivars (Num 3) pum_init =
     (Inr (AVar (PumpkinInt (IntVariable 0))),
      pum_init\<lparr> varmap := [IntVarImpl 3 3 ''IV0'' \<mapsto> PumpkinInt (IntVariable 0)],
        env := tenv_init\<lparr> iv_counter := 1 \<rparr>,
        pum_calls := [new_integer_variable 3 3 ''IV0''], pum_num_vars := 1 \<rparr>)"
  by (simp add: intvar_def string_of_nat_0 pum_eval del: string_of_nat.simps)

theorem pumpkin_sub_and_abs_raise_witness:
  "''<='' \<in> set [''=='', ''<='', ''<'', ''>='', ''>'', ''!='']
   \<and> get_constraint 1 plain_library (Comparison ''<='' (Operator ''sub'' [IntVarImpl 0 5 ''x'',
         IntVarImpl 0 5 ''y'']) (Num 3)) pum_init = (Inl TypeError, pum_init)
   \<and> post_transformed 1 plain_library (Comparison ''<='' (Operator ''sub'' [IntVarImpl 0 5 ''x'',
         IntVarImpl 0 5 ''y'']) (Num 3)) pum_init = (Inl TypeError, pum_init)
   \<and> pum_wf pum_init
   \<and> fst (get_constraint 1 plain_library (Comparison ''=='' (Operator ''abs'' [IntVarImpl 0 5 ''x'',
         IntVarImpl 0 5 ''y'']) (Num 3)) pum_init) = Inl NotImplementedError"
proof -
  have n: "''<='' \<in> set [''=='', ''<='', ''<'', ''>='', ''>'', ''!='']" by simp
  note t = pumpkin_sub_and_abs_raise[of "[IntVarImpl 0 5 ''x'', IntVarImpl 0 5 ''y'']" False
      pum_init "''<=''" 0 plain_library "Num 3"]
  from t n have 1: "get_constraint 1 plain_library (Comparison ''<='' (Operator ''sub''
      [IntVarImpl 0 5 ''x'', IntVarImpl 0 5 ''y'']) (Num 3)) pum_init = (Inl TypeError, pum_init)"
    and 2: "post_transformed 1 plain_library (Comparison ''<='' (Operator ''sub''
      [IntVarImpl 0 5 ''x'', IntVarImpl 0 5 ''y'']) (Num 3)) pum_init = (Inl TypeError, pum_init)"
    by simp_all
  from t pum_wf_pum_init have g: "get_constraint (Suc 0) plain_library (Comparison ''=='' (Operator ''abs''
      [IntVarImpl 0 5 ''x'', IntVarImpl 0 5 ''y'']) (Num 3)) pum_init
      = (case ivars (Num 3) pum_init of
               (Inl e, s') \<Rightarrow> (Inl e, s')
             | (Inr pum_rhs, s') \<Rightarrow> (Inl NotImplementedError, s'))" by blast
  have 3: "fst (get_constraint 1 plain_library (Comparison ''=='' (Operator ''abs''
      [IntVarImpl 0 5 ''x'', IntVarImpl 0 5 ''y'']) (Num 3)) pum_init) = Inl NotImplementedError"
    unfolding One_nat_def g ivars_Num_example by simp
  from n 1 2 3 pum_wf_pum_init show ?thesis by blast
qed

section \<open>The set of user variables\<close>

lemma set_collect: "set (collect vs us) = set vs \<union> set us"
  unfolding collect_def by (induction vs arbitrary: us) auto

lemma pum_keeps_user_vars:
  "pum_keeps m \<Longrightarrow> user_vars (snd (m s)) = user_vars s"
  unfolding pum_keeps_def by (rule pum_vstep_fields(1)) blast

lemma pum_bnd_user_vars:
  assumes "pum_keeps m" and "\<And>x s. user_vars (snd (f x s)) = user_vars s"
  shows "user_vars (snd (bnd m f s)) = user_vars s"
proof -
  obtain r1 s1 where m: "m s = (r1, s1)" by (cases "m s")
  from pum_keeps_user_vars[OF assms(1), of s] m have u: "user_vars s1 = user_vars s" by simp
  show ?thesis
  proof (cases r1)
    case (Inl e)
    with m u show ?thesis by (simp add: bnd_def)
  next
    case (Inr x)
    with m have "bnd m f s = f x s1" by (simp add: bnd_def)
    with assms(2)[of x s1] u show ?thesis by simp
  qed
qed

lemma add_loop_user_vars: "user_vars (snd (add_loop depth L es s)) = user_vars s"
proof (induction es arbitrary: s)
  case Nil
  show ?case by simp
next
  case (Cons e es)
  show ?case
  proof (cases "e \<in> snd ` set (user_cons s)")
    case True
    then show ?thesis by (simp add: Cons.IH)
  next
    case False
    let ?s1 = "s\<lparr> user_cons := user_cons s @ [(length (user_cons s) + 1, e)] \<rparr>"
    have "user_vars (snd (bnd (pum_transform L e) (\<lambda>cons.
        bnd (mapM (post_transformed depth L) cons) (\<lambda>_. add_loop depth L es)) ?s1))
        = user_vars ?s1"
      by (intro pum_bnd_user_vars pum_keeps_transform pum_keeps_mapM pum_keeps_post_transformed
          Cons.IH)
    with False show ?thesis by simp
  qed
qed

lemma pum_add_user_vars:
  "user_vars (snd (pum_add depth L e s)) = collect (get_variables e) (user_vars s)"
proof -
  have "user_vars (snd (bnd (run_pass L (Toplevel_list True) False e) (add_loop depth L)
      (s\<lparr> user_vars := collect (get_variables e) (user_vars s) \<rparr>)))
      = user_vars (s\<lparr> user_vars := collect (get_variables e) (user_vars s) \<rparr>)"
    by (intro pum_bnd_user_vars pum_keeps_run_pass add_loop_user_vars)
  then show ?thesis by (simp add: pum_add_def)
qed

lemma pum_objective_user_vars:
  "user_vars (snd (pum_objective depth L expr minimize s)) =
     (case get_bounds L expr of
        Inl e \<Rightarrow> user_vars s
      | Inr (lb, ub) \<Rightarrow>
          collect (get_variables (eq_expr expr
            (IntVarImpl lb ub (''IV'' @ string_of_nat (iv_counter (env s)))))) (user_vars s))"
proof (cases "get_bounds L expr")
  case (Inl e)
  then show ?thesis by (simp add: pum_objective_def bnd_def lift_sum_def)
next
  case (Inr p)
  obtain lb ub where p: "p = (lb, ub)" by (cases p)
  let ?v = "IntVarImpl lb ub (''IV'' @ string_of_nat (iv_counter (env s)))"
  let ?s1 = "s\<lparr> env := (env s)\<lparr> iv_counter := Suc (iv_counter (env s)) \<rparr> \<rparr>"
  obtain r2 s2 where a: "pum_add depth L (eq_expr expr ?v) ?s1 = (r2, s2)"
    by (cases "pum_add depth L (eq_expr expr ?v) ?s1")
  from pum_add_user_vars[of depth L "eq_expr expr ?v" ?s1] a
  have u: "user_vars s2 = collect (get_variables (eq_expr expr ?v)) (user_vars s)" by simp
  have "user_vars (snd (pum_objective depth L expr minimize s)) = user_vars s2"
    using Inr p a
    by (cases r2) (simp_all add: pum_objective_def bnd_def lift_sum_def intvar_def
        del: string_of_nat.simps)
  with u Inr p show ?thesis by simp
qed

lemma ort_growsI:
  assumes "\<And>s r s'. m s = (r, s') \<Longrightarrow> set (user_vars s) \<subseteq> set (user_vars s')"
  shows "ort_grows m"
  unfolding ort_grows_def
proof
  fix s
  obtain r s' where a: "m s = (r, s')" by (cases "m s")
  from assms[OF a] a show "set (user_vars s) \<subseteq> set (user_vars (snd (m s)))" by simp
qed

lemma ort_growsD: "ort_grows m \<Longrightarrow> m s = (r, s') \<Longrightarrow> set (user_vars s) \<subseteq> set (user_vars s')"
  unfolding ort_grows_def by (metis snd_conv)

lemma ort_grows_vstep:
  assumes "\<And>s r s'. m s = (r, s') \<Longrightarrow> ort_vstep s s'"
  shows "ort_grows m"
  by (rule ort_growsI) (simp add: ort_vstep_fields(1)[OF assms])

lemma ort_grows_ret [intro!]: "ort_grows (ret x)"
  by (rule ort_growsI) (auto simp: ret_def)

lemma ort_grows_raise [intro!]: "ort_grows (raise e)"
  by (rule ort_growsI) (auto simp: raise_def)

lemma ort_grows_lift_sum [intro!]: "ort_grows (lift_sum r)"
  by (rule ort_growsI) (auto simp: lift_sum_def)

lemma ort_grows_bnd [intro!]:
  assumes "ort_grows m" and "\<And>x. ort_grows (f x)"
  shows "ort_grows (bnd m f)"
proof (rule ort_growsI)
  fix s r s'
  assume a: "bnd m f s = (r, s')"
  obtain r1 s1 where m: "m s = (r1, s1)" by (cases "m s")
  note k1 = ort_growsD[OF assms(1) m]
  show "set (user_vars s) \<subseteq> set (user_vars s')"
  proof (cases r1)
    case (Inl e)
    with a m k1 show ?thesis by (simp add: bnd_def)
  next
    case (Inr x)
    with a m have "f x s1 = (r, s')" by (simp add: bnd_def)
    from ort_growsD[OF assms(2) this] k1 show ?thesis by blast
  qed
qed

lemma ort_grows_if [intro!]:
  "(c \<Longrightarrow> ort_grows a) \<Longrightarrow> (\<not> c \<Longrightarrow> ort_grows b) \<Longrightarrow> ort_grows (if c then a else b)"
  by simp

lemma ort_grows_case_prod [intro!]:
  "(\<And>a b. ort_grows (f a b)) \<Longrightarrow> ort_grows (case_prod f p)"
  by (cases p) simp

lemma ort_grows_mapM [intro!]:
  assumes "\<And>x. ort_grows (f x)"
  shows "ort_grows (mapM f xs)"
  by (induction xs) (auto intro: assms)

lemma ort_grows_solver_var [intro!]: "ort_grows (ort_solver_var v)"
  by (rule ort_grows_vstep) (erule ort_solver_var_vstep)

lemma ort_grows_solver_vars [intro!]: "ort_grows (solver_vars ort_solver_var e)"
  by (rule ort_grows_vstep) (erule solver_vars_ort_vstep)

lemma ort_grows_solver_vars_list [intro!]: "ort_grows (solver_vars_list ort_solver_var es)"
  by (rule ort_grows_vstep) (erule solver_vars_list_ort_vstep)

lemma ort_grows_native [intro!]: "ort_grows (ort_native c)"
  by (rule ort_growsI) (auto simp: ort_native_def)

lemma ort_grows_intvar [intro!]: "ort_grows (intvar lb ub)"
  by (rule ort_growsI) (auto simp: intvar_def)

lemma ort_grows_boolvar [intro!]: "ort_grows boolvar"
  by (rule ort_growsI) (auto simp: boolvar_def)

lemma ort_grows_boolvars [intro!]: "ort_grows (boolvars n)"
  unfolding boolvars_def by (intro ort_grows_mapM ort_grows_boolvar)

lemma ort_grows_in_env [intro!]: "ort_grows (in_env m)"
  by (rule ort_growsI) (auto simp: in_env_def split: prod.splits)

lemma ort_grows_run_pass [intro!]: "ort_grows (run_pass L p c x)"
  by (rule ort_growsI) (auto simp: run_pass_def in_env_def split: prod.splits)

lemma ort_grows_transform [intro!]: "ort_grows (ort_transform L e)"
  unfolding ort_transform_def by (intro ort_grows_bnd ort_grows_run_pass ort_grows_ret)

lemma ort_grows_make_numexpr [intro!]: "ort_grows (make_numexpr e)"
proof -
  have 1: "ort_grows (case r of AList [a, b] \<Rightarrow> ret (Difference a b) | _ \<Rightarrow> raise ValueError)"
    for r :: "ort_var arg"
    by (auto split: arg.split list.split)
  show ?thesis
    unfolding make_numexpr_def
    by (cases e) (auto split: list.split intro!: 1)
qed

lemma ort_grows_Add_comparison [intro!]: "ort_grows (Add_comparison name l r)"
  unfolding Add_comparison_def by (intro ort_grows_if ort_grows_native ort_grows_raise)

lemma ort_grows_pow_loop [intro!]:
  assumes "\<And>e. ort_grows (self_add e)"
  shows "ort_grows (pow_loop L self_add b k new_lhs)"
  by (induction k arbitrary: new_lhs) (auto intro: assms)

lemma ort_grows_equality [intro!]:
  assumes "\<And>e. ort_grows (self_add e)"
  shows "ort_grows (ort_equality L self_add lhs nm r)"
  unfolding ort_equality_def
  by (intro ort_grows_if ort_grows_bnd ort_grows_lift_sum ort_grows_solver_vars
      ort_grows_native ort_grows_raise)
    (auto split: list.split expr.split intro: assms)

lemma ort_grows_comparison [intro!]:
  assumes "\<And>e. ort_grows (self_add e)"
  shows "ort_grows (ort_comparison L self_add name lhs rhs)"
  unfolding ort_comparison_def
  by (intro ort_grows_if ort_grows_bnd ort_grows_lift_sum ort_grows_solver_var
      ort_grows_make_numexpr ort_grows_Add_comparison ort_grows_raise ort_grows_equality assms)

lemma ort_grows_circuit [intro!]:
  assumes "\<And>e. ort_grows (self_add e)"
  shows "ort_grows (ort_circuit self_add x)"
  unfolding ort_circuit_def Let_def
  by (intro ort_grows_bnd ort_grows_boolvars assms ort_grows_mapM ort_grows_case_prod
      ort_grows_solver_var ort_grows_ret ort_grows_native)

lemma ort_grows_global [intro!]:
  assumes "\<And>e. ort_grows (self_add e)"
  shows "ort_grows (ort_global self_add name args)"
  unfolding ort_global_def
  by (intro ort_grows_if ort_grows_bnd ort_grows_solver_vars ort_grows_solver_vars_list
      ort_grows_native ort_grows_raise ort_grows_circuit assms)
    (auto split: list.split arg.split)

lemma ort_grows_callSolver [intro!]: "ort_grows (callSolver name args)"
  unfolding callSolver_def by (intro ort_grows_bnd ort_grows_solver_vars ort_grows_native)

lemma ort_grows_post_constraint_body [intro!]:
  assumes "\<And>e. ort_grows (self_post e)" and "\<And>e. ort_grows (self_add e)"
  shows "ort_grows (post_constraint_body L self_post self_add e)"
  unfolding post_constraint_body_def
  by (cases e) (auto split: list.split intro: assms)

lemma ort_grows_add_body [intro!]:
  assumes "\<And>e. ort_grows (self_post e)"
  shows "ort_grows (add_body L self_post e)"
proof (rule ort_growsI)
  fix s :: ort_state and r s'
  let ?s1 = "s\<lparr> user_vars := collect (get_variables e) (user_vars s) \<rparr>"
  assume "add_body L self_post e s = (r, s')"
  then have a: "bnd (ort_transform L e) (\<lambda>cons. bnd (mapM self_post cons) (\<lambda>_. ret ())) ?s1
      = (r, s')" by (simp add: add_body_def)
  have "ort_grows (bnd (ort_transform L e) (\<lambda>cons. bnd (mapM self_post cons) (\<lambda>_. ret ())))"
    by (intro ort_grows_bnd ort_grows_transform ort_grows_mapM assms ort_grows_ret)
  from ort_growsD[OF this a] show "set (user_vars s) \<subseteq> set (user_vars s')"
    by (simp add: set_collect)
qed

lemma ort_grows_post_constraint [intro!]: "ort_grows (post_constraint depth L e)"
  by (induction depth arbitrary: e) auto

lemma ort_grows_add [intro!]: "ort_grows (ort_add depth L e)"
  unfolding ort_add_def by (intro ort_grows_add_body ort_grows_post_constraint)

lemma ort_add_contains:
  "set (user_vars s) \<union> set (get_variables e) \<subseteq> set (user_vars (snd (ort_add depth L e s)))"
proof -
  let ?s1 = "s\<lparr> user_vars := collect (get_variables e) (user_vars s) \<rparr>"
  let ?m = "bnd (ort_transform L e) (\<lambda>cons.
     bnd (mapM (post_constraint depth L) cons) (\<lambda>_. ret ()))"
  have "ort_grows ?m"
    by (intro ort_grows_bnd ort_grows_transform ort_grows_mapM ort_grows_post_constraint
        ort_grows_ret)
  then have "set (user_vars ?s1) \<subseteq> set (user_vars (snd (?m ?s1)))"
    unfolding ort_grows_def by blast
  moreover have "ort_add depth L e s = ?m ?s1" by (simp add: ort_add_def add_body_def)
  ultimately show ?thesis by (simp add: set_collect Un_commute)
qed

lemma ort_grows_objective [intro!]: "ort_grows (ort_objective depth L e minimize)"
proof -
  have "ort_grows (\<lambda>s. (Inr (), s\<lparr> user_vars := collect (get_variables x) (user_vars s) \<rparr>))"
    for x :: expr
    by (rule ort_growsI) (auto simp: set_collect)
  then show ?thesis
    unfolding ort_objective_def
    by (intro ort_grows_bnd ort_grows_in_env ort_grows_case_prod ort_grows_add
        ort_grows_make_numexpr ort_grows_native)
qed

lemma pum_call_of_grows:
  "set (user_vars s) \<subseteq> set (user_vars (snd (pum_call_of depth L c s)))"
proof (cases c)
  case (Add_call e)
  then show ?thesis by (simp add: pum_add_user_vars set_collect)
next
  case (Objective_call e minimize)
  show ?thesis
  proof (cases "get_bounds L e")
    case (Inl x)
    with Objective_call show ?thesis by (simp add: pum_objective_user_vars)
  next
    case (Inr p)
    with Objective_call show ?thesis
      by (cases p) (simp add: pum_objective_user_vars set_collect del: string_of_nat.simps)
  qed
qed

lemma pum_run_grows: "set (user_vars s) \<subseteq> set (user_vars (pum_run depth L cs s))"
proof (induction cs arbitrary: s)
  case Nil
  show ?case by simp
next
  case (Cons c cs)
  from pum_call_of_grows[of s depth L c] Cons.IH[of "snd (pum_call_of depth L c s)"]
  show ?case by simp
qed

lemma ort_call_of_grows:
  "set (user_vars s) \<subseteq> set (user_vars (snd (ort_call_of depth L c s)))"
proof (cases c)
  case (Add_call e)
  from ort_grows_add[of depth L e] show ?thesis
    unfolding ort_grows_def Add_call by simp
next
  case (Objective_call e minimize)
  from ort_grows_objective[of depth L e minimize] show ?thesis
    unfolding ort_grows_def Objective_call by simp
qed

lemma ort_run_grows: "set (user_vars s) \<subseteq> set (user_vars (ort_run depth L cs s))"
proof (induction cs arbitrary: s)
  case Nil
  show ?case by simp
next
  case (Cons c cs)
  from ort_call_of_grows[of s depth L c] Cons.IH[of "snd (ort_call_of depth L c s)"]
  show ?case by simp
qed

text \<open>What a call posted through \<^verbatim>\<open>self += ...\<close> adds stays: the rest of the
  function only adds.\<close>

lemma ort_bnd_grows_snd:
  assumes "\<And>x. ort_grows (f x)"
  shows "set (user_vars (snd (m s))) \<subseteq> set (user_vars (snd (bnd m f s)))"
proof -
  obtain r1 s1 where m: "m s = (r1, s1)" by (cases "m s")
  show ?thesis
  proof (cases r1)
    case (Inl e)
    with m show ?thesis by (simp add: bnd_def)
  next
    case (Inr x)
    with m have "bnd m f s = f x s1" by (simp add: bnd_def)
    moreover from assms[of x] have "set (user_vars s1) \<subseteq> set (user_vars (snd (f x s1)))"
      unfolding ort_grows_def by blast
    ultimately show ?thesis using m by simp
  qed
qed

lemma in_env_user_vars: "in_env m s = (r, s') \<Longrightarrow> user_vars s' = user_vars s"
  by (auto simp: in_env_def split: prod.splits)

lemma bnd_lift_sum_Inr: "bnd (lift_sum (Inr x)) f = f x"
  by (rule ext) (simp add: bnd_def lift_sum_def)

lemma ort_add_list_contains:
  "set (get_variables (ListE cs)) \<subseteq> set (user_vars (snd (ort_add depth L (ListE cs) s)))"
  using ort_add_contains[of s "ListE cs" depth L] by blast

lemma ort_objective_contains:
  assumes "in_env (flatten_objective L e) t = (Inr (flat_obj, flat_cons), t1)"
  shows "set (get_variables (ListE flat_cons))
           \<subseteq> set (user_vars (snd (ort_objective depth L e minimize t)))"
    and "ort_add depth L (ListE flat_cons) t1 = (Inr (), t2) \<Longrightarrow>
         set (get_variables flat_obj)
           \<subseteq> set (user_vars (snd (ort_objective depth L e minimize t)))"
proof -
  let ?K = "bnd (make_numexpr flat_obj) (\<lambda>obj.
     ort_native (if minimize then Minimize obj else Maximize obj))"
  let ?R = "\<lambda>_ :: unit.
     bnd (\<lambda>s. (Inr (), s\<lparr> user_vars := collect (get_variables flat_obj) (user_vars s) \<rparr>))
       (\<lambda>_. ?K)"
  have gK: "ort_grows ?K" by (intro ort_grows_bnd ort_grows_make_numexpr ort_grows_native)
  have g1: "ort_grows (\<lambda>s. (Inr (), s\<lparr> user_vars := collect (get_variables flat_obj) (user_vars s) \<rparr>))"
    by (rule ort_growsI) (auto simp: set_collect)
  have gR: "ort_grows (?R u)" for u by (rule ort_grows_bnd) (rule g1, rule gK)
  have eq: "ort_objective depth L e minimize t = bnd (ort_add depth L (ListE flat_cons)) ?R t1"
    using assms by (simp add: ort_objective_def bnd_def)
  from ort_add_list_contains[of flat_cons depth L t1]
    ort_bnd_grows_snd[of ?R "ort_add depth L (ListE flat_cons)" t1, OF gR]
  show "set (get_variables (ListE flat_cons))
           \<subseteq> set (user_vars (snd (ort_objective depth L e minimize t)))"
    unfolding eq by blast
  show "set (get_variables flat_obj)
           \<subseteq> set (user_vars (snd (ort_objective depth L e minimize t)))"
    if a: "ort_add depth L (ListE flat_cons) t1 = (Inr (), t2)"
  proof -
    let ?t3 = "t2\<lparr> user_vars := collect (get_variables flat_obj) (user_vars t2) \<rparr>"
    have "ort_objective depth L e minimize t = ?K ?t3"
      unfolding eq using a by (simp add: bnd_def)
    moreover from gK have "set (user_vars ?t3) \<subseteq> set (user_vars (snd (?K ?t3)))"
      unfolding ort_grows_def by blast
    ultimately show ?thesis by (simp add: set_collect)
  qed
qed

lemma ort_mod_contains:
  assumes "args_of lhs = Inr [x, y]" and "get_bounds L y = Inr (lb, ub)" and "lb \<le> 0"
    and "in_env (get_or_make_var L (neg_expr y)) s = (Inr (y', link), s1)"
  shows "set (get_variables (ListE link))
           \<subseteq> set (user_vars (snd (ort_equality L (ort_add depth L) lhs ''mod'' ortrhs s)))"
proof -
  let ?M = "bnd (in_env (get_or_make_var L (neg_expr y))) (\<lambda>(y, link).
                 bnd (ort_add depth L (ListE link)) (\<lambda>_. ret y))"
  let ?K = "\<lambda>y. bnd (solver_vars_list ort_solver_var [x, y]) (\<lambda>xs.
                case xs of
                  [a, b] \<Rightarrow> ort_native (AddConstraint ''AddModuloEquality'' [ortrhs, a, b])
                | _ \<Rightarrow> raise TypeError)"
  have gK: "ort_grows (?K u)" for u
    by (intro ort_grows_bnd ort_grows_solver_vars_list) (auto split: list.split)
  have eq: "ort_equality L (ort_add depth L) lhs ''mod'' ortrhs = bnd ?M ?K"
    using assms(1,2,3) by (simp add: ort_equality_def bnd_lift_sum_Inr)
  have m: "?M s = bnd (ort_add depth L (ListE link)) (\<lambda>_. ret y') s1"
    using assms(4) by (simp add: bnd_def)
  have "set (get_variables (ListE link)) \<subseteq> set (user_vars (snd (?M s)))"
    unfolding m
    using ort_add_list_contains[of link depth L s1]
      ort_bnd_grows_snd[of "\<lambda>_. ret y'" "ort_add depth L (ListE link)" s1, OF ort_grows_ret]
    by blast
  with ort_bnd_grows_snd[of ?K ?M s, OF gK] show ?thesis unfolding eq by blast
qed

lemma ort_pow_contains:
  assumes "args_of lhs = Inr [x, Num n]" and "n \<noteq> 2" and "0 < n"
    and "in_env (get_or_make_var L (Operator ''mul'' [x, Num 1])) s = (Inr (v, link), s1)"
  shows "set (get_variables (ListE link))
           \<subseteq> set (user_vars (snd (ort_equality L (ort_add depth L) lhs ''pow'' ortrhs s)))"
proof -
  from assms(3) obtain k where k: "nat n = Suc k" by (cases "nat n") auto
  let ?M = "pow_loop L (ort_add depth L) x (Suc k) (Num 1)"
  let ?K = "\<lambda>new_lhs. bnd (ort_solver_var new_lhs) (\<lambda>l. Add_comparison ''=='' (OrtArg l) ortrhs)"
  have gK: "ort_grows (?K u)" for u
    by (intro ort_grows_bnd ort_grows_solver_var ort_grows_Add_comparison)
  have gP: "ort_grows (pow_loop L (ort_add depth L) x k u)" for u
    by (intro ort_grows_pow_loop ort_grows_add)
  have eq: "ort_equality L (ort_add depth L) lhs ''pow'' ortrhs = bnd ?M ?K"
    using assms(1,2) k by (simp add: ort_equality_def bnd_lift_sum_Inr del: pow_loop.simps)
  have m: "?M s = bnd (ort_add depth L (ListE link)) (\<lambda>_. pow_loop L (ort_add depth L) x k v) s1"
    using assms(4) by (simp add: bnd_def)
  have "set (get_variables (ListE link)) \<subseteq> set (user_vars (snd (?M s)))"
    unfolding m
    using ort_add_list_contains[of link depth L s1]
      ort_bnd_grows_snd[of "\<lambda>_. pow_loop L (ort_add depth L) x k v"
        "ort_add depth L (ListE link)" s1, OF gP]
    by blast
  with ort_bnd_grows_snd[of ?K ?M s, OF gK] show ?thesis unfolding eq by blast
qed

lemma boolvars_are_variables:
  "mapM (\<lambda>_. boolvar) us s = (Inr vs, s') \<Longrightarrow> \<forall>b\<in>set vs. \<exists>n. b = BoolVarImpl n"
proof (induction us arbitrary: s vs s')
  case Nil
  then show ?case by (simp add: ret_def)
next
  case (Cons u us)
  obtain b1 s1 where b1: "boolvar s = (Inr (BoolVarImpl b1), s1)" by (simp add: boolvar_def)
  obtain r2 s2 where r2: "mapM (\<lambda>_. boolvar) us s1 = (r2, s2)"
    by (cases "mapM (\<lambda>_. boolvar) us s1")
  show ?case
  proof (cases r2)
    case (Inl e)
    with Cons.prems b1 r2 show ?thesis by (simp add: bnd_def)
  next
    case (Inr ys)
    with Cons.prems b1 r2 have "vs = BoolVarImpl b1 # ys" by (simp add: bnd_def ret_def)
    moreover from Cons.IH[OF r2[unfolded Inr]] have "\<forall>b\<in>set ys. \<exists>n. b = BoolVarImpl n" .
    ultimately show ?thesis by simp
  qed
qed

lemma arcvars_in_constraints:
  assumes "\<forall>b\<in>set vs. \<exists>n. b = BoolVarImpl n"
  shows "set vs \<subseteq> set (get_variables (ListE (map (\<lambda>(k, b). eq_expr b (g k))
           (zip [0..<length vs] vs))))"
proof
  fix b assume b: "b \<in> set vs"
  then obtain i where i: "i < length vs" "vs ! i = b" by (auto simp: in_set_conv_nth)
  then have z: "(i, b) \<in> set (zip [0..<length vs] vs)"
    by (auto simp: set_zip intro!: exI[of _ i])
  from assms b obtain n where n: "b = BoolVarImpl n" by blast
  then have "b \<in> set (vars_of (eq_expr b (g i)))" by (simp add: eq_expr_def)
  with z show "b \<in> set (get_variables (ListE (map (\<lambda>(k, b). eq_expr b (g k))
           (zip [0..<length vs] vs))))"
    unfolding get_variables_def by (force simp: set_zip)
qed

lemma ort_circuit_contains:
  assumes "boolvars (length xs * length xs) s = (Inr arcvars, s1)"
  shows "set arcvars \<subseteq> set (user_vars (snd (ort_circuit (ort_add depth L) xs s)))"
proof -
  let ?N = "length xs"
  let ?cs = "map (\<lambda>(k, b). eq_expr b (eq_expr (xs ! (k div ?N)) (Num (int (k mod ?N)))))
             (zip [0..<length arcvars] arcvars)"
  let ?K = "\<lambda>_ :: unit. bnd (mapM (\<lambda>(k, b). bnd (ort_solver_var b) (\<lambda>h.
               ret (AList [ANum (int (k div ?N)), ANum (int (k mod ?N)), h])))
             (filter (\<lambda>(k, b). k div ?N \<noteq> k mod ?N) (zip [0..<length arcvars] arcvars)))
        (\<lambda>ort_arcs. ort_native (AddConstraint ''AddCircuit'' ort_arcs))"
  have gK: "ort_grows (?K u)" for u
    by (intro ort_grows_bnd ort_grows_mapM ort_grows_case_prod ort_grows_solver_var
        ort_grows_ret ort_grows_native)
  have eq: "ort_circuit (ort_add depth L) xs s = bnd (ort_add depth L (ListE ?cs)) ?K s1"
    using assms by (simp add: ort_circuit_def Let_def bnd_def)
  from assms have "\<forall>b\<in>set arcvars. \<exists>n. b = BoolVarImpl n"
    unfolding boolvars_def by (rule boolvars_are_variables)
  from arcvars_in_constraints[OF this, of "\<lambda>k. eq_expr (xs ! (k div ?N)) (Num (int (k mod ?N)))"]
    ort_add_list_contains[of ?cs depth L s1]
    ort_bnd_grows_snd[of ?K "ort_add depth L (ListE ?cs)" s1, OF gK]
  show ?thesis unfolding eq by blast
qed

text \<open>
  Claim C9, as the code has it. The set of user variables never shrinks, whatever the
  sequence of calls of \<^verbatim>\<open>add\<close> and \<^verbatim>\<open>objective\<close> and whether they return or raise, and
  after \<^verbatim>\<open>add(e)\<close> it contains the variables of \<^verbatim>\<open>e\<close>. It is not limited to the
  variables of the caller's expressions: the adapters post their own constraints through
  \<^verbatim>\<open>add\<close> as well.

  In the Pumpkin adapter \<^verbatim>\<open>add(e)\<close> adds the variables of \<^verbatim>\<open>e\<close> and nothing else;
  \<^verbatim>\<open>objective(e)\<close> adds the variables of \<^verbatim>\<open>e == obj_var\<close>, where \<^verbatim>\<open>obj_var\<close> is the
  variable it has just created.

  In the OR-Tools adapter \<^verbatim>\<open>objective(e)\<close> adds the variables of the constraints that
  \<^verbatim>\<open>flatten_objective\<close> returns and, when posting these returns, the variables of the
  flattened objective. The branch of \<^verbatim>\<open>_post_constraint\<close> for an equality with
  \<^verbatim>\<open>mod\<close> on the left adds the variables of the constraints that
  \<^verbatim>\<open>get_or_make_var\<close> returns for the negated divisor, when the lower bound of the
  divisor is not positive; the branch for \<^verbatim>\<open>pow\<close> with an exponent that is positive
  and not 2 adds the variables of the constraints that \<^verbatim>\<open>get_or_make_var\<close> returns in
  the first round of its loop; \<^verbatim>\<open>circuit\<close> adds the Boolean variables it creates for
  the arcs.
\<close>

theorem user_vars_grow:
  "user_vars (snd (pum_add depth L e s)) = collect (get_variables e) (user_vars s)
   \<and> user_vars (snd (pum_objective depth L e minimize s)) =
       (case get_bounds L e of
          Inl err \<Rightarrow> user_vars s
        | Inr (lb, ub) \<Rightarrow>
            collect (get_variables (eq_expr e
              (IntVarImpl lb ub (''IV'' @ string_of_nat (iv_counter (env s)))))) (user_vars s))
   \<and> set (user_vars t) \<union> set (get_variables e) \<subseteq> set (user_vars (snd (ort_add depth L e t)))
   \<and> set (user_vars t) \<subseteq> set (user_vars (snd (ort_objective depth L e minimize t)))
   \<and> set (user_vars s) \<subseteq> set (user_vars (pum_run depth L cs s))
   \<and> set (user_vars t) \<subseteq> set (user_vars (ort_run depth L cs t))
   \<and> (in_env (flatten_objective L e) t = (Inr (flat_obj, flat_cons), t1) \<longrightarrow>
        set (get_variables (ListE flat_cons))
          \<subseteq> set (user_vars (snd (ort_objective depth L e minimize t)))
        \<and> (ort_add depth L (ListE flat_cons) t1 = (Inr (), t2) \<longrightarrow>
             set (get_variables flat_obj)
               \<subseteq> set (user_vars (snd (ort_objective depth L e minimize t)))))
   \<and> (args_of lhs = Inr [x, y] \<and> get_bounds L y = Inr (lb', ub') \<and> lb' \<le> 0
        \<and> in_env (get_or_make_var L (neg_expr y)) t = (Inr (y', link), t3) \<longrightarrow>
        set (get_variables (ListE link))
          \<subseteq> set (user_vars (snd (ort_equality L (ort_add depth L) lhs ''mod'' ortrhs t))))
   \<and> (args_of lhs = Inr [x, Num n] \<and> n \<noteq> 2 \<and> 0 < n
        \<and> in_env (get_or_make_var L (Operator ''mul'' [x, Num 1])) t = (Inr (v, cons), t4) \<longrightarrow>
        set (get_variables (ListE cons))
          \<subseteq> set (user_vars (snd (ort_equality L (ort_add depth L) lhs ''pow'' ortrhs t))))
   \<and> (boolvars (length xs * length xs) t = (Inr arcvars, t5) \<longrightarrow>
        set arcvars \<subseteq> set (user_vars (snd (ort_circuit (ort_add depth L) xs t))))"
proof (intro conjI impI)
  show "user_vars (snd (pum_add depth L e s)) = collect (get_variables e) (user_vars s)"
    by (rule pum_add_user_vars)
  show "user_vars (snd (pum_objective depth L e minimize s)) =
       (case get_bounds L e of
          Inl err \<Rightarrow> user_vars s
        | Inr (lb, ub) \<Rightarrow>
            collect (get_variables (eq_expr e
              (IntVarImpl lb ub (''IV'' @ string_of_nat (iv_counter (env s)))))) (user_vars s))"
    by (rule pum_objective_user_vars)
  show "set (user_vars t) \<union> set (get_variables e) \<subseteq> set (user_vars (snd (ort_add depth L e t)))"
    by (rule ort_add_contains)
  from ort_grows_objective[of depth L e minimize]
  show "set (user_vars t) \<subseteq> set (user_vars (snd (ort_objective depth L e minimize t)))"
    unfolding ort_grows_def by blast
  show "set (user_vars s) \<subseteq> set (user_vars (pum_run depth L cs s))"
    by (rule pum_run_grows)
  show "set (user_vars t) \<subseteq> set (user_vars (ort_run depth L cs t))"
    by (rule ort_run_grows)
next
  assume "in_env (flatten_objective L e) t = (Inr (flat_obj, flat_cons), t1)"
  then show "set (get_variables (ListE flat_cons))
          \<subseteq> set (user_vars (snd (ort_objective depth L e minimize t)))"
    by (rule ort_objective_contains(1))
next
  assume "in_env (flatten_objective L e) t = (Inr (flat_obj, flat_cons), t1)"
    and "ort_add depth L (ListE flat_cons) t1 = (Inr (), t2)"
  then show "set (get_variables flat_obj)
               \<subseteq> set (user_vars (snd (ort_objective depth L e minimize t)))"
    by (rule ort_objective_contains(2))
next
  assume "args_of lhs = Inr [x, y] \<and> get_bounds L y = Inr (lb', ub') \<and> lb' \<le> 0
        \<and> in_env (get_or_make_var L (neg_expr y)) t = (Inr (y', link), t3)"
  then show "set (get_variables (ListE link))
          \<subseteq> set (user_vars (snd (ort_equality L (ort_add depth L) lhs ''mod'' ortrhs t)))"
    by (intro ort_mod_contains) blast+
next
  assume "args_of lhs = Inr [x, Num n] \<and> n \<noteq> 2 \<and> 0 < n
        \<and> in_env (get_or_make_var L (Operator ''mul'' [x, Num 1])) t = (Inr (v, cons), t4)"
  then show "set (get_variables (ListE cons))
          \<subseteq> set (user_vars (snd (ort_equality L (ort_add depth L) lhs ''pow'' ortrhs t)))"
    by (intro ort_pow_contains) blast+
next
  assume "boolvars (length xs * length xs) t = (Inr arcvars, t5)"
  then show "set arcvars \<subseteq> set (user_vars (snd (ort_circuit (ort_add depth L) xs t)))"
    by (rule ort_circuit_contains)
qed

lemma pum_objective_example:
  "user_vars (pum_run 1 plain_library [Objective_call (IntVarImpl 0 5 ''x'') True] pum_init)
     = [IntVarImpl 0 1 ''IV0'', IntVarImpl 0 5 ''x'']"
  by (simp add: pum_objective_user_vars plain_library_def eq_expr_def get_variables_def
      collect_def pum_init_def tenv_init_def string_of_nat_0 del: string_of_nat.simps)

text \<open>The claim as the spec has it fails in the Pumpkin adapter: after the single call
  \<^verbatim>\<open>objective(x)\<close> on a new adapter, the variable that \<^verbatim>\<open>objective\<close> has created is a
  user variable, and it appears in no expression the caller has given.\<close>

theorem user_vars_grow_counterexample:
  "IntVarImpl 0 1 ''IV0'' \<in> set (user_vars (pum_run 1 plain_library
       [Objective_call (IntVarImpl 0 5 ''x'') True] pum_init))
   \<and> caller_vars [Objective_call (IntVarImpl 0 5 ''x'') True] = [IntVarImpl 0 5 ''x'']
   \<and> \<not> set (user_vars (pum_run 1 plain_library
           [Objective_call (IntVarImpl 0 5 ''x'') True] pum_init))
         \<subseteq> set (caller_vars [Objective_call (IntVarImpl 0 5 ''x'') True])"
  unfolding pum_objective_example by (simp add: caller_vars_def get_variables_def)

lemma aux_flatten_example:
  "in_env (flatten_objective aux_library (IntVarImpl 0 5 ''x'')) ort_init
     = (Inr (IntVarImpl 0 1 ''IV0'', [Comparison ''=='' (IntVarImpl 0 5 ''x'') (IntVarImpl 0 1 ''IV0'')]),
        snd (in_env (flatten_objective aux_library (IntVarImpl 0 5 ''x'')) ort_init))"
  by (simp add: in_env_def aux_library_def plain_library_def fresh_var_def ort_init_def
      tenv_init_def string_of_nat_0 del: string_of_nat.simps)

lemma aux_mod_example:
  "in_env (get_or_make_var aux_library (neg_expr (IntVarImpl 0 5 ''y''))) ort_init
     = (Inr (IntVarImpl 0 1 ''IV0'',
             [Comparison ''=='' (Operator ''-'' [IntVarImpl 0 5 ''y'']) (IntVarImpl 0 1 ''IV0'')]),
        snd (in_env (get_or_make_var aux_library (neg_expr (IntVarImpl 0 5 ''y''))) ort_init))"
  by (simp add: in_env_def aux_library_def plain_library_def fresh_var_def ort_init_def
      tenv_init_def string_of_nat_0 del: string_of_nat.simps)

lemma aux_pow_example:
  "in_env (get_or_make_var aux_library (Operator ''mul'' [IntVarImpl 0 5 ''x'', Num 1])) ort_init
     = (Inr (IntVarImpl 0 1 ''IV0'',
             [Comparison ''=='' (Operator ''mul'' [IntVarImpl 0 5 ''x'', Num 1])
                (IntVarImpl 0 1 ''IV0'')]),
        snd (in_env (get_or_make_var aux_library
               (Operator ''mul'' [IntVarImpl 0 5 ''x'', Num 1])) ort_init))"
  by (simp add: in_env_def aux_library_def plain_library_def fresh_var_def ort_init_def
      tenv_init_def string_of_nat_0 del: string_of_nat.simps)

lemma boolvars_example:
  "boolvars (length [IntVarImpl 0 0 ''x''] * length [IntVarImpl 0 0 ''x'']) ort_init
     = (Inr [BoolVarImpl ''BV0''],
        snd (boolvars (length [IntVarImpl 0 0 ''x''] * length [IntVarImpl 0 0 ''x'']) ort_init))"
  by (simp add: boolvars_def boolvar_def bnd_def ret_def ort_init_def tenv_init_def
      string_of_nat_0 del: string_of_nat.simps)

theorem user_vars_grow_witness:
  "user_vars (snd (pum_add 1 plain_library (Comparison ''<='' (Operator ''sum''
       [IntVarImpl 0 5 ''x'', IntVarImpl 0 5 ''y'']) (Num 3)) pum_init))
     = [IntVarImpl 0 5 ''y'', IntVarImpl 0 5 ''x'']
   \<and> user_vars (snd (pum_objective 1 plain_library (IntVarImpl 0 5 ''x'') True pum_init))
     = [IntVarImpl 0 1 ''IV0'', IntVarImpl 0 5 ''x'']
   \<and> IntVarImpl 0 5 ''x'' \<in> set (user_vars (snd (ort_add 1 plain_library
         (Comparison ''<='' (Operator ''sum'' [IntVarImpl 0 5 ''x'', IntVarImpl 0 5 ''y''])
            (Num 3)) ort_init)))
   \<and> IntVarImpl 0 1 ''IV0'' \<in> set (user_vars (snd (ort_objective 1 aux_library
         (IntVarImpl 0 5 ''x'') True ort_init)))
   \<and> IntVarImpl 0 1 ''IV0'' \<in> set (user_vars (snd (ort_equality aux_library
         (ort_add 1 aux_library) (Operator ''mod'' [IntVarImpl 0 5 ''x'', IntVarImpl 0 5 ''y''])
         ''mod'' (ANum 0) ort_init)))
   \<and> IntVarImpl 0 1 ''IV0'' \<in> set (user_vars (snd (ort_equality aux_library
         (ort_add 1 aux_library) (Operator ''pow'' [IntVarImpl 0 5 ''x'', Num 3])
         ''pow'' (ANum 0) ort_init)))
   \<and> BoolVarImpl ''BV0'' \<in> set (user_vars (snd (ort_circuit (ort_add 1 aux_library)
         [IntVarImpl 0 0 ''x''] ort_init)))"
proof -
  note t = user_vars_grow[of 1 plain_library "Comparison ''<='' (Operator ''sum''
       [IntVarImpl 0 5 ''x'', IntVarImpl 0 5 ''y'']) (Num 3)" pum_init True ort_init "[]"]
  note u = user_vars_grow[of 1 plain_library "IntVarImpl 0 5 ''x''" pum_init True ort_init "[]"]
  note w = user_vars_grow[where depth = 1 and L = aux_library and e = "IntVarImpl 0 5 ''x''"
      and minimize = True and t = ort_init
      and flat_obj = "IntVarImpl 0 1 ''IV0''"
      and flat_cons = "[Comparison ''=='' (IntVarImpl 0 5 ''x'') (IntVarImpl 0 1 ''IV0'')]"
      and ?t1.0 = "snd (in_env (flatten_objective aux_library (IntVarImpl 0 5 ''x'')) ort_init)"]
  note m = user_vars_grow[where depth = 1 and L = aux_library and t = ort_init
      and lhs = "Operator ''mod'' [IntVarImpl 0 5 ''x'', IntVarImpl 0 5 ''y'']"
      and x = "IntVarImpl 0 5 ''x''" and y = "IntVarImpl 0 5 ''y''" and lb' = 0 and ub' = 1
      and y' = "IntVarImpl 0 1 ''IV0''"
      and link = "[Comparison ''=='' (Operator ''-'' [IntVarImpl 0 5 ''y''])
             (IntVarImpl 0 1 ''IV0'')]"
      and ?t3.0 = "snd (in_env (get_or_make_var aux_library (neg_expr (IntVarImpl 0 5 ''y'')))
             ort_init)"
      and ortrhs = "ANum 0"]
  note p = user_vars_grow[where depth = 1 and L = aux_library and t = ort_init
      and lhs = "Operator ''pow'' [IntVarImpl 0 5 ''x'', Num 3]"
      and x = "IntVarImpl 0 5 ''x''" and n = 3 and v = "IntVarImpl 0 1 ''IV0''"
      and cons = "[Comparison ''=='' (Operator ''mul'' [IntVarImpl 0 5 ''x'', Num 1])
             (IntVarImpl 0 1 ''IV0'')]"
      and ?t4.0 = "snd (in_env (get_or_make_var aux_library
               (Operator ''mul'' [IntVarImpl 0 5 ''x'', Num 1])) ort_init)"
      and ortrhs = "ANum 0"]
  note c = user_vars_grow[where depth = 1 and L = aux_library and t = ort_init
      and xs = "[IntVarImpl 0 0 ''x'']" and arcvars = "[BoolVarImpl ''BV0'']"
      and ?t5.0 = "snd (boolvars (length [IntVarImpl 0 0 ''x''] * length [IntVarImpl 0 0 ''x''])
             ort_init)"]
  from t[THEN conjunct1] have 1: "user_vars (snd (pum_add 1 plain_library (Comparison ''<='' (Operator ''sum''
       [IntVarImpl 0 5 ''x'', IntVarImpl 0 5 ''y'']) (Num 3)) pum_init))
     = [IntVarImpl 0 5 ''y'', IntVarImpl 0 5 ''x'']"
    by (simp add: get_variables_def collect_def pum_init_def)
  from u[THEN conjunct2, THEN conjunct1] have 2: "user_vars (snd (pum_objective 1 plain_library (IntVarImpl 0 5 ''x'') True pum_init))
     = [IntVarImpl 0 1 ''IV0'', IntVarImpl 0 5 ''x'']"
    by (simp add: plain_library_def eq_expr_def get_variables_def
      collect_def pum_init_def tenv_init_def string_of_nat_0 del: string_of_nat.simps)
  from t[THEN conjunct2, THEN conjunct2, THEN conjunct1] have "set (get_variables (Comparison ''<='' (Operator ''sum''
       [IntVarImpl 0 5 ''x'', IntVarImpl 0 5 ''y'']) (Num 3)))
     \<subseteq> set (user_vars (snd (ort_add 1 plain_library
         (Comparison ''<='' (Operator ''sum'' [IntVarImpl 0 5 ''x'', IntVarImpl 0 5 ''y''])
            (Num 3)) ort_init)))" by blast
  then have 3: "IntVarImpl 0 5 ''x'' \<in> set (user_vars (snd (ort_add 1 plain_library
         (Comparison ''<='' (Operator ''sum'' [IntVarImpl 0 5 ''x'', IntVarImpl 0 5 ''y''])
            (Num 3)) ort_init)))"
    by (auto simp: get_variables_def)
  from w[THEN conjunct2, THEN conjunct2, THEN conjunct2, THEN conjunct2, THEN conjunct2, THEN conjunct2, THEN conjunct1] aux_flatten_example
  have "set (get_variables (ListE [Comparison ''=='' (IntVarImpl 0 5 ''x'')
           (IntVarImpl 0 1 ''IV0'')]))
     \<subseteq> set (user_vars (snd (ort_objective 1 aux_library (IntVarImpl 0 5 ''x'') True ort_init)))"
    by blast
  then have 4: "IntVarImpl 0 1 ''IV0'' \<in> set (user_vars (snd (ort_objective 1 aux_library
         (IntVarImpl 0 5 ''x'') True ort_init)))"
    by (auto simp: get_variables_def)
  have hm: "args_of (Operator ''mod'' [IntVarImpl 0 5 ''x'', IntVarImpl 0 5 ''y''])
        = Inr [IntVarImpl 0 5 ''x'', IntVarImpl 0 5 ''y'']
      \<and> get_bounds aux_library (IntVarImpl 0 5 ''y'') = Inr (0, 1) \<and> (0 :: int) \<le> 0"
    by (simp add: aux_library_def plain_library_def)
  from m[THEN conjunct2, THEN conjunct2, THEN conjunct2, THEN conjunct2, THEN conjunct2, THEN conjunct2, THEN conjunct2, THEN conjunct1] hm aux_mod_example
  have "set (get_variables (ListE [Comparison ''=='' (Operator ''-'' [IntVarImpl 0 5 ''y''])
             (IntVarImpl 0 1 ''IV0'')]))
     \<subseteq> set (user_vars (snd (ort_equality aux_library (ort_add 1 aux_library)
           (Operator ''mod'' [IntVarImpl 0 5 ''x'', IntVarImpl 0 5 ''y''])
           ''mod'' (ANum 0) ort_init)))"
    by blast
  then have 5: "IntVarImpl 0 1 ''IV0'' \<in> set (user_vars (snd (ort_equality aux_library
         (ort_add 1 aux_library) (Operator ''mod'' [IntVarImpl 0 5 ''x'', IntVarImpl 0 5 ''y''])
         ''mod'' (ANum 0) ort_init)))"
    by (auto simp: get_variables_def)
  have hp: "args_of (Operator ''pow'' [IntVarImpl 0 5 ''x'', Num 3])
        = Inr [IntVarImpl 0 5 ''x'', Num 3] \<and> (3 :: int) \<noteq> 2 \<and> (0 :: int) < 3"
    by simp
  from p[THEN conjunct2, THEN conjunct2, THEN conjunct2, THEN conjunct2, THEN conjunct2, THEN conjunct2, THEN conjunct2, THEN conjunct2, THEN conjunct1] hp aux_pow_example
  have "set (get_variables (ListE [Comparison ''=='' (Operator ''mul'' [IntVarImpl 0 5 ''x'', Num 1])
             (IntVarImpl 0 1 ''IV0'')]))
     \<subseteq> set (user_vars (snd (ort_equality aux_library (ort_add 1 aux_library)
           (Operator ''pow'' [IntVarImpl 0 5 ''x'', Num 3]) ''pow'' (ANum 0) ort_init)))"
    by blast
  then have 6: "IntVarImpl 0 1 ''IV0'' \<in> set (user_vars (snd (ort_equality aux_library
         (ort_add 1 aux_library) (Operator ''pow'' [IntVarImpl 0 5 ''x'', Num 3])
         ''pow'' (ANum 0) ort_init)))"
    by (auto simp: get_variables_def)
  from c[THEN conjunct2, THEN conjunct2, THEN conjunct2, THEN conjunct2, THEN conjunct2, THEN conjunct2, THEN conjunct2, THEN conjunct2, THEN conjunct2] boolvars_example
  have "set [BoolVarImpl ''BV0''] \<subseteq> set (user_vars (snd (ort_circuit (ort_add 1 aux_library)
         [IntVarImpl 0 0 ''x''] ort_init)))"
    by blast
  then have 7: "BoolVarImpl ''BV0'' \<in> set (user_vars (snd (ort_circuit (ort_add 1 aux_library)
         [IntVarImpl 0 0 ''x''] ort_init)))"
    by simp
  from 1 2 3 4 5 6 7 show ?thesis by blast
qed

section \<open>The values of the user variables after solve\<close>


























end
